(* ===== verification/Prelude.thy ===== *)
theory Prelude
  imports Main "HOL-Library.Word" "HOL-Library.Monad_Syntax"
begin

text \<open>
  What every component of the development shares: the machine integers and pointers of
  the C and C++ sources, the typed heap (one heap per struct type) with its four accesses,
  NUL-terminated strings, and the lemma collections that carry the component proofs.

  Conventions.
  \<^item> A pointer is an address or NULL: \<open>nat option\<close>, with \<open>None\<close> for NULL.
  \<^item> A C function that can go wrong returns an \<open>option\<close>: \<open>None\<close> stands for undefined
    behaviour (a read or write through NULL or a freed address, a double free, a read past
    the end of a buffer), for a failed \<open>assert\<close>, and for a loop that does not end.  Every
    such function has a theorem that its result is \<open>Some\<close> under its precondition.
  \<^item> The allocator gives addresses in increasing order and never the address of a freed
    object.  Since the safety theorems show that no freed address is ever read or written,
    an allocator that reuses addresses cannot be told from this one.
  \<^item> A byte is a \<open>char\<close>, so that string literals can be written; a C string is a
    \<open>char list\<close> that holds the terminating NUL.
\<close>

named_theorems heap_simps \<open>rewriting with loads and stores of a heap\<close>
named_theorems heap_intros \<open>introduction rules for loads and stores that succeed\<close>

section \<open>Machine integers and pointers\<close>

type_synonym u8 = "8 word"
type_synonym u32 = "32 word"
type_synonym u64 = "64 word"
type_synonym addr = nat
type_synonym ptr = "nat option"

abbreviation NULL :: ptr where
  "NULL \<equiv> None"

abbreviation NUL :: char where
  "NUL \<equiv> CHR 0x00"

section \<open>A heap of objects of one type\<close>

record 'a heap =
  cells :: "addr \<rightharpoonup> 'a"
  brk :: addr

definition empty_heap :: "'a heap" where
  "empty_heap = \<lparr>cells = Map.empty, brk = 0\<rparr>"

definition load :: "'a heap \<Rightarrow> ptr \<Rightarrow> 'a option" where
  "load h p = do { a \<leftarrow> p; cells h a }"

definition store :: "'a heap \<Rightarrow> ptr \<Rightarrow> 'a \<Rightarrow> 'a heap option" where
  "store h p c = do { a \<leftarrow> p; old \<leftarrow> cells h a; Some (h\<lparr>cells := (cells h)(a \<mapsto> c)\<rparr>) }"

text \<open>\<open>p->field = v\<close>: the object is read, one field of it changed, and written back.\<close>

definition modify :: "'a heap \<Rightarrow> ptr \<Rightarrow> ('a \<Rightarrow> 'a) \<Rightarrow> 'a heap option" where
  "modify h p f = do { c \<leftarrow> load h p; store h p (f c) }"

definition alloc :: "'a heap \<Rightarrow> 'a \<Rightarrow> ptr \<times> 'a heap" where
  "alloc h c = (Some (brk h), h\<lparr>cells := (cells h)(brk h \<mapsto> c), brk := Suc (brk h)\<rparr>)"

text \<open>\<open>free\<close>: a no-op on NULL, undefined on an address that is not allocated.\<close>

definition release :: "'a heap \<Rightarrow> ptr \<Rightarrow> 'a heap option" where
  "release h p = (case p of None \<Rightarrow> Some h
     | Some a \<Rightarrow> (if cells h a = None then None else Some (h\<lparr>cells := (cells h)(a := None)\<rparr>)))"

definition heap_ok :: "'a heap \<Rightarrow> bool" where
  "heap_ok h \<longleftrightarrow> (\<forall>a \<in> dom (cells h). a < brk h)"

lemma load_NULL [heap_simps, simp]: "load h None = None"
  by (simp add: load_def)

lemma load_Some [heap_simps, simp]: "load h (Some a) = cells h a"
  by (simp add: load_def)

lemma store_Some [heap_simps]:
  "store h (Some a) c = (if cells h a = None then None else Some (h\<lparr>cells := (cells h)(a \<mapsto> c)\<rparr>))"
  by (cases "cells h a") (auto simp: store_def)

lemma modify_Some [heap_simps]:
  "modify h (Some a) f =
     (case cells h a of None \<Rightarrow> None | Some c \<Rightarrow> Some (h\<lparr>cells := (cells h)(a \<mapsto> f c)\<rparr>))"
  by (auto simp: modify_def store_def split: option.splits)

lemma modify_NULL [heap_simps]: "modify h None f = None"
  by (simp add: modify_def)

lemma modify_alloc [heap_intros]:
  "cells h a = Some c \<Longrightarrow> modify h (Some a) f = Some (h\<lparr>cells := (cells h)(a \<mapsto> f c)\<rparr>)"
  by (simp add: modify_Some)

lemma release_alloc [heap_intros]:
  "cells h a = Some c \<Longrightarrow> release h (Some a) = Some (h\<lparr>cells := (cells h)(a := None)\<rparr>)"
  by (simp add: release_def)

lemma heap_ok_empty [simp]: "heap_ok empty_heap"
  by (simp add: heap_ok_def empty_heap_def)

lemma cells_empty_heap [simp]: "cells empty_heap = Map.empty"
  by (simp add: empty_heap_def)

lemma heap_ok_fresh: "heap_ok h \<Longrightarrow> cells h (brk h) = None"
  by (auto simp: heap_ok_def domIff)

lemma heap_ok_less: "heap_ok h \<Longrightarrow> cells h a = Some c \<Longrightarrow> a < brk h"
  by (auto simp: heap_ok_def)

lemma heap_ok_upd: "heap_ok h \<Longrightarrow> cells h a \<noteq> None \<Longrightarrow> heap_ok (h\<lparr>cells := (cells h)(a \<mapsto> c)\<rparr>)"
  by (auto simp: heap_ok_def)

lemma heap_ok_del: "heap_ok h \<Longrightarrow> heap_ok (h\<lparr>cells := (cells h)(a := None)\<rparr>)"
  by (auto simp: heap_ok_def)

lemma heap_ok_alloc: "heap_ok h \<Longrightarrow>
    heap_ok (h\<lparr>cells := (cells h)(brk h \<mapsto> c), brk := Suc (brk h)\<rparr>)"
  by (auto simp: heap_ok_def less_Suc_eq)

text \<open>The sign of a 64-bit word.\<close>

lemma sint_small: "uint (u :: u64) < 2 ^ 63 \<Longrightarrow> sint u = uint u"
  unfolding sint_uint by (rule signed_take_bit_int_eq_self) (simp_all add: order_trans [OF _ uint_ge_0])

lemma sint_large:
  assumes "2 ^ 63 \<le> uint (u :: u64)"
  shows "sint u = uint u - 2 ^ 64"
proof -
  have "uint u < 2 ^ 64" using uint_lt2p [of u] by simp
  then have "signed_take_bit 63 (uint u - 2 ^ 64) = uint u - 2 ^ 64"
    using assms by (intro signed_take_bit_int_eq_self) simp_all
  moreover have "signed_take_bit 63 (uint u - 2 ^ 64) = signed_take_bit 63 (uint u)"
    unfolding signed_take_bit_eq_iff_take_bit_eq by (simp add: take_bit_eq_mod)
  ultimately show ?thesis by (simp add: sint_uint)
qed

lemma sint_negative: "sint (u :: u64) < 0 \<longleftrightarrow> 2 ^ 63 \<le> uint u"
  using sint_small [of u] sint_large [of u] uint_lt2p [of u] by (cases "uint u < 2 ^ 63") auto

lemma unat_of_nat_64: "n < 2 ^ 64 \<Longrightarrow> unat (of_nat n :: u64) = n"
  by (simp add: unat_of_nat take_bit_nat_eq_self)

text \<open>Distinct allocated addresses are at most as many as addresses were ever given out.\<close>

lemma heap_ok_length:
  assumes "heap_ok h" and "distinct as" and "set as \<subseteq> dom (cells h)"
  shows "length as \<le> brk h"
proof -
  have "set as \<subseteq> {..<brk h}"
    using assms(1,3) by (auto simp: heap_ok_def)
  then have "card (set as) \<le> card {..<brk h}"
    by (rule card_mono [OF finite_lessThan])
  with assms(2) show ?thesis by (simp add: distinct_card)
qed

section \<open>C strings\<close>

text \<open>
  \<open>strlen\<close> and \<open>strcmp\<close> read up to the NUL; without one they run past the buffer, which
  is undefined (\<open>None\<close>).
\<close>

definition c_string :: "char list \<Rightarrow> char list option" where
  "c_string buf = (if NUL \<in> set buf then Some (takeWhile (\<lambda>c. c \<noteq> NUL) buf) else None)"

definition strlen :: "char list \<Rightarrow> nat option" where
  "strlen buf = map_option length (c_string buf)"

text \<open>Only whether \<open>strcmp\<close> returns 0 is used by the sources.\<close>

definition strcmp_ne :: "char list \<Rightarrow> char list \<Rightarrow> bool option" where
  "strcmp_ne a b = do { s \<leftarrow> c_string a; t \<leftarrow> c_string b; Some (s \<noteq> t) }"

lemma takeWhile_nul: "NUL \<notin> set s \<Longrightarrow> takeWhile (\<lambda>c. c \<noteq> NUL) (s @ NUL # r) = s"
  by (induction s) auto

lemma c_string_append: "NUL \<notin> set s \<Longrightarrow> c_string (s @ NUL # r) = Some s"
  by (simp add: c_string_def takeWhile_nul)

lemma c_string_nul [simp]: "NUL \<notin> set s \<Longrightarrow> c_string (s @ [NUL]) = Some s"
  by (rule c_string_append)

lemma c_string_no_nul: "c_string buf = Some s \<Longrightarrow> NUL \<notin> set s"
  by (auto simp: c_string_def split: if_splits dest: set_takeWhileD)

lemma c_string_take:
  assumes "c_string buf = Some s"
  shows "take (Suc (length s)) buf = s @ [NUL]"
proof -
  have s: "s = takeWhile (\<lambda>c. c \<noteq> NUL) buf" and n: "NUL \<in> set buf"
    using assms by (auto simp: c_string_def split: if_splits)
  obtain xs ys where b: "buf = xs @ NUL # ys" and "NUL \<notin> set xs"
    using n by (meson split_list_first)
  then have "s = xs" by (simp add: s takeWhile_nul)
  with b show ?thesis by simp
qed

section \<open>Lists\<close>

lemma sum_list_map_remove1:
  "x \<in> set xs \<Longrightarrow> sum_list (map f xs) = f x + sum_list (map f (remove1 x xs :: 'b list))"
  for f :: "'b \<Rightarrow> nat"
  by (induction xs) auto

lemma distinct_map_notin: "distinct (map f (xs @ ys)) \<Longrightarrow> y \<in> set ys \<Longrightarrow> f y \<notin> f ` set xs"
  by (auto simp: image_iff)

lemma map_of_append_notin: "k \<notin> fst ` set ys \<Longrightarrow> map_of (ys @ zs) k = map_of zs k"
  by (induction ys) auto

section \<open>Decimal digits\<close>

definition is_digit :: "char \<Rightarrow> bool" where
  "is_digit c \<longleftrightarrow> 48 \<le> (of_char c :: nat) \<and> (of_char c :: nat) \<le> 57"

definition digits_value :: "char list \<Rightarrow> int" where
  "digits_value ds = foldl (\<lambda>n d. 10 * n + (of_char d - 48)) 0 ds"

end
