(* ===== verification/Replacement.thy ===== *)
theory Replacement
  imports Prelude
begin

text \<open>
  The interface of \<open>src/impl/replacement.h\<close>: what the cache relies on of a replacement
  policy.  A policy state \<open>p\<close> holds items \<open>(handle, identifier, size)\<close>, listed from the
  one to evict first to the one to evict last; the relation \<open>holds p xs\<close> says so.
\<close>

type_synonym user_id_t = ptr

type_synonym item = "addr \<times> user_id_t \<times> u32"

abbreviation handle :: "item \<Rightarrow> addr" where
  "handle x \<equiv> fst x"

abbreviation ident_of :: "item \<Rightarrow> user_id_t" where
  "ident_of x \<equiv> fst (snd x)"

abbreviation size_of :: "item \<Rightarrow> nat" where
  "size_of x \<equiv> unat (snd (snd x))"

text \<open>\<open>struct id_arr\<close>: the identifiers to delete and whether the value should be added.\<close>

record id_arr =
  data :: "user_id_t list"
  should_add :: bool

definition total :: "item list \<Rightarrow> nat" where
  "total xs = sum_list (map size_of xs)"

lemma total_simps [simp]:
  "total [] = 0" "total (x # xs) = size_of x + total xs" "total (xs @ ys) = total xs + total ys"
  by (simp_all add: total_def)

text \<open>
  How many items to drop from the front, given the sizes in eviction order, so that
  \<open>need\<close> more bytes fit into \<open>cap\<close>: the least such number.
\<close>

fun surplus :: "nat \<Rightarrow> nat \<Rightarrow> nat list \<Rightarrow> nat" where
  "surplus cap need [] = 0"
| "surplus cap need (n # ns) =
     (if sum_list (n # ns) + need > cap then Suc (surplus cap need ns) else 0)"

lemma surplus_le_length: "surplus cap need ns \<le> length ns"
  by (induction ns) auto

lemma surplus_room: "need \<le> cap \<Longrightarrow> sum_list (drop (surplus cap need ns) ns) + need \<le> cap"
  by (induction ns) auto

lemma surplus_least:
  "k < surplus cap need ns \<Longrightarrow> sum_list (drop k ns) + need > cap"
proof (induction ns arbitrary: k)
  case Nil
  then show ?case by simp
next
  case (Cons n ns)
  then show ?case by (cases k) (auto split: if_splits)
qed

lemma surplus_zero: "sum_list ns + need \<le> cap \<Longrightarrow> surplus cap need ns = 0"
  by (cases ns) auto

abbreviation sizes :: "item list \<Rightarrow> nat list" where
  "sizes xs \<equiv> map size_of xs"

text \<open>
  The contract.  \<open>create_info\<close> must not be asked to hold more than the capacity (the
  header's assertion); \<open>delete_info\<close> and \<open>info_gotten\<close> need a live handle.
\<close>

locale replacement_policy =
  fixes holds :: "'p \<Rightarrow> item list \<Rightarrow> bool"
    and capacity :: "'p \<Rightarrow> nat"
    and usage :: "'p \<Rightarrow> nat"
    and create_policy :: "u64 \<Rightarrow> 'p"
    and create_info :: "'p \<Rightarrow> user_id_t \<Rightarrow> u32 \<Rightarrow> (ptr \<times> 'p) option"
    and delete_info :: "'p \<Rightarrow> ptr \<Rightarrow> 'p option"
    and ids_to_delete_if_added :: "'p \<Rightarrow> u32 \<Rightarrow> id_arr option"
    and info_gotten :: "'p \<Rightarrow> ptr \<Rightarrow> 'p option"
    and delete_policy :: "'p \<Rightarrow> 'p option"
    and max_capacity :: nat
    and emptied :: "'p \<Rightarrow> bool"
  assumes holds_create_policy:
      "unat m \<le> max_capacity \<Longrightarrow> holds (create_policy m) [] \<and> capacity (create_policy m) = unat m"
    and holds_distinct: "holds p xs \<Longrightarrow> distinct (map handle xs)"
    and holds_usage: "holds p xs \<Longrightarrow> usage p = total xs"
    and holds_within: "holds p xs \<Longrightarrow> total xs \<le> capacity p"
    and holds_create_info:
      "holds p xs \<Longrightarrow> total xs + unat sz \<le> capacity p \<Longrightarrow>
       \<exists>a p'. create_info p i sz = Some (Some a, p') \<and> holds p' (xs @ [(a, i, sz)]) \<and>
         capacity p' = capacity p"
    and holds_delete_info:
      "holds p (xs @ x # ys) \<Longrightarrow>
       \<exists>p'. delete_info p (Some (handle x)) = Some p' \<and> holds p' (xs @ ys) \<and>
         capacity p' = capacity p"
    and holds_ids:
      "holds p xs \<Longrightarrow> length xs < 2 ^ 64 \<Longrightarrow> ids_to_delete_if_added p sz =
         Some (if unat sz > capacity p then \<lparr>data = [], should_add = False\<rparr>
               else \<lparr>data = map ident_of (take (surplus (capacity p) (unat sz) (sizes xs)) xs),
                     should_add = True\<rparr>)"
    and holds_info_gotten:
      "holds p (xs @ x # ys) \<Longrightarrow>
       \<exists>p'. info_gotten p (Some (handle x)) = Some p' \<and> holds p' (xs @ ys @ [x]) \<and>
         capacity p' = capacity p"
    and holds_delete_policy: "holds p xs \<Longrightarrow> \<exists>p'. delete_policy p = Some p' \<and> emptied p'"
begin

text \<open>
  Deleting, one by one, the items the policy names makes room for the new one: after it
  the assertion of \<open>create_info\<close> holds and the new item is the last to be evicted.
\<close>

fun delete_handles :: "'p \<Rightarrow> addr list \<Rightarrow> 'p option" where
  "delete_handles p [] = Some p"
| "delete_handles p (a # as) = do { p' \<leftarrow> delete_info p (Some a); delete_handles p' as }"

lemma holds_delete_handles:
  "holds p (xs @ ys) \<Longrightarrow>
   \<exists>p'. delete_handles p (map handle xs) = Some p' \<and> holds p' ys \<and> capacity p' = capacity p"
proof (induction xs arbitrary: p)
  case Nil
  then show ?case by simp
next
  case (Cons x xs)
  then obtain p1 where "delete_info p (Some (handle x)) = Some p1" "holds p1 (xs @ ys)"
      "capacity p1 = capacity p"
    using holds_delete_info [of p "[]" x "xs @ ys"] by auto
  with Cons.IH [of p1] show ?case by auto
qed

lemma evict_then_create:
  assumes "holds p xs" and "unat sz \<le> capacity p"
  defines "k \<equiv> surplus (capacity p) (unat sz) (sizes xs)"
  shows "\<exists>p1 a p2. delete_handles p (map handle (take k xs)) = Some p1 \<and>
    create_info p1 i sz = Some (Some a, p2) \<and> holds p2 (drop k xs @ [(a, i, sz)])"
proof -
  obtain p1 where p1: "delete_handles p (map handle (take k xs)) = Some p1"
      "holds p1 (drop k xs)" "capacity p1 = capacity p"
    using holds_delete_handles [of p "take k xs" "drop k xs"] assms(1) by auto
  then have "total (drop k xs) + unat sz \<le> capacity p1"
    using surplus_room [OF assms(2), of "sizes xs"] by (simp add: k_def total_def drop_map)
  with p1 show ?thesis
    using holds_create_info [of p1 "drop k xs" sz i] by blast
qed

lemma capacity_never_exceeded: "holds p xs \<Longrightarrow> usage p \<le> capacity p"
  using holds_usage [of p xs] holds_within [of p xs] by simp

end

end
