(* ===== verification/Lru.thy ===== *)
theory Lru
  imports Replacement
begin

text \<open>
  The least-recently-used policy of \<open>src/impl/lru_replacement.c\<close>: a doubly linked list on
  the heap, the least recently used item at the bottom, the most recently used at the top.
  The policy object is passed by value, together with the heap of the \<open>pinfo_obj\<close> it
  allocates.  At the end the policy is shown to satisfy \<open>replacement_policy\<close>.
\<close>

named_theorems policy_frames \<open>what an operation of the list leaves unchanged\<close>

section \<open>State\<close>

record pinfo_obj =
  low :: ptr
  high :: ptr
  ident :: user_id_t
  info_size :: u32

record policy_obj =
  policy_maxmem :: u64
  used_mem :: u64
  top :: ptr
  bottom :: ptr
  infos :: "pinfo_obj heap"

section \<open>Operations\<close>

definition is_empty :: "policy_obj \<Rightarrow> bool" where
  "is_empty policy \<longleftrightarrow> bottom policy = NULL"

definition create_policy :: "u64 \<Rightarrow> policy_obj" where
  "create_policy maxmem =
     \<lparr>policy_maxmem = maxmem, used_mem = 0, top = NULL, bottom = NULL, infos = empty_heap\<rparr>"

text \<open>\<open>while (obj != NULL) { next = obj->high; free(obj); obj = next; }\<close>, with fuel.\<close>

fun delete_infos :: "nat \<Rightarrow> pinfo_obj heap \<Rightarrow> ptr \<Rightarrow> pinfo_obj heap option" where
  "delete_infos 0 h obj = None"
| "delete_infos (Suc fuel) h obj =
     (if obj = NULL then Some h
      else do {
        c \<leftarrow> load h obj;
        let next_obj = high c;
        h \<leftarrow> release h obj;
        delete_infos fuel h next_obj
      })"

definition delete_policy :: "policy_obj \<Rightarrow> policy_obj option" where
  "delete_policy policy = do {
     h \<leftarrow> delete_infos (Suc (brk (infos policy))) (infos policy) (bottom policy);
     Some (policy\<lparr>infos := h\<rparr>)
   }"

text \<open>\<open>info->field = v\<close> inside the policy's heap.\<close>

definition set_info :: "policy_obj \<Rightarrow> ptr \<Rightarrow> (pinfo_obj \<Rightarrow> pinfo_obj) \<Rightarrow> policy_obj option" where
  "set_info policy p f = do { h \<leftarrow> modify (infos policy) p f; Some (policy\<lparr>infos := h\<rparr>) }"

definition move_info_to_head :: "policy_obj \<Rightarrow> ptr \<Rightarrow> policy_obj option" where
  "move_info_to_head policy info = do {
     let old_head = top policy;
     policy \<leftarrow> (if old_head \<noteq> NULL then set_info policy old_head (\<lambda>o'. o'\<lparr>high := info\<rparr>)
               else Some policy);
     policy \<leftarrow> set_info policy info (\<lambda>i. i\<lparr>low := old_head\<rparr>);
     policy \<leftarrow> set_info policy info (\<lambda>i. i\<lparr>high := NULL\<rparr>);
     let policy = policy\<lparr>top := info\<rparr>;
     Some (if bottom policy = NULL then policy\<lparr>bottom := info\<rparr> else policy)
   }"

definition remove_info_from_list :: "policy_obj \<Rightarrow> ptr \<Rightarrow> policy_obj option" where
  "remove_info_from_list policy info = do {
     i \<leftarrow> load (infos policy) info;
     policy \<leftarrow> (if high i \<noteq> NULL then set_info policy (high i) (\<lambda>o'. o'\<lparr>low := low i\<rparr>)
               else Some policy);
     i \<leftarrow> load (infos policy) info;
     policy \<leftarrow> (if low i \<noteq> NULL then set_info policy (low i) (\<lambda>o'. o'\<lparr>high := high i\<rparr>)
               else Some policy);
     i \<leftarrow> load (infos policy) info;
     let policy = (if top policy = info then policy\<lparr>top := low i\<rparr> else policy);
     Some (if bottom policy = info then policy\<lparr>bottom := high i\<rparr> else policy)
   }"

definition create_info :: "policy_obj \<Rightarrow> user_id_t \<Rightarrow> u32 \<Rightarrow> (ptr \<times> policy_obj) option" where
  "create_info policy uid val_size =
     (if policy_maxmem policy < used_mem policy + ucast val_size then None
      else do {
        let (newinf, h) =
          alloc (infos policy) \<lparr>low = NULL, high = NULL, ident = uid, info_size = val_size\<rparr>;
        policy \<leftarrow> move_info_to_head (policy\<lparr>infos := h\<rparr>) newinf;
        Some (newinf, policy\<lparr>used_mem := used_mem policy + ucast val_size\<rparr>)
      })"

definition delete_info :: "policy_obj \<Rightarrow> ptr \<Rightarrow> policy_obj option" where
  "delete_info policy info = do {
     policy \<leftarrow> remove_info_from_list policy info;
     i \<leftarrow> load (infos policy) info;
     let policy = policy\<lparr>used_mem := used_mem policy - ucast (info_size i)\<rparr>;
     h \<leftarrow> release (infos policy) info;
     Some (policy\<lparr>infos := h\<rparr>)
   }"

text \<open>The counting loop of \<open>num_to_delete\<close>, with its three local variables and fuel.\<close>

fun num_to_delete_loop ::
    "nat \<Rightarrow> policy_obj \<Rightarrow> u64 \<Rightarrow> ptr \<Rightarrow> u64 \<Rightarrow> (u64 \<times> ptr) option" where
  "num_to_delete_loop 0 policy tot_mem cur_t num_del_ids = None"
| "num_to_delete_loop (Suc fuel) policy tot_mem cur_t num_del_ids =
     (if tot_mem > policy_maxmem policy \<and> cur_t \<noteq> NULL
      then do {
        c \<leftarrow> load (infos policy) cur_t;
        num_to_delete_loop fuel policy (tot_mem - ucast (info_size c)) (high c) (num_del_ids + 1)
      }
      else Some (num_del_ids, cur_t))"

definition num_to_delete :: "policy_obj \<Rightarrow> u32 \<Rightarrow> (u64 \<times> ptr) option" where
  "num_to_delete policy val_size =
     num_to_delete_loop (Suc (brk (infos policy))) policy
       (used_mem policy + ucast val_size) (bottom policy) 0"

fun make_item_array :: "nat \<Rightarrow> pinfo_obj heap \<Rightarrow> ptr \<Rightarrow> user_id_t list option" where
  "make_item_array 0 h cur_i = Some []"
| "make_item_array (Suc num_items) h cur_i = do {
     c \<leftarrow> load h cur_i;
     arr \<leftarrow> make_item_array num_items h (high c);
     Some (ident c # arr)
   }"

definition ids_to_delete_if_added :: "policy_obj \<Rightarrow> u32 \<Rightarrow> id_arr option" where
  "ids_to_delete_if_added policy val_size = do {
     (num_del_ids, final_item) \<leftarrow> num_to_delete policy val_size;
     if ucast val_size > policy_maxmem policy then Some \<lparr>data = [], should_add = False\<rparr>
     else if num_del_ids = 0 then Some \<lparr>data = [], should_add = True\<rparr>
     else do {
       id_arr \<leftarrow> make_item_array (unat num_del_ids) (infos policy) (bottom policy);
       Some \<lparr>data = id_arr, should_add = True\<rparr>
     }
   }"

definition info_gotten :: "policy_obj \<Rightarrow> ptr \<Rightarrow> policy_obj option" where
  "info_gotten policy info = do {
     policy \<leftarrow> remove_info_from_list policy info;
     move_info_to_head policy info
   }"

section \<open>The doubly linked list\<close>

text \<open>
  \<open>dll m lo xs hi\<close>: the items \<open>xs\<close> are linked in the heap \<open>m\<close>, the first one's \<open>low\<close> is
  \<open>lo\<close> and the last one's \<open>high\<close> is \<open>hi\<close>.
\<close>

definition first_ptr :: "item list \<Rightarrow> ptr \<Rightarrow> ptr" where
  "first_ptr xs hi = (case xs of [] \<Rightarrow> hi | x # _ \<Rightarrow> Some (handle x))"

definition last_ptr :: "item list \<Rightarrow> ptr \<Rightarrow> ptr" where
  "last_ptr xs lo = (if xs = [] then lo else Some (handle (last xs)))"

fun dll :: "(addr \<rightharpoonup> pinfo_obj) \<Rightarrow> ptr \<Rightarrow> item list \<Rightarrow> ptr \<Rightarrow> bool" where
  "dll m lo [] hi = True"
| "dll m lo ((a, i, s) # xs) hi =
     (m a = Some \<lparr>low = lo, high = first_ptr xs hi, ident = i, info_size = s\<rparr> \<and>
      dll m (Some a) xs hi)"

lemma first_ptr_simps [simp]:
  "first_ptr [] hi = hi" "first_ptr (x # xs) hi = Some (handle x)"
  "first_ptr (xs @ ys) hi = first_ptr xs (first_ptr ys hi)"
  by (auto simp: first_ptr_def split: list.splits)

lemma last_ptr_simps [simp]:
  "last_ptr [] lo = lo" "last_ptr (x # xs) lo = last_ptr xs (Some (handle x))"
  "last_ptr (xs @ ys) lo = last_ptr ys (last_ptr xs lo)"
  by (auto simp: last_ptr_def)

lemma dll_append [simp]:
  "dll m lo (xs @ ys) hi \<longleftrightarrow> dll m lo xs (first_ptr ys hi) \<and> dll m (last_ptr xs lo) ys hi"
  by (induction m lo xs hi rule: dll.induct) auto

lemma dll_frame [simp]:
  "a \<notin> handle ` set xs \<Longrightarrow> dll (m(a := c)) lo xs hi = dll m lo xs hi"
  by (induction xs arbitrary: lo) auto

lemma dll_cell:
  "dll m lo (xs @ x # ys) hi \<Longrightarrow> m (handle x) =
     Some \<lparr>low = last_ptr xs lo, high = first_ptr ys hi, ident = ident_of x,
       info_size = snd (snd x)\<rparr>"
  by (cases x) simp

lemma dll_dom: "dll m lo xs hi \<Longrightarrow> handle ` set xs \<subseteq> dom m"
  by (induction m lo xs hi rule: dll.induct) auto

text \<open>Relinking the end, respectively the beginning, of a list.\<close>

lemma dll_set_high:
  assumes "dll m lo (xs @ [x]) hi" and "distinct (map handle (xs @ [x]))"
    and "m (handle x) = Some c"
  shows "dll (m(handle x \<mapsto> c\<lparr>high := hi'\<rparr>)) lo (xs @ [x]) hi'"
  using assms by (cases x) (auto simp: image_iff)

lemma dll_set_low:
  assumes "dll m lo (x # xs) hi" and "distinct (map handle (x # xs))"
    and "m (handle x) = Some c"
  shows "dll (m(handle x \<mapsto> c\<lparr>low := lo'\<rparr>)) lo' (x # xs) hi"
  using assms by (cases x) (auto simp: image_iff)

text \<open>The list part of the policy's invariant, without the memory accounting.\<close>

definition linked :: "policy_obj \<Rightarrow> item list \<Rightarrow> bool" where
  "linked policy xs \<longleftrightarrow> distinct (map handle xs) \<and> dll (cells (infos policy)) NULL xs NULL \<and>
     bottom policy = first_ptr xs NULL \<and> top policy = last_ptr xs NULL"

text \<open>What the list operations never touch.\<close>

definition same_accounts :: "policy_obj \<Rightarrow> policy_obj \<Rightarrow> bool" where
  "same_accounts p q \<longleftrightarrow> policy_maxmem q = policy_maxmem p \<and> used_mem q = used_mem p \<and>
     brk (infos q) = brk (infos p) \<and> dom (cells (infos q)) = dom (cells (infos p))"

lemma same_accounts_heap_ok: "same_accounts p q \<Longrightarrow> heap_ok (infos q) = heap_ok (infos p)"
  by (simp add: same_accounts_def heap_ok_def)

lemma set_info_cell [heap_intros]:
  "cells (infos p) a = Some c \<Longrightarrow>
   set_info p (Some a) f = Some (p\<lparr>infos := (infos p)\<lparr>cells := (cells (infos p))(a \<mapsto> f c)\<rparr>\<rparr>)"
  by (simp add: set_info_def modify_alloc)


lemma move_info_to_head_linked:
  assumes l: "linked p xs" and fresh: "a \<notin> handle ` set xs"
    and c: "cells (infos p) a = Some c"
  shows "\<exists>q. move_info_to_head p (Some a) = Some q \<and> linked q (xs @ [(a, ident c, info_size c)]) \<and>
    same_accounts p q"
proof (cases xs rule: rev_cases)
  case Nil
  with assms show ?thesis
    by (cases c) (auto simp: move_info_to_head_def linked_def same_accounts_def set_info_cell)
next
  case (snoc ys x)
  obtain b i s where x: "x = (b, i, s)" by (cases x)
  from l snoc x have d: "distinct (map handle ys)" "b \<notin> handle ` set ys"
    and dl: "dll (cells (infos p)) NULL ys (Some b)"
    and cb: "cells (infos p) b =
      Some \<lparr>low = last_ptr ys NULL, high = NULL, ident = i, info_size = s\<rparr>"
    and tb: "top p = Some b" "bottom p = first_ptr ys (Some b)"
    by (auto simp: linked_def)
  have ab: "a \<noteq> b" "a \<notin> handle ` set ys" using fresh snoc x by auto
  have bot: "bottom p \<noteq> NULL" using tb(2) by (cases ys) auto
  from ab d dl cb tb c bot snoc x show ?thesis
    by (auto simp: move_info_to_head_def linked_def same_accounts_def set_info_cell)
qed


lemma remove_info_from_list_linked:
  assumes l: "linked p (xs @ x # ys)"
  shows "\<exists>q. remove_info_from_list p (Some (handle x)) = Some q \<and> linked q (xs @ ys) \<and>
    same_accounts p q \<and> cells (infos q) (handle x) = cells (infos p) (handle x)"
proof -
  obtain a i s where x: "x = (a, i, s)" by (cases x)
  have a: "a \<notin> handle ` set xs" "a \<notin> handle ` set ys"
    and d: "distinct (map handle xs)" "distinct (map handle ys)"
      "handle ` set xs \<inter> handle ` set ys = {}"
    and dx: "dll (cells (infos p)) NULL xs (Some a)"
    and dy: "dll (cells (infos p)) (Some a) ys NULL"
    and ca: "cells (infos p) a = Some
      \<lparr>low = last_ptr xs NULL, high = first_ptr ys NULL, ident = i, info_size = s\<rparr>"
    and tb: "bottom p = first_ptr xs (Some a)" "top p = last_ptr ys (Some a)"
    using l x by (auto simp: linked_def)
  show ?thesis
  proof (cases xs rule: rev_cases; cases ys)
    assume "xs = []" "ys = []"
    with x ca tb show ?thesis
      by (auto simp: remove_info_from_list_def linked_def same_accounts_def set_info_cell)
  next
    fix y ys' assume e: "xs = []" "ys = y # ys'"
    obtain b j t where y: "y = (b, j, t)" by (cases y)
    have "top p \<noteq> Some a" using tb(2) a(2) e by (auto simp: last_ptr_def)
    with e y x a d dy ca tb show ?thesis
      by (auto simp: remove_info_from_list_def linked_def same_accounts_def set_info_cell)
  next
    fix xs' z assume e: "xs = xs' @ [z]" "ys = []"
    obtain b j t where z: "z = (b, j, t)" by (cases z)
    have "bottom p \<noteq> Some a" using tb(1) a(1) e by (cases xs') auto
    with e z x a d dx ca tb show ?thesis
      by (auto simp: remove_info_from_list_def linked_def same_accounts_def set_info_cell)
  next
    fix xs' z y ys' assume e: "xs = xs' @ [z]" "ys = y # ys'"
    obtain b j t where z: "z = (b, j, t)" by (cases z)
    obtain b' j' t' where y: "y = (b', j', t')" by (cases y)
    have "bottom p \<noteq> Some a" using tb(1) a(1) e by (cases xs') auto
    moreover have "top p \<noteq> Some a" using tb(2) a(2) e by (auto simp: last_ptr_def)
    ultimately show ?thesis using e z y x a d dx dy ca tb
      by (auto simp: remove_info_from_list_def linked_def same_accounts_def set_info_cell)
  qed
qed


section \<open>The policy's invariant and its operations\<close>

text \<open>
  The largest capacity for which \<open>used_mem + val_size\<close> cannot wrap around: beyond it the
  guard of \<open>num_to_delete\<close> and the assertion of \<open>create_info\<close> compare a wrapped sum.
\<close>

definition max_capacity :: nat where
  "max_capacity = 2 ^ 64 - 2 ^ 32"

definition lru :: "policy_obj \<Rightarrow> item list \<Rightarrow> bool" where
  "lru p xs \<longleftrightarrow> linked p xs \<and> dom (cells (infos p)) = handle ` set xs \<and> heap_ok (infos p) \<and>
     unat (used_mem p) = total xs \<and> total xs \<le> unat (policy_maxmem p) \<and>
     unat (policy_maxmem p) \<le> max_capacity"

lemma lru_cell:
  assumes "lru p (xs @ x # ys)"
  shows "cells (infos p) (handle x) = Some \<lparr>low = last_ptr xs NULL, high = first_ptr ys NULL,
    ident = ident_of x, info_size = snd (snd x)\<rparr>"
  using assms by (cases x) (auto simp: lru_def linked_def)

lemma unat_u32_less: "unat (s :: u32) < 2 ^ 32"
proof -
  have "unat s < 2 ^ LENGTH(32)" by (rule unsigned_less)
  then show ?thesis by simp
qed

lemma unat_ucast_u32 [simp]: "unat (ucast (s :: u32) :: u64) = unat s"
  using unat_u32_less [of s] by (simp add: unsigned_ucast_eq take_bit_nat_eq_self)

lemma unat_add_size:
  assumes "unat (u :: u64) \<le> max_capacity"
  shows "unat (u + ucast (s :: u32)) = unat u + unat s"
  using assms unat_u32_less [of s]
  by (subst unat_add_lem [THEN iffD1]) (auto simp: max_capacity_def)

lemma unat_sub_size:
  "unat (s :: u32) \<le> unat (u :: u64) \<Longrightarrow> unat (u - ucast s) = unat u - unat s"
  by (subst unat_sub) (auto simp: word_le_nat_alt)

lemma lru_create_policy: "unat m \<le> max_capacity \<Longrightarrow> lru (create_policy m) []"
  by (simp add: lru_def create_policy_def linked_def)

lemma lru_create_info:
  assumes l: "lru p xs" and room: "total xs + unat sz \<le> unat (policy_maxmem p)"
  shows "\<exists>q. create_info p i sz = Some (Some (brk (infos p)), q) \<and>
    lru q (xs @ [(brk (infos p), i, sz)]) \<and> policy_maxmem q = policy_maxmem p"
proof -
  let ?a = "brk (infos p)"
  let ?c = "\<lparr>low = NULL, high = NULL, ident = i, info_size = sz\<rparr>"
  define p1 where "p1 = p\<lparr>infos := (infos p)\<lparr>cells := (cells (infos p))(?a \<mapsto> ?c), brk := Suc ?a\<rparr>\<rparr>"
  have used: "unat (used_mem p) = total xs" and dom: "dom (cells (infos p)) = handle ` set xs"
    and ok: "heap_ok (infos p)" and cap: "unat (policy_maxmem p) \<le> max_capacity"
    and lk: "linked p xs" using l by (auto simp: lru_def)
  have fresh: "?a \<notin> handle ` set xs"
    using heap_ok_fresh [OF ok] dom by (metis domIff)
  have sum: "unat (used_mem p + ucast sz) = total xs + unat sz"
    using used room cap by (simp add: unat_add_size)
  have "linked p1 xs" using lk fresh by (simp add: linked_def p1_def)
  moreover have "cells (infos p1) ?a = Some ?c" by (simp add: p1_def)
  ultimately obtain q where q: "move_info_to_head p1 (Some ?a) = Some q"
      "linked q (xs @ [(?a, i, sz)])" "same_accounts p1 q"
    using move_info_to_head_linked [of p1 xs ?a ?c] fresh by auto
  have "\<not> policy_maxmem p < used_mem p + ucast sz"
    using room sum by (simp add: word_less_nat_alt)
  then have "create_info p i sz = Some (Some ?a, q\<lparr>used_mem := used_mem q + ucast sz\<rparr>)"
    using q(1) by (simp add: create_info_def alloc_def p1_def)
  moreover have "lru (q\<lparr>used_mem := used_mem q + ucast sz\<rparr>) (xs @ [(?a, i, sz)])"
    using q(2,3) dom heap_ok_alloc [OF ok, of ?c] sum room cap same_accounts_heap_ok [OF q(3)]
    by (auto simp: lru_def linked_def same_accounts_def p1_def)
  ultimately show ?thesis using q(3) by (auto simp: same_accounts_def p1_def)
qed

lemma lru_delete_info:
  assumes l: "lru p (xs @ x # ys)"
  shows "\<exists>q. delete_info p (Some (handle x)) = Some q \<and> lru q (xs @ ys) \<and>
    policy_maxmem q = policy_maxmem p"
proof -
  let ?a = "handle x"
  obtain q where q: "remove_info_from_list p (Some ?a) = Some q" "linked q (xs @ ys)"
      "same_accounts p q" "cells (infos q) ?a = cells (infos p) ?a"
    using remove_info_from_list_linked [of p xs x ys] l by (auto simp: lru_def)
  define r where "r = q\<lparr>used_mem := used_mem q - ucast (snd (snd x)),
    infos := (infos q)\<lparr>cells := (cells (infos q))(?a := None)\<rparr>\<rparr>"
  have c: "cells (infos q) ?a = Some \<lparr>low = last_ptr xs NULL, high = first_ptr ys NULL,
      ident = ident_of x, info_size = snd (snd x)\<rparr>"
    using q(4) lru_cell [OF l] by simp
  have used: "unat (used_mem q) = total (xs @ x # ys)"
    using l q(3) by (simp add: lru_def same_accounts_def)
  have notin: "?a \<notin> handle ` set xs" "?a \<notin> handle ` set ys"
    using l by (auto simp: lru_def linked_def)
  have "delete_info p (Some ?a) = Some r"
    using q(1) c by (simp add: delete_info_def release_alloc r_def)
  moreover have "linked r (xs @ ys)" using q(2) notin by (simp add: linked_def r_def)
  moreover have "dom (cells (infos r)) = handle ` set (xs @ ys)"
    using l q(3) notin by (simp add: lru_def same_accounts_def r_def image_Un)
  moreover have "heap_ok (infos r)"
    using l same_accounts_heap_ok [OF q(3)] by (simp add: lru_def r_def heap_ok_del)
  moreover have "unat (used_mem r) = total (xs @ ys)"
    using used by (simp add: r_def unat_sub_size)
  ultimately show ?thesis using l q(3)
    by (intro exI [of _ r]) (auto simp: lru_def r_def same_accounts_def)
qed

lemma lru_info_gotten:
  assumes l: "lru p (xs @ x # ys)"
  shows "\<exists>q. info_gotten p (Some (handle x)) = Some q \<and> lru q (xs @ ys @ [x]) \<and>
    policy_maxmem q = policy_maxmem p"
proof -
  let ?a = "handle x"
  obtain q where q: "remove_info_from_list p (Some ?a) = Some q" "linked q (xs @ ys)"
      "same_accounts p q" "cells (infos q) ?a = cells (infos p) ?a"
    using remove_info_from_list_linked [of p xs x ys] l by (auto simp: lru_def)
  have notin: "?a \<notin> handle ` set (xs @ ys)" using l by (auto simp: lru_def linked_def)
  obtain r where r: "move_info_to_head q (Some ?a) = Some r" "linked r ((xs @ ys) @ [x])"
      "same_accounts q r"
    using move_info_to_head_linked [OF q(2) notin] q(4) lru_cell [OF l] by auto
  have "dom (cells (infos r)) = handle ` set (xs @ ys @ [x])"
    using l q(3) r(3) by (auto simp: lru_def same_accounts_def)
  then show ?thesis using l q r same_accounts_heap_ok [OF q(3)] same_accounts_heap_ok [OF r(3)]
    by (intro exI [of _ r]) (auto simp: lru_def info_gotten_def same_accounts_def)
qed


section \<open>Which items to delete\<close>

lemma num_to_delete_loop_eq:
  assumes "dll (cells (infos p)) lo xs NULL" and "length xs < fuel"
    and "unat tot = total xs + need"
  shows "num_to_delete_loop fuel p tot (first_ptr xs NULL) n =
    Some (n + of_nat (surplus (unat (policy_maxmem p)) need (sizes xs)),
      first_ptr (drop (surplus (unat (policy_maxmem p)) need (sizes xs)) xs) NULL)"
  using assms
proof (induction xs arbitrary: fuel lo tot n)
  case Nil
  then show ?case by (cases fuel) auto
next
  case (Cons x xs)
  obtain a i s where x: "x = (a, i, s)" by (cases x)
  obtain fuel' where fuel: "fuel = Suc fuel'" using Cons.prems(2) by (cases fuel) auto
  have c: "cells (infos p) a =
      Some \<lparr>low = lo, high = first_ptr xs NULL, ident = i, info_size = s\<rparr>"
    and d: "dll (cells (infos p)) (Some a) xs NULL"
    using Cons.prems(1) x by auto
  have gt: "tot > policy_maxmem p \<longleftrightarrow> sum_list (sizes (x # xs)) + need > unat (policy_maxmem p)"
    using Cons.prems(3) by (simp add: word_less_nat_alt total_def)
  have sub: "unat (tot - ucast s) = total xs + need"
    using Cons.prems(3) x by (subst unat_sub_size) auto
  show ?case
  proof (cases "tot > policy_maxmem p")
    case True
    with gt x fuel c Cons.IH [OF d _ sub, of fuel' "n + 1"] Cons.prems(2) show ?thesis
      by (simp add: add.assoc)
  next
    case False
    with gt x fuel show ?thesis by simp
  qed
qed

lemma lru_length: "lru p xs \<Longrightarrow> length xs \<le> brk (infos p)"
  using heap_ok_length [of "infos p" "map handle xs"] by (auto simp: lru_def linked_def)

lemma lru_num_to_delete:
  fixes sz :: u32
  assumes l: "lru p xs"
  defines "k \<equiv> surplus (unat (policy_maxmem p)) (unat sz) (sizes xs)"
  shows "num_to_delete p sz = Some (of_nat k, first_ptr (drop k xs) NULL)"
proof -
  have d: "dll (cells (infos p)) NULL xs NULL" and b: "bottom p = first_ptr xs NULL"
    using l by (auto simp: lru_def linked_def)
  have u: "unat (used_mem p + ucast sz) = total xs + unat sz"
    using l by (simp add: lru_def unat_add_size)
  show ?thesis
    using num_to_delete_loop_eq [OF d _ u, of "Suc (brk (infos p))" 0] lru_length [OF l]
    by (simp add: num_to_delete_def b k_def)
qed

lemma make_item_array_eq:
  "dll (cells h) lo xs hi \<Longrightarrow>
   make_item_array (length xs) h (first_ptr xs hi) = Some (map ident_of xs)"
proof (induction xs arbitrary: lo)
  case Nil
  then show ?case by simp
next
  case (Cons x xs)
  obtain a i s where "x = (a, i, s)" by (cases x)
  with Cons.prems Cons.IH [of "Some a"] show ?case by simp
qed

text \<open>
  The count is kept in a \<open>size_t\<close>: the list is shorter than \<open>2 ^ 64\<close>, as each of its
  objects has an address of its own.
\<close>

lemma lru_ids:
  assumes l: "lru p xs" and short: "length xs < 2 ^ 64"
  shows "ids_to_delete_if_added p sz =
    Some (if unat sz > unat (policy_maxmem p) then \<lparr>data = [], should_add = False\<rparr>
          else \<lparr>data = map ident_of (take (surplus (unat (policy_maxmem p)) (unat sz) (sizes xs)) xs),
                should_add = True\<rparr>)"
proof -
  define k where "k = surplus (unat (policy_maxmem p)) (unat sz) (sizes xs)"
  have kl: "k \<le> length xs" using surplus_le_length [of _ _ "sizes xs"] by (simp add: k_def)
  then have uk: "unat (of_nat k :: u64) = k"
    using short by (simp add: unat_of_nat take_bit_nat_eq_self)
  have zero: "(of_nat k :: u64) = 0 \<longleftrightarrow> k = 0"
    using uk by (metis unat_0 unat_eq_zero of_nat_0)
  have gt: "ucast sz > policy_maxmem p \<longleftrightarrow> unat sz > unat (policy_maxmem p)"
    by (simp add: word_less_nat_alt)
  have "dll (cells (infos p)) NULL (take k xs @ drop k xs) NULL"
    and b: "bottom p = first_ptr (take k xs) (first_ptr (drop k xs) NULL)"
    using l by (simp_all add: lru_def linked_def first_ptr_simps(3) [symmetric]
        del: dll_append first_ptr_simps(3))
  then have "dll (cells (infos p)) NULL (take k xs) (first_ptr (drop k xs) NULL)"
    by (simp only: dll_append)
  then have "make_item_array k (infos p) (bottom p) = Some (map ident_of (take k xs))"
    using make_item_array_eq [of "infos p" NULL "take k xs"] kl b by (simp add: min_absorb2)
  then show ?thesis
    using lru_num_to_delete [OF l, of sz] uk zero gt
    by (simp add: ids_to_delete_if_added_def k_def [symmetric])
qed

lemma delete_infos_eq:
  assumes "dll (cells h) lo xs NULL" and "distinct (map handle xs)" and "length xs < fuel"
  shows "delete_infos fuel h (first_ptr xs NULL) =
    Some (h\<lparr>cells := (\<lambda>b. if b \<in> handle ` set xs then None else cells h b)\<rparr>)"
  using assms
proof (induction xs arbitrary: fuel lo h)
  case Nil
  then show ?case by (cases fuel) auto
next
  case (Cons x xs)
  obtain a i s where x: "x = (a, i, s)" by (cases x)
  obtain fuel' where fuel: "fuel = Suc fuel'" using Cons.prems(3) by (cases fuel) auto
  let ?h = "h\<lparr>cells := (cells h)(a := None)\<rparr>"
  have c: "cells h a = Some \<lparr>low = lo, high = first_ptr xs NULL, ident = i, info_size = s\<rparr>"
    and d: "dll (cells ?h) (Some a) xs NULL"
    using Cons.prems(1,2) x by auto
  have "?h\<lparr>cells := (\<lambda>b. if b \<in> handle ` set xs then None else cells ?h b)\<rparr> =
      h\<lparr>cells := (\<lambda>b. if b \<in> handle ` set (x # xs) then None else cells h b)\<rparr>"
    by (auto simp: fun_eq_iff x intro!: arg_cong [where f = "\<lambda>f. h\<lparr>cells := f\<rparr>"])
  with Cons.IH [OF d, of fuel'] Cons.prems x fuel c show ?case
    by (simp add: release_alloc)
qed

lemma lru_delete_policy:
  assumes l: "lru p xs"
  shows "\<exists>q. delete_policy p = Some q \<and> cells (infos q) = Map.empty"
proof -
  have d: "dll (cells (infos p)) NULL xs NULL" "distinct (map handle xs)"
    and b: "bottom p = first_ptr xs NULL" and dom: "dom (cells (infos p)) = handle ` set xs"
    using l by (auto simp: lru_def linked_def)
  have "(\<lambda>b. if b \<in> handle ` set xs then None else cells (infos p) b) = Map.empty"
    unfolding dom [symmetric] by (auto simp: fun_eq_iff)
  then show ?thesis
    using delete_infos_eq [OF d, of "Suc (brk (infos p))"] lru_length [OF l]
    by (simp add: delete_policy_def b)
qed

lemma is_empty_lru: "lru p xs \<Longrightarrow> is_empty p \<longleftrightarrow> xs = []"
  by (cases xs) (auto simp: is_empty_def lru_def linked_def)


section \<open>The policy satisfies the interface\<close>

interpretation lru_policy: replacement_policy
  where holds = lru
    and capacity = "\<lambda>p. unat (policy_maxmem p)"
    and usage = "\<lambda>p. unat (used_mem p)"
    and create_policy = create_policy
    and create_info = create_info
    and delete_info = delete_info
    and ids_to_delete_if_added = ids_to_delete_if_added
    and info_gotten = info_gotten
    and delete_policy = delete_policy
    and max_capacity = max_capacity
    and emptied = "\<lambda>p. cells (infos p) = Map.empty"
proof (unfold_locales, goal_cases)
  case (1 m)
  then show ?case by (simp add: lru_create_policy) (simp add: create_policy_def)
next
  case (2 p xs)
  then show ?case by (simp add: lru_def linked_def)
next
  case (3 p xs)
  then show ?case by (simp add: lru_def)
next
  case (4 p xs)
  then show ?case by (simp add: lru_def)
next
  case (5 p xs sz i)
  then show ?case using lru_create_info [of p xs sz i] by auto
next
  case (6 p xs x ys)
  show ?case using lru_delete_info [OF 6] by auto
next
  case (7 p xs sz)
  then show ?case using lru_ids [of p xs sz] by simp
next
  case (8 p xs x ys)
  show ?case using lru_info_gotten [OF 8] by auto
next
  case (9 p xs)
  show ?case using lru_delete_policy [OF 9] by auto
qed

end
