(* ===== verification/Hash_Cache.thy ===== *)
theory Hash_Cache
  imports Lru
begin

unbundle bit_operations_syntax

text \<open>
  The hash table with chaining of \<open>src/impl/hash_cache.c\<close> (and \<open>helper.c\<close>), as code only;
  its invariant and its correctness are in \<open>Hash_Cache_Chains\<close> and \<open>Hash_Cache_Correct\<close>.

  The cache object is passed by value together with the heaps it allocates in: the links of
  the chains and the buffers that hold the copies of keys and values.  A \<open>link_t *\<close>, a
  pointer to a pointer, is a location: a slot of the table or the \<open>next\<close> field of a link.
  Keys and values given by the caller are the contents of the caller's buffers.
\<close>

section \<open>State\<close>

record key_val_obj =
  key :: ptr
  val :: ptr
  val_size :: u32
  policy_info :: ptr

record link_obj =
  kv :: key_val_obj
  next_link :: ptr

type_synonym hash_func = "char list \<Rightarrow> u64 option"

record cache_obj =
  maxmem :: u64
  mem_used :: u64
  table :: "ptr list"
  table_size :: u64
  num_elements :: u64
  h_fn :: hash_func
  evic_policy :: policy_obj
  links :: "link_obj heap"
  bufs :: "char list heap"

datatype loc = Slot nat | Next addr

definition default_table_size :: u64 where
  "default_table_size = 2503"

section \<open>Hashing\<close>

definition map_to_location :: "u64 \<Rightarrow> u64 \<Rightarrow> u64 option" where
  "map_to_location hash_val t_size =
     (if t_size = 0 then None else Some (hash_val mod t_size))"

text \<open>Reading a word from bytes, least significant byte first.\<close>

fun le_word :: "char list \<Rightarrow> u64" where
  "le_word [] = 0"
| "le_word (b # bs) = of_char b OR push_bit 8 (le_word bs)"

text \<open>
  \<open>def_hash_fn\<close>: the whole 8-byte words of the string are xored, then its last bytes, each
  shifted to its place.
\<close>

definition def_hash_fn :: hash_func where
  "def_hash_fn k = do {
     tot_size \<leftarrow> strlen k;
     let out_size = 8;
     let out = foldl (\<lambda>out i. out XOR le_word (take 8 (drop (8 * i) k))) 0
                 [0..<tot_size div out_size];
     let out = foldl (\<lambda>out i. out XOR
                   push_bit (i * 8) (of_char (k ! (i + tot_size - tot_size mod out_size))))
                 out [0..<tot_size mod out_size];
     Some out
   }"

section \<open>Creating a cache\<close>

definition create_cache :: "u64 \<Rightarrow> hash_func option \<Rightarrow> cache_obj" where
  "create_cache maxmem' h_fn' =
     \<lparr>maxmem = maxmem', mem_used = 0,
      table = replicate (unat default_table_size) NULL,
      table_size = default_table_size, num_elements = 0,
      h_fn = (case h_fn' of None \<Rightarrow> def_hash_fn | Some f \<Rightarrow> f),
      evic_policy = create_policy maxmem',
      links = empty_heap, bufs = empty_heap\<rparr>"

section \<open>Searching a chain\<close>

definition read_loc :: "cache_obj \<Rightarrow> loc \<Rightarrow> ptr option" where
  "read_loc c l = (case l of
     Slot i \<Rightarrow> (if i < length (table c) then Some (table c ! i) else None)
   | Next a \<Rightarrow> map_option next_link (cells (links c) a))"

definition write_loc :: "cache_obj \<Rightarrow> loc \<Rightarrow> ptr \<Rightarrow> cache_obj option" where
  "write_loc c l p = (case l of
     Slot i \<Rightarrow> (if i < length (table c) then Some (c\<lparr>table := (table c)[i := p]\<rparr>) else None)
   | Next a \<Rightarrow> do { h \<leftarrow> modify (links c) (Some a) (\<lambda>o'. o'\<lparr>next_link := p\<rparr>); Some (c\<lparr>links := h\<rparr>) })"

fun querry_loop :: "nat \<Rightarrow> cache_obj \<Rightarrow> char list \<Rightarrow> loc \<Rightarrow> loc option" where
  "querry_loop 0 c k cur_item = None"
| "querry_loop (Suc fuel) c k cur_item = do {
     cur \<leftarrow> read_loc c cur_item;
     case cur of
       None \<Rightarrow> Some cur_item
     | Some a \<Rightarrow> do {
         l \<leftarrow> load (links c) cur;
         stored \<leftarrow> load (bufs c) (key (kv l));
         differ \<leftarrow> strcmp_ne k stored;
         if differ then querry_loop fuel c k (Next a) else Some cur_item
       }
   }"

definition querry_hash :: "cache_obj \<Rightarrow> char list \<Rightarrow> loc option" where
  "querry_hash c k = do {
     h \<leftarrow> h_fn c k;
     hash_loc \<leftarrow> map_to_location h (table_size c);
     querry_loop (Suc (brk (links c))) c k (Slot (unat hash_loc))
   }"

section \<open>Adding, resizing, deleting\<close>

definition assign_to_link :: "cache_obj \<Rightarrow> loc \<Rightarrow> key_val_obj \<Rightarrow> cache_obj option" where
  "assign_to_link c linkp d = do {
     p \<leftarrow> read_loc c linkp;
     c \<leftarrow> (if p = NULL then do {
             let (q, h) = alloc (links c)
               \<lparr>kv = \<lparr>key = NULL, val = NULL, val_size = 0, policy_info = NULL\<rparr>, next_link = NULL\<rparr>;
             write_loc (c\<lparr>links := h\<rparr>) linkp q
           } else Some c);
     p \<leftarrow> read_loc c linkp;
     h \<leftarrow> modify (links c) p (\<lambda>l. l\<lparr>kv := d\<rparr>);
     Some (c\<lparr>links := h\<rparr>)
   }"

text \<open>The inner loop of \<open>resize_table\<close>: one old chain is moved, link by link.\<close>

fun rehash_chain :: "nat \<Rightarrow> cache_obj \<Rightarrow> ptr \<Rightarrow> cache_obj option" where
  "rehash_chain 0 c cur_l = None"
| "rehash_chain (Suc fuel) c cur_l =
     (if cur_l = NULL then Some c
      else do {
        l \<leftarrow> load (links c) cur_l;
        let next_l = next_link l;
        h \<leftarrow> modify (links c) cur_l (\<lambda>l. l\<lparr>next_link := NULL\<rparr>);
        let c = c\<lparr>links := h\<rparr>;
        k \<leftarrow> load (bufs c) (key (kv l));
        spot \<leftarrow> querry_hash c k;
        c \<leftarrow> write_loc c spot cur_l;
        rehash_chain fuel c next_l
      })"

text \<open>Its outer loop, over the slots \<open>i < old_t_size\<close>.\<close>

fun rehash_slots :: "cache_obj \<Rightarrow> ptr list \<Rightarrow> nat list \<Rightarrow> cache_obj option" where
  "rehash_slots c old_table [] = Some c"
| "rehash_slots c old_table (i # is) = do {
     cur_l \<leftarrow> (if i < length old_table then Some (old_table ! i) else None);
     c \<leftarrow> rehash_chain (Suc (brk (links c))) c cur_l;
     rehash_slots c old_table is
   }"

text \<open>
  The new table is allocated by \<open>calloc(new_size, sizeof(link_t))\<close>, which cannot succeed
  when the product of the two does not fit into a \<open>size_t\<close>.
\<close>

definition resize_table :: "cache_obj \<Rightarrow> u64 \<Rightarrow> cache_obj option" where
  "resize_table c new_size =
     (if unat new_size * 8 \<ge> 2 ^ 64 then None
      else do {
        let old_t_size = table_size c;
        let old_table = table c;
        let c = c\<lparr>table := replicate (unat new_size) NULL, table_size := new_size\<rparr>;
        rehash_slots c old_table [0..<unat old_t_size]
      })"

definition del_link :: "cache_obj \<Rightarrow> loc \<Rightarrow> cache_obj option" where
  "del_link c obj = do {
     myobj \<leftarrow> read_loc c obj;
     if myobj = NULL then Some c
     else do {
       l \<leftarrow> load (links c) myobj;
       c \<leftarrow> write_loc c obj (next_link l);
       let c = c\<lparr>mem_used := mem_used c - ucast (val_size (kv l)),
                 num_elements := num_elements c - 1\<rparr>;
       b \<leftarrow> release (bufs c) (key (kv l));
       b \<leftarrow> release b (val (kv l));
       policy \<leftarrow> delete_info (evic_policy c) (policy_info (kv l));
       h \<leftarrow> release (links c) myobj;
       Some (c\<lparr>bufs := b, evic_policy := policy, links := h\<rparr>)
     }
   }"

definition cache_delete :: "cache_obj \<Rightarrow> char list \<Rightarrow> cache_obj option" where
  "cache_delete c k = do { obj \<leftarrow> querry_hash c k; del_link c obj }"

text \<open>The loop over the identifiers, which are pointers to stored keys.\<close>

fun evict_all :: "cache_obj \<Rightarrow> user_id_t list \<Rightarrow> cache_obj option" where
  "evict_all c [] = Some c"
| "evict_all c (d # ds) = do {
     k \<leftarrow> load (bufs c) d;
     c \<leftarrow> cache_delete c k;
     evict_all c ds
   }"

definition should_add_evict_deletions :: "cache_obj \<Rightarrow> u32 \<Rightarrow> (bool \<times> cache_obj) option" where
  "should_add_evict_deletions c val_size' = do {
     add_res \<leftarrow> ids_to_delete_if_added (evic_policy c) val_size';
     c \<leftarrow> (if should_add add_res then evict_all c (data add_res) else Some c);
     Some (should_add add_res, c)
   }"

definition make_copy :: "char list heap \<Rightarrow> char list \<Rightarrow> nat \<Rightarrow> (ptr \<times> char list heap) option" where
  "make_copy h buffer buffsize =
     (if buffsize \<le> length buffer then Some (alloc h (take buffsize buffer)) else None)"

definition add_to_cache :: "cache_obj \<Rightarrow> char list \<Rightarrow> char list \<Rightarrow> u32 \<Rightarrow> cache_obj option" where
  "add_to_cache c k v val_size' = do {
     n \<leftarrow> strlen k;
     (key_copy, b) \<leftarrow> make_copy (bufs c) k (n + 1);
     (val_copy, b) \<leftarrow> make_copy b v (unat val_size');
     (info, policy) \<leftarrow> create_info (evic_policy c) key_copy val_size';
     let new_item = \<lparr>key = key_copy, val = val_copy, val_size = val_size', policy_info = info\<rparr>;
     let c = c\<lparr>bufs := b, evic_policy := policy\<rparr>;
     spot \<leftarrow> querry_hash c k;
     c \<leftarrow> assign_to_link c spot new_item;
     let c = c\<lparr>mem_used := mem_used c + ucast val_size', num_elements := num_elements c + 1\<rparr>;
     if num_elements c * 2 > table_size c then resize_table c (table_size c * 2) else Some c
   }"

section \<open>The operations of \<open>cache.h\<close>\<close>

definition cache_set :: "cache_obj \<Rightarrow> char list \<Rightarrow> char list \<Rightarrow> u32 \<Rightarrow> cache_obj option" where
  "cache_set c k v val_size' = do {
     init_link \<leftarrow> querry_hash c k;
     c \<leftarrow> del_link c init_link;
     (add, c) \<leftarrow> should_add_evict_deletions c val_size';
     if \<not> add then Some c else add_to_cache c k v val_size'
   }"

definition cache_get :: "cache_obj \<Rightarrow> char list \<Rightarrow> (ptr \<times> u32 \<times> cache_obj) option" where
  "cache_get c k = do {
     obj \<leftarrow> querry_hash c k;
     hash_l \<leftarrow> read_loc c obj;
     if hash_l \<noteq> NULL then do {
       l \<leftarrow> load (links c) hash_l;
       policy \<leftarrow> info_gotten (evic_policy c) (policy_info (kv l));
       Some (val (kv l), val_size (kv l), c\<lparr>evic_policy := policy\<rparr>)
     } else Some (NULL, 0, c)
   }"

text \<open>A caller that reads the bytes behind the pointer \<open>cache_get\<close> returned.\<close>

definition get_bytes :: "cache_obj \<Rightarrow> char list \<Rightarrow> (char list option \<times> u32 \<times> cache_obj) option" where
  "get_bytes c k = do {
     (p, n, c) \<leftarrow> cache_get c k;
     case p of
       None \<Rightarrow> Some (None, n, c)
     | Some a \<Rightarrow> do { v \<leftarrow> load (bufs c) p; Some (Some v, n, c) }
   }"

definition cache_space_used :: "cache_obj \<Rightarrow> u64" where
  "cache_space_used c = mem_used c"

fun drain_slot :: "nat \<Rightarrow> cache_obj \<Rightarrow> nat \<Rightarrow> cache_obj option" where
  "drain_slot 0 c i = None"
| "drain_slot (Suc fuel) c i = do {
     p \<leftarrow> read_loc c (Slot i);
     if p = NULL then Some c else do { c \<leftarrow> del_link c (Slot i); drain_slot fuel c i }
   }"

fun drain_slots :: "cache_obj \<Rightarrow> nat list \<Rightarrow> cache_obj option" where
  "drain_slots c [] = Some c"
| "drain_slots c (i # is) = do { c \<leftarrow> drain_slot (Suc (brk (links c))) c i; drain_slots c is }"

text \<open>The result holds the heaps as they are when the cache object itself is freed.\<close>

definition destroy_cache :: "cache_obj \<Rightarrow> cache_obj option" where
  "destroy_cache c = do {
     c \<leftarrow> drain_slots c [0..<unat (table_size c)];
     policy \<leftarrow> delete_policy (evic_policy c);
     Some (c\<lparr>evic_policy := policy, table := []\<rparr>)
   }"

text \<open>\<open>helper.c\<close>'s \<open>c_delete(void ** ptr)\<close>: frees the object and clears the pointer.\<close>

definition c_delete :: "'a heap \<Rightarrow> ptr \<Rightarrow> ('a heap \<times> ptr) option" where
  "c_delete h p = (if p \<noteq> NULL then do { h \<leftarrow> release h p; Some (h, NULL) } else Some (h, p))"

end
