(* ===== verification/Hash_Cache_Chains.thy ===== *)
theory Hash_Cache_Chains
  imports Hash_Cache
begin

text \<open>
  The table of chains: what it means that a table holds a set of entries, and that searching,
  linking, unlinking and resizing keep it.  An entry records the four addresses the cache
  allocates for one key (link, policy info, key copy, value copy) and the key and value.
\<close>

section \<open>Entries and chains\<close>

record ent =
  e_link :: addr
  e_info :: addr
  e_key :: addr
  e_val :: addr
  e_k :: "char list"
  e_v :: "char list"

definition kv_of :: "ent \<Rightarrow> key_val_obj" where
  "kv_of e = \<lparr>key = Some (e_key e), val = Some (e_val e), val_size = of_nat (length (e_v e)),
     policy_info = Some (e_info e)\<rparr>"

lemma kv_of_sel [simp]:
  "key (kv_of e) = Some (e_key e)" "val (kv_of e) = Some (e_val e)"
  "val_size (kv_of e) = of_nat (length (e_v e))" "policy_info (kv_of e) = Some (e_info e)"
  by (simp_all add: kv_of_def)

definition eptr :: "ent list \<Rightarrow> ptr \<Rightarrow> ptr" where
  "eptr es hi = (case es of [] \<Rightarrow> hi | e # _ \<Rightarrow> Some (e_link e))"

lemma eptr_simps [simp]:
  "eptr [] hi = hi" "eptr (e # es) hi = Some (e_link e)"
  "eptr (as @ bs) hi = eptr as (eptr bs hi)"
  by (auto simp: eptr_def split: list.splits)

fun chain :: "(addr \<rightharpoonup> link_obj) \<Rightarrow> ent list \<Rightarrow> ptr \<Rightarrow> bool" where
  "chain m [] hi = True"
| "chain m (e # es) hi =
     (m (e_link e) = Some \<lparr>kv = kv_of e, next_link = eptr es hi\<rparr> \<and> chain m es hi)"

lemma chain_append [simp]: "chain m (as @ bs) hi \<longleftrightarrow> chain m as (eptr bs hi) \<and> chain m bs hi"
  by (induction as) auto

lemma chain_frame [simp]: "a \<notin> e_link ` set es \<Longrightarrow> chain (m(a := x)) es hi = chain m es hi"
  by (induction es) auto

lemma chain_dom: "chain m es hi \<Longrightarrow> e_link ` set es \<subseteq> dom m"
  by (induction es) auto

definition loc_after :: "nat \<Rightarrow> ent list \<Rightarrow> loc" where
  "loc_after i as = (if as = [] then Slot i else Next (e_link (last as)))"

lemma loc_after_simps [simp]:
  "loc_after i [] = Slot i" "loc_after i (as @ [e]) = Next (e_link e)"
  by (simp_all add: loc_after_def)

lemma read_loc_after:
  assumes "i < length (table c)" and "table c ! i = eptr (as @ bs) NULL"
    and "chain (cells (links c)) (as @ bs) NULL"
  shows "read_loc c (loc_after i as) = Some (eptr bs NULL)"
  using assms by (cases as rule: rev_cases) (auto simp: read_loc_def)

definition key_ok :: "cache_obj \<Rightarrow> ent \<Rightarrow> bool" where
  "key_ok c e \<longleftrightarrow> cells (bufs c) (e_key e) = Some (e_k e @ [NUL]) \<and> NUL \<notin> set (e_k e)"

lemma querry_loop_chain:
  assumes "i < length (table c)" and "table c ! i = eptr (as @ bs) NULL"
    and "chain (cells (links c)) (as @ bs) NULL" and "\<forall>e \<in> set bs. key_ok c e"
    and "c_string k = Some s" and "length bs < fuel"
  shows "querry_loop fuel c k (loc_after i as) =
    Some (loc_after i (as @ takeWhile (\<lambda>e. e_k e \<noteq> s) bs))"
  using assms
proof (induction bs arbitrary: as fuel)
  case Nil
  then show ?case using read_loc_after [of i c as "[]"] by (cases fuel) auto
next
  case (Cons e bs)
  obtain fuel' where fuel: "fuel = Suc fuel'" using Cons.prems(6) by (cases fuel) auto
  have r: "read_loc c (loc_after i as) = Some (Some (e_link e))"
    using read_loc_after [OF Cons.prems(1-3)] by simp
  have ne: "strcmp_ne k (e_k e @ [NUL]) = Some (s \<noteq> e_k e)"
    using Cons.prems(4,5) by (simp add: strcmp_ne_def key_ok_def)
  have IH: "querry_loop fuel' c k (loc_after i (as @ [e])) =
      Some (loc_after i ((as @ [e]) @ takeWhile (\<lambda>e. e_k e \<noteq> s) bs))"
    by (rule Cons.IH) (use Cons.prems fuel in auto)
  show ?case using r ne IH Cons.prems(3,4)
    by (auto simp: fuel key_ok_def)
qed

section \<open>Slots\<close>

text \<open>A hash function may look only at the string up to its NUL, and accepts every string.\<close>

definition hash_ok :: "hash_func \<Rightarrow> bool" where
  "hash_ok f \<longleftrightarrow>
     (\<forall>buf k. c_string buf = Some k \<longrightarrow> f (k @ [NUL]) \<noteq> None \<and> f buf = f (k @ [NUL]))"

definition slot :: "cache_obj \<Rightarrow> char list \<Rightarrow> nat option" where
  "slot c k = do {
     h \<leftarrow> h_fn c (k @ [NUL]);
     i \<leftarrow> map_to_location h (table_size c);
     Some (unat i)
   }"

lemma hash_okD:
  assumes "hash_ok f" and "c_string buf = Some k"
  obtains h where "f buf = Some h" "f (k @ [NUL]) = Some h"
  using assms by (auto simp: hash_ok_def)

lemma slot_less: "slot c k = Some i \<Longrightarrow> i < unat (table_size c)"
  by (auto simp: slot_def map_to_location_def unat_mod unat_gt_0 split: Option.bind_splits if_splits)

lemma slot_total:
  assumes "hash_ok (h_fn c)" and "NUL \<notin> set k" and "table_size c \<noteq> 0"
  shows "\<exists>i < unat (table_size c). slot c k = Some i"
proof -
  obtain h where "h_fn c (k @ [NUL]) = Some h"
    using hash_okD [OF assms(1) c_string_nul [OF assms(2)]] by auto
  with assms(3) have "slot c k = Some (unat (h mod table_size c))"
    by (simp add: slot_def map_to_location_def)
  then show ?thesis using slot_less by blast
qed

lemma slot_cong: "h_fn c' = h_fn c \<Longrightarrow> table_size c' = table_size c \<Longrightarrow> slot c' k = slot c k"
  by (simp add: slot_def)


text \<open>The default hash reads the string only, never a byte beyond its NUL.\<close>

lemma def_hash_fn_string:
  assumes "c_string buf = Some k"
  shows "\<exists>h. def_hash_fn buf = Some h \<and> def_hash_fn (k @ [NUL]) = Some h"
proof -
  have nk: "NUL \<notin> set k" using assms by (rule c_string_no_nul)
  have pre: "take (length k) buf = k"
    using c_string_take [OF assms] by (metis append_eq_conv_conj length_append_singleton
        lessI less_imp_le_nat min.absorb1 take_take)
  have at: "buf ! j = (k @ [NUL]) ! j" if "j < length k" for j
    using that pre by (metis nth_append nth_take)
  have words: "take 8 (drop (8 * i) buf) = take 8 (drop (8 * i) (k @ [NUL]))"
    if "i < length k div 8" for i
  proof -
    have "8 * i + 8 \<le> length k" using that by linarith
    then have "take 8 (drop (8 * i) (take (length k) buf)) = take 8 (drop (8 * i) buf)"
      by (simp add: drop_take take_take)
    moreover have "take 8 (drop (8 * i) (k @ [NUL])) = take 8 (drop (8 * i) k)"
      using \<open>8 * i + 8 \<le> length k\<close> by simp
    ultimately show ?thesis using pre by simp
  qed
  have tail: "i + length k - length k mod 8 < length k" if "i < length k mod 8" for i
    using that mod_less_eq_dividend [of "length k" 8] by linarith
  have "def_hash_fn buf = def_hash_fn (k @ [NUL])"
    unfolding def_hash_fn_def strlen_def assms c_string_nul [OF nk] Let_def
    using words at tail by (auto intro!: foldl_cong)
  then show ?thesis using nk by (auto simp: def_hash_fn_def strlen_def)
qed

lemma hash_ok_def_hash_fn: "hash_ok def_hash_fn"
  using def_hash_fn_string by (fastforce simp: hash_ok_def)

section \<open>The table invariant\<close>

text \<open>
  \<open>table_inv c G chs\<close>: slot \<open>i\<close> of the table starts the chain \<open>chs ! i\<close>, which holds each
  entry of \<open>G\<close> that hashes to \<open>i\<close> once, and nothing else.
\<close>

definition table_inv :: "cache_obj \<Rightarrow> ent list \<Rightarrow> ent list list \<Rightarrow> bool" where
  "table_inv c G chs \<longleftrightarrow>
     length (table c) = unat (table_size c) \<and> length chs = length (table c) \<and>
     table_size c \<noteq> 0 \<and> hash_ok (h_fn c) \<and> heap_ok (links c) \<and>
     distinct (map e_link G) \<and> distinct (map e_k G) \<and> (\<forall>e \<in> set G. key_ok c e) \<and>
     (\<forall>i < length chs. table c ! i = eptr (chs ! i) NULL \<and>
        chain (cells (links c)) (chs ! i) NULL \<and> distinct (chs ! i) \<and>
        set (chs ! i) = {e \<in> set G. slot c (e_k e) = Some i})"

lemma table_invD:
  assumes "table_inv c G chs"
  shows "length (table c) = unat (table_size c)" "length chs = length (table c)"
    "table_size c \<noteq> 0" "hash_ok (h_fn c)" "heap_ok (links c)" "distinct (map e_link G)"
    "distinct (map e_k G)" "e \<in> set G \<Longrightarrow> key_ok c e"
    "i < length chs \<Longrightarrow> table c ! i = eptr (chs ! i) NULL"
    "i < length chs \<Longrightarrow> chain (cells (links c)) (chs ! i) NULL"
    "i < length chs \<Longrightarrow> distinct (chs ! i)"
    "i < length chs \<Longrightarrow> set (chs ! i) = {e \<in> set G. slot c (e_k e) = Some i}"
  using assms by (auto simp: table_inv_def)

lemma table_inv_slot:
  assumes t: "table_inv c G chs" and "NUL \<notin> set k"
  obtains i where "slot c k = Some i" "i < length chs"
  using slot_total [OF table_invD(4) [OF t] assms(2) table_invD(3) [OF t]] table_invD(1,2) [OF t]
  by auto

lemma table_inv_cells:
  assumes t: "table_inv c G chs" and e: "e \<in> set G"
  shows "cells (links c) (e_link e) \<noteq> None"
proof -
  have "NUL \<notin> set (e_k e)" using table_invD(8) [OF t e] by (simp add: key_ok_def)
  then obtain i where "slot c (e_k e) = Some i" "i < length chs"
    using table_inv_slot [OF t] by blast
  then have "e \<in> set (chs ! i)" "chain (cells (links c)) (chs ! i) NULL"
    using t e by (auto simp: table_inv_def)
  then show ?thesis using chain_dom by fastforce
qed

lemma table_inv_distinct_links:
  assumes t: "table_inv c G chs" and i: "i < length chs"
  shows "distinct (map e_link (chs ! i))"
proof -
  have "inj_on e_link (set G)" using table_invD(6) [OF t] by (simp add: distinct_map)
  moreover have "set (chs ! i) \<subseteq> set G" using table_invD(12) [OF t i] by auto
  ultimately show ?thesis
    using table_invD(11) [OF t i] by (simp add: distinct_map) (metis inj_on_subset)
qed

text \<open>
  Searching for a key finds its place: behind the entries of its chain with other keys.
\<close>

definition before :: "ent list \<Rightarrow> char list \<Rightarrow> ent list" where
  "before es k = takeWhile (\<lambda>e. e_k e \<noteq> k) es"

lemma querry_hash_finds:
  assumes t: "table_inv c G chs" and k: "c_string buf = Some k" and s: "slot c k = Some i"
  shows "querry_hash c buf = Some (loc_after i (before (chs ! i) k))"
proof -
  obtain h where h: "h_fn c buf = Some h" "h_fn c (k @ [NUL]) = Some h"
    using hash_okD [OF table_invD(4) [OF t] k] .
  have i: "i < length chs" using slot_less [OF s] table_invD(1,2) [OF t] by simp
  have sz: "length (chs ! i) < Suc (brk (links c))"
    using heap_ok_length [OF table_invD(5) [OF t] table_inv_distinct_links [OF t i]]
      chain_dom [OF table_invD(10) [OF t i]] by simp
  have "querry_loop (Suc (brk (links c))) c buf (loc_after i []) =
      Some (loc_after i ([] @ takeWhile (\<lambda>e. e_k e \<noteq> k) (chs ! i)))"
    by (rule querry_loop_chain)
      (use t i sz k in \<open>auto simp: table_inv_def\<close>)
  moreover have "unat (h mod table_size c) = i" "table_size c \<noteq> 0"
    using s h(2) table_invD(3) [OF t] by (auto simp: slot_def map_to_location_def)
  ultimately show ?thesis
    using h(1)
    by (simp add: querry_hash_def map_to_location_def before_def del: querry_loop.simps)
qed


lemma before_all: "k \<notin> e_k ` set es \<Longrightarrow> before es k = es"
  by (auto simp: before_def takeWhile_eq_all_conv)

lemma before_split:
  assumes "distinct (map e_k es)" and "e \<in> set es" and "e_k e = k"
  obtains bs where "es = before es k @ e # bs"
proof -
  obtain as bs where es: "es = as @ e # bs" using assms(2) by (meson split_list)
  have "e_k e \<notin> e_k ` set as" using assms(1) by (simp add: es)
  then have "\<forall>x \<in> set as. e_k x \<noteq> k" using assms(3) by blast
  then have "before es k = as"
    using assms(3) by (simp add: before_def es)
  with es that show ?thesis by simp
qed

section \<open>Relinking one chain\<close>

lemma chain_cong:
  "(\<And>e. e \<in> set es \<Longrightarrow> m' (e_link e) = m (e_link e)) \<Longrightarrow> chain m' es hi = chain m es hi"
  by (induction es) auto

text \<open>Writing through \<open>loc_after i as\<close> keeps the entries \<open>as\<close> and replaces all behind them.\<close>

lemma write_loc_splice:
  assumes i: "i < length (table c)" and p: "table c ! i = eptr (as @ bs) NULL"
    and ch: "chain (cells (links c)) (as @ bs) NULL" and ch': "chain (cells (links c)) bs' NULL"
    and d: "distinct (map e_link (as @ bs'))"
  shows "\<exists>T h. write_loc c (loc_after i as) (eptr bs' NULL) = Some (c\<lparr>table := T, links := h\<rparr>) \<and>
    length T = length (table c) \<and> T ! i = eptr (as @ bs') NULL \<and>
    (\<forall>j. j \<noteq> i \<longrightarrow> T ! j = table c ! j) \<and> chain (cells h) (as @ bs') NULL \<and>
    (\<forall>a. a \<notin> e_link ` set as \<longrightarrow> cells h a = cells (links c) a) \<and>
    dom (cells h) = dom (cells (links c)) \<and> brk h = brk (links c)"
proof (cases as rule: rev_cases)
  case Nil
  have "write_loc c (loc_after i as) (eptr bs' NULL) =
      Some (c\<lparr>table := (table c)[i := eptr bs' NULL], links := links c\<rparr>)"
    using i Nil by (simp add: write_loc_def)
  then show ?thesis using i ch' Nil
    by (intro exI [of _ "(table c)[i := eptr bs' NULL]"] exI [of _ "links c"]) simp
next
  case (snoc as' e)
  let ?o = "\<lparr>kv = kv_of e, next_link = eptr bs NULL\<rparr>"
  let ?h = "(links c)\<lparr>cells := (cells (links c))(e_link e \<mapsto> ?o\<lparr>next_link := eptr bs' NULL\<rparr>)\<rparr>"
  have ce: "cells (links c) (e_link e) = Some ?o" using ch snoc by simp
  then have "write_loc c (loc_after i as) (eptr bs' NULL) =
      Some (c\<lparr>table := table c, links := ?h\<rparr>)"
    using snoc by (simp add: write_loc_def modify_alloc)
  moreover have "chain (cells ?h) (as @ bs') NULL"
    using ch ch' d snoc by (auto simp: image_iff)
  moreover have "table c ! i = eptr (as @ bs') NULL"
    using p snoc by (cases as') auto
  ultimately show ?thesis using ce snoc
    by (intro exI [of _ "table c"] exI [of _ ?h]) auto
qed

lemma table_inv_splice:
  assumes t: "table_inv c G chs" and i: "i < length chs" and chi: "chs ! i = as @ bs"
    and ch': "chain (cells (links c)) bs' NULL"
    and G': "distinct (map e_link G')" "distinct (map e_k G')" "\<forall>e \<in> set G'. key_ok c e"
    and new: "distinct (as @ bs')" "set (as @ bs') = {e \<in> set G'. slot c (e_k e) = Some i}"
    and other: "\<And>j. j \<noteq> i \<Longrightarrow>
      {e \<in> set G'. slot c (e_k e) = Some j} = {e \<in> set G. slot c (e_k e) = Some j}"
  shows "\<exists>T h. write_loc c (loc_after i as) (eptr bs' NULL) = Some (c\<lparr>table := T, links := h\<rparr>) \<and>
    table_inv (c\<lparr>table := T, links := h\<rparr>) G' (chs[i := as @ bs']) \<and>
    (\<forall>a. a \<notin> e_link ` set as \<longrightarrow> cells h a = cells (links c) a) \<and>
    dom (cells h) = dom (cells (links c)) \<and> brk h = brk (links c)"
proof -
  have inj: "inj_on e_link (set G')" using G'(1) by (simp add: distinct_map)
  have sub: "set (as @ bs') \<subseteq> set G'" using new(2) by auto
  have d: "distinct (map e_link (as @ bs'))"
    using new(1) inj_on_subset [OF inj sub] by (simp only: distinct_map)
  have ti: "i < length (table c)" and pi: "table c ! i = eptr (as @ bs) NULL"
    and ci: "chain (cells (links c)) (as @ bs) NULL"
    using t i chi by (auto simp: table_inv_def)
  obtain T h where w: "write_loc c (loc_after i as) (eptr bs' NULL) = Some (c\<lparr>table := T, links := h\<rparr>)"
    and T: "length T = length (table c)" "T ! i = eptr (as @ bs') NULL"
      "\<And>j. j \<noteq> i \<Longrightarrow> T ! j = table c ! j"
    and h: "chain (cells h) (as @ bs') NULL"
      "\<And>a. a \<notin> e_link ` set as \<Longrightarrow> cells h a = cells (links c) a"
      "dom (cells h) = dom (cells (links c))" "brk h = brk (links c)"
    using write_loc_splice [OF ti pi ci ch' d] by blast
  let ?c = "c\<lparr>table := T, links := h\<rparr>"
  have sl: "slot ?c k = slot c k" for k by (rule slot_cong) simp_all
  have "table ?c ! j = eptr (chs[i := as @ bs'] ! j) NULL \<and>
        chain (cells (links ?c)) (chs[i := as @ bs'] ! j) NULL \<and> distinct (chs[i := as @ bs'] ! j) \<and>
        set (chs[i := as @ bs'] ! j) = {e \<in> set G'. slot ?c (e_k e) = Some j}"
    if j: "j < length chs" for j
  proof (cases "j = i")
    case True
    with T(2) h(1) i new sl show ?thesis by simp
  next
    case False
    have "chain (cells h) (chs ! j) NULL = chain (cells (links c)) (chs ! j) NULL"
    proof (rule chain_cong)
      fix e assume "e \<in> set (chs ! j)"
      then have e: "e \<in> set G'" "slot c (e_k e) = Some j"
        using table_invD(12) [OF t j] other [OF False] by auto
      have "e_link e \<notin> e_link ` set as"
      proof
        assume "e_link e \<in> e_link ` set as"
        then obtain e' where "e' \<in> set as" and "e_link e = e_link e'" by auto
        moreover have "e' \<in> set G'" "slot c (e_k e') = Some i" using calculation(1) new(2) by auto
        ultimately have "e = e'" using inj e(1) by (simp add: inj_onD)
        with e(2) False \<open>slot c (e_k e') = Some i\<close> show False by simp
      qed
      then show "cells h (e_link e) = cells (links c) (e_link e)" by (rule h(2))
    qed
    then show ?thesis
      using False j T(3) [OF False] t other [OF False] sl by (simp add: table_inv_def)
  qed
  then have "table_inv ?c G' (chs[i := as @ bs'])"
    using t G' T(1) h(3,4) by (simp add: table_inv_def key_ok_def heap_ok_def)
  with w h show ?thesis by blast
qed


lemma table_inv_cong:
  assumes t: "table_inv c G chs" and "table c' = table c" and "table_size c' = table_size c"
    and "h_fn c' = h_fn c" and "heap_ok (links c')"
    and l: "\<And>e. e \<in> set G \<Longrightarrow> cells (links c') (e_link e) = cells (links c) (e_link e)"
    and b: "\<And>e. e \<in> set G \<Longrightarrow> cells (bufs c') (e_key e) = cells (bufs c) (e_key e)"
  shows "table_inv c' G chs"
proof -
  have sl: "slot c' k = slot c k" for k by (rule slot_cong [OF assms(4,3)])
  have "chain (cells (links c')) (chs ! i) NULL" if i: "i < length chs" for i
  proof -
    have "chain (cells (links c')) (chs ! i) NULL = chain (cells (links c)) (chs ! i) NULL"
    proof (rule chain_cong)
      fix e assume "e \<in> set (chs ! i)"
      then have "e \<in> set G" using table_invD(12) [OF t i] by simp
      then show "cells (links c') (e_link e) = cells (links c) (e_link e)" by (rule l)
    qed
    then show ?thesis using table_invD(10) [OF t i] by simp
  qed
  moreover have "\<forall>e \<in> set G. key_ok c' e"
    using table_invD(8) [OF t] b by (simp add: key_ok_def)
  ultimately show ?thesis
    using table_invD [OF t] assms(2-5) by (simp add: table_inv_def sl)
qed

lemma table_inv_perm:
  assumes "table_inv c G chs" and "set G' = set G" and "distinct (map e_link G')"
    and "distinct (map e_k G')"
  shows "table_inv c G' chs"
  using assms by (simp add: table_inv_def)

text \<open>Linking a new entry at the end of its chain.\<close>

lemma table_inv_insert:
  assumes t: "table_inv c G chs" and k: "c_string buf = Some (e_k e)"
    and d: "distinct (map e_link (G @ [e]))" "distinct (map e_k (G @ [e]))"
    and ok: "key_ok c e" and cell: "cells (links c) (e_link e) = Some \<lparr>kv = kv_of e, next_link = NULL\<rparr>"
  obtains spot T h chs' where "querry_hash c buf = Some spot" "read_loc c spot = Some NULL"
    "write_loc c spot (Some (e_link e)) = Some (c\<lparr>table := T, links := h\<rparr>)"
    "read_loc (c\<lparr>table := T, links := h\<rparr>) spot = Some (Some (e_link e))"
    "table_inv (c\<lparr>table := T, links := h\<rparr>) (G @ [e]) chs'"
    "\<And>a. a \<notin> e_link ` set G \<Longrightarrow> cells h a = cells (links c) a"
    "dom (cells h) = dom (cells (links c))" "brk h = brk (links c)"
proof -
  have "NUL \<notin> set (e_k e)" using ok by (simp add: key_ok_def)
  then obtain i where s: "slot c (e_k e) = Some i" and i: "i < length chs"
    using table_inv_slot [OF t] by blast
  have sub: "set (chs ! i) \<subseteq> set G" using table_invD(12) [OF t i] by auto
  have bf: "before (chs ! i) (e_k e) = chs ! i"
    using d(2) sub by (intro before_all) auto
  have q: "querry_hash c buf = Some (loc_after i (chs ! i))"
    using querry_hash_finds [OF t k s] bf by simp
  have ti: "i < length (table c)" using i table_invD(2) [OF t] by simp
  have r: "read_loc c (loc_after i (chs ! i)) = Some NULL"
    using read_loc_after [OF ti, of "chs ! i" "[]"] table_invD(9,10) [OF t i] by simp
  have notin: "e \<notin> set (chs ! i)" using d(1) sub by auto
  have "\<exists>T h. write_loc c (loc_after i (chs ! i)) (eptr [e] NULL) = Some (c\<lparr>table := T, links := h\<rparr>) \<and>
    table_inv (c\<lparr>table := T, links := h\<rparr>) (G @ [e]) (chs[i := chs ! i @ [e]]) \<and>
    (\<forall>a. a \<notin> e_link ` set (chs ! i) \<longrightarrow> cells h a = cells (links c) a) \<and>
    dom (cells h) = dom (cells (links c)) \<and> brk h = brk (links c)"
  proof (rule table_inv_splice [OF t i])
    show "chs ! i = chs ! i @ []" by simp
    show "chain (cells (links c)) [e] NULL" using cell by simp
    show "\<forall>e \<in> set (G @ [e]). key_ok c e" using ok table_invD(8) [OF t] by auto
    show "distinct (chs ! i @ [e])" using notin table_invD(11) [OF t i] by simp
    show "set (chs ! i @ [e]) = {e' \<in> set (G @ [e]). slot c (e_k e') = Some i}"
      using table_invD(12) [OF t i] s by auto
  qed (use d s in auto)
  then obtain T h where
    w: "write_loc c (loc_after i (chs ! i)) (Some (e_link e)) = Some (c\<lparr>table := T, links := h\<rparr>)"
    and ti': "table_inv (c\<lparr>table := T, links := h\<rparr>) (G @ [e]) (chs[i := chs ! i @ [e]])"
    and f: "\<forall>a. a \<notin> e_link ` set (chs ! i) \<longrightarrow> cells h a = cells (links c) a"
      "dom (cells h) = dom (cells (links c))" "brk h = brk (links c)" by auto
  have f': "cells h a = cells (links c) a" if "a \<notin> e_link ` set G" for a
    using f(1) sub that by blast
  have i': "i < length (chs[i := chs ! i @ [e]])" using i by simp
  then have rd: "read_loc (c\<lparr>table := T, links := h\<rparr>) (loc_after i (chs ! i)) = Some (eptr [e] NULL)"
    by (intro read_loc_after)
      (use table_invD(2) [OF ti'] table_invD(9,10) [OF ti' i'] i in auto)
  show ?thesis by (rule that [OF q r w _ ti' f' f(2,3)]) (use rd in auto)
qed


text \<open>Unlinking an entry: its chain closes behind it, its own link cell is not written.\<close>

lemma table_inv_unlink:
  assumes t: "table_inv c (xs @ e # ys) chs" and i: "i < length chs"
    and chi: "chs ! i = as @ e # bs"
  obtains T h chs' where
    "read_loc c (loc_after i as) = Some (Some (e_link e))"
    "cells (links c) (e_link e) = Some \<lparr>kv = kv_of e, next_link = eptr bs NULL\<rparr>"
    "write_loc c (loc_after i as) (eptr bs NULL) = Some (c\<lparr>table := T, links := h\<rparr>)"
    "table_inv (c\<lparr>table := T, links := h\<rparr>) (xs @ ys) chs'"
    "cells h (e_link e) = cells (links c) (e_link e)"
    "dom (cells h) = dom (cells (links c))" "brk h = brk (links c)"
    "chs' = chs[i := as @ bs]"
proof -
  have ti: "i < length (table c)" using i table_invD(2) [OF t] by simp
  have c0: "table c ! i = eptr (as @ e # bs) NULL" "chain (cells (links c)) (as @ e # bs) NULL"
    using table_invD(9,10) [OF t i] chi by simp_all
  have r: "read_loc c (loc_after i as) = Some (Some (e_link e))"
    using read_loc_after [OF ti c0] by simp
  have d: "distinct (map e_link (xs @ e # ys))" "distinct (map e_k (xs @ e # ys))"
    using table_invD(6,7) [OF t] by simp_all
  have e_in: "e \<notin> set (xs @ ys)" using d(1) by auto
  have dch: "distinct (as @ e # bs)" using table_invD(11) [OF t i] chi by simp
  have sch: "set (as @ e # bs) = {e' \<in> set (xs @ e # ys). slot c (e_k e') = Some i}"
    using table_invD(12) [OF t i] chi by simp
  have e_slot: "slot c (e_k e) = Some i" using sch by auto
  have "set (as @ bs) = set (as @ e # bs) - {e}" using dch by auto
  also have "\<dots> = {e' \<in> set (xs @ ys). slot c (e_k e') = Some i}"
    unfolding sch using e_in by auto
  finally have new: "set (as @ bs) = {e' \<in> set (xs @ ys). slot c (e_k e') = Some i}" .
  have "\<exists>T h. write_loc c (loc_after i as) (eptr bs NULL) = Some (c\<lparr>table := T, links := h\<rparr>) \<and>
    table_inv (c\<lparr>table := T, links := h\<rparr>) (xs @ ys) (chs[i := as @ bs]) \<and>
    (\<forall>a. a \<notin> e_link ` set as \<longrightarrow> cells h a = cells (links c) a) \<and>
    dom (cells h) = dom (cells (links c)) \<and> brk h = brk (links c)"
  proof (rule table_inv_splice [OF t i chi])
    show "\<forall>e \<in> set (xs @ ys). key_ok c e" using table_invD(8) [OF t] by auto
    show "distinct (as @ bs)" using dch by auto
  qed (use d c0 new e_slot in auto)
  then obtain T h where w: "write_loc c (loc_after i as) (eptr bs NULL) = Some (c\<lparr>table := T, links := h\<rparr>)"
    and t': "table_inv (c\<lparr>table := T, links := h\<rparr>) (xs @ ys) (chs[i := as @ bs])"
    and f: "\<And>a. a \<notin> e_link ` set as \<Longrightarrow> cells h a = cells (links c) a"
      "dom (cells h) = dom (cells (links c))" "brk h = brk (links c)" by blast
  have "e_link e \<notin> e_link ` set as"
    using table_inv_distinct_links [OF t i] chi by simp
  then have ce: "cells h (e_link e) = cells (links c) (e_link e)" by (rule f(1))
  show ?thesis by (rule that [OF r _ w t' ce f(2,3) refl]) (use c0(2) in simp)
qed

section \<open>Resizing\<close>

lemma rehash_chain_inv:
  assumes t: "table_inv c G chs" and "chain (cells (links c)) es NULL"
    and "distinct (map e_link (G @ es))" and "distinct (map e_k (G @ es))"
    and "\<forall>e \<in> set es. key_ok c e" and "length es < fuel"
  shows "\<exists>T h chs'. rehash_chain fuel c (eptr es NULL) = Some (c\<lparr>table := T, links := h\<rparr>) \<and>
    table_inv (c\<lparr>table := T, links := h\<rparr>) (G @ es) chs' \<and>
    (\<forall>a. a \<notin> e_link ` set (G @ es) \<longrightarrow> cells h a = cells (links c) a) \<and>
    dom (cells h) = dom (cells (links c)) \<and> brk h = brk (links c)"
  using assms
proof (induction es arbitrary: c G chs fuel)
  case Nil
  obtain fuel' where fuel: "fuel = Suc fuel'" using Nil.prems(6) by (cases fuel) auto
  have "rehash_chain fuel c (eptr [] NULL) = Some (c\<lparr>table := table c, links := links c\<rparr>)"
    by (simp add: fuel)
  moreover have "table_inv (c\<lparr>table := table c, links := links c\<rparr>) (G @ []) chs"
    using Nil.prems(1) by simp
  ultimately show ?case by blast
next
  case (Cons e es)
  obtain fuel' where fuel: "fuel = Suc fuel'" using Cons.prems(6) by (cases fuel) auto
  let ?h1 = "(links c)\<lparr>cells := (cells (links c))(e_link e \<mapsto> \<lparr>kv = kv_of e, next_link = NULL\<rparr>)\<rparr>"
  let ?c1 = "c\<lparr>links := ?h1\<rparr>"
  have ce: "cells (links c) (e_link e) = Some \<lparr>kv = kv_of e, next_link = eptr es NULL\<rparr>"
    using Cons.prems(2) by simp
  have ke: "key_ok c e" using Cons.prems(5) by simp
  have fresh: "e_link e \<notin> e_link ` set G" "e_link e \<notin> e_link ` set es"
    using Cons.prems(3) by auto
  then have fresh': "e_link x \<noteq> e_link e" if "x \<in> set G" for x
    using that by (metis image_eqI)
  have t1: "table_inv ?c1 G chs"
    by (rule table_inv_cong [OF Cons.prems(1)])
      (use ce fresh' table_invD(5) [OF Cons.prems(1)] in \<open>auto simp: heap_ok_upd\<close>)
  have "c_string (e_k e @ [NUL]) = Some (e_k e)" using ke by (simp add: key_ok_def)
  then obtain spot T h chs1 where q: "querry_hash ?c1 (e_k e @ [NUL]) = Some spot"
    and w: "write_loc ?c1 spot (Some (e_link e)) = Some (?c1\<lparr>table := T, links := h\<rparr>)"
    and t2: "table_inv (?c1\<lparr>table := T, links := h\<rparr>) (G @ [e]) chs1"
    and f: "\<And>a. a \<notin> e_link ` set G \<Longrightarrow> cells h a = cells ?h1 a"
      "dom (cells h) = dom (cells ?h1)" "brk h = brk ?h1"
    by (rule table_inv_insert [OF t1]) (use Cons.prems(3,4) ke in \<open>auto simp: key_ok_def\<close>)
  let ?c2 = "c\<lparr>table := T, links := h\<rparr>"
  have t2': "table_inv ?c2 (G @ [e]) chs1" using t2 by simp
  have frame: "cells h a = cells (links c) a" if "a \<notin> e_link ` set (G @ [e])" for a
    using f(1) that by simp
  have "chain (cells (links ?c2)) es NULL = chain (cells (links c)) es NULL"
    by (rule chain_cong)
      (use Cons.prems(3) frame distinct_map_notin [of e_link "G @ [e]" es] in simp)
  then have ch2: "chain (cells (links ?c2)) es NULL" using Cons.prems(2) by simp
  have ok2: "\<forall>e \<in> set es. key_ok ?c2 e" using Cons.prems(5) by (simp add: key_ok_def)
  obtain T' h' chs' where IH: "rehash_chain fuel' ?c2 (eptr es NULL) = Some (?c2\<lparr>table := T', links := h'\<rparr>)"
      "table_inv (?c2\<lparr>table := T', links := h'\<rparr>) ((G @ [e]) @ es) chs'"
      "\<And>a. a \<notin> e_link ` set ((G @ [e]) @ es) \<Longrightarrow> cells h' a = cells (links ?c2) a"
      "dom (cells h') = dom (cells (links ?c2))" "brk h' = brk (links ?c2)"
    using Cons.IH [OF t2' ch2, of fuel'] Cons.prems(3,4,6) ok2 fuel by auto
  have "rehash_chain fuel c (eptr (e # es) NULL) = Some (c\<lparr>table := T', links := h'\<rparr>)"
    using ce ke q w IH(1) by (simp add: fuel modify_alloc key_ok_def)
  moreover have "cells h' a = cells (links c) a" if "a \<notin> e_link ` set (G @ e # es)" for a
    using IH(3) [of a] frame [of a] that by (auto simp: image_Un)
  moreover have "dom (cells h') = dom (cells (links c))" "brk h' = brk (links c)"
    using IH(4,5) f(2,3) ce by auto
  ultimately show ?case using IH(2)
    by (intro exI [of _ T'] exI [of _ h'] exI [of _ chs'] conjI) auto
qed


lemma distinct_concat_slots:
  assumes "distinct is" and "\<And>i. i \<in> set is \<Longrightarrow> distinct (f i)"
    and "\<And>i j. i \<in> set is \<Longrightarrow> j \<in> set is \<Longrightarrow> i \<noteq> j \<Longrightarrow> set (f i) \<inter> set (f j) = {}"
  shows "distinct (concat (map f is))"
  using assms
proof (induction "is")
  case Nil
  then show ?case by simp
next
  case (Cons i "is")
  have "set (f i) \<inter> set (f j) = {}" if "j \<in> set is" for j
    using Cons.prems(1) that by (intro Cons.prems(3)) auto
  with Cons show ?case by auto
qed

lemma rehash_slots_inv:
  assumes t: "table_inv c G chs"
    and "\<forall>i \<in> set is. i < length old \<and> old ! i = eptr (f i) NULL"
    and "\<forall>i \<in> set is. chain (cells (links c)) (f i) NULL"
    and "distinct (map e_link (G @ concat (map f is)))"
    and "distinct (map e_k (G @ concat (map f is)))"
    and "\<forall>e \<in> set (concat (map f is)). key_ok c e"
  shows "\<exists>T h chs'. rehash_slots c old is = Some (c\<lparr>table := T, links := h\<rparr>) \<and>
    table_inv (c\<lparr>table := T, links := h\<rparr>) (G @ concat (map f is)) chs' \<and>
    dom (cells h) = dom (cells (links c)) \<and> brk h = brk (links c)"
  using assms
proof (induction "is" arbitrary: c G chs)
  case Nil
  have "rehash_slots c old [] = Some (c\<lparr>table := table c, links := links c\<rparr>)" by simp
  moreover have "table_inv (c\<lparr>table := table c, links := links c\<rparr>) (G @ concat (map f [])) chs"
    using Nil.prems(1) by simp
  ultimately show ?case by blast
next
  case (Cons i "is")
  have o: "i < length old" "old ! i = eptr (f i) NULL" and chi: "chain (cells (links c)) (f i) NULL"
    using Cons.prems(2,3) by simp_all
  have d: "distinct (map e_link (G @ f i))" "distinct (map e_k (G @ f i))"
    using Cons.prems(4,5) by auto
  have "distinct (map e_link (f i))" using d(1) by simp
  then have len: "length (f i) < Suc (brk (links c))"
    using heap_ok_length [OF table_invD(5) [OF Cons.prems(1)], of "map e_link (f i)"]
      chain_dom [OF chi] by simp
  have "\<forall>e \<in> set (f i). key_ok c e" using Cons.prems(6) by simp
  from rehash_chain_inv [OF Cons.prems(1) chi d this len]
  obtain T h chs1 where r: "rehash_chain (Suc (brk (links c))) c (eptr (f i) NULL) =
        Some (c\<lparr>table := T, links := h\<rparr>)"
    and t1: "table_inv (c\<lparr>table := T, links := h\<rparr>) (G @ f i) chs1"
    and fr: "\<And>a. a \<notin> e_link ` set (G @ f i) \<Longrightarrow> cells h a = cells (links c) a"
      "dom (cells h) = dom (cells (links c))" "brk h = brk (links c)" by blast
  let ?c1 = "c\<lparr>table := T, links := h\<rparr>"
  have ch1: "\<forall>j \<in> set is. chain (cells (links ?c1)) (f j) NULL"
  proof
    fix j assume j: "j \<in> set is"
    have "chain (cells (links ?c1)) (f j) NULL = chain (cells (links c)) (f j) NULL"
    proof (rule chain_cong)
      fix e assume "e \<in> set (f j)"
      then have "e \<in> set (concat (map f is))" using j by auto
      moreover have "distinct (map e_link ((G @ f i) @ concat (map f is)))"
        using Cons.prems(4) by simp
      ultimately have "e_link e \<notin> e_link ` set (G @ f i)" by (intro distinct_map_notin)
      then show "cells (links ?c1) (e_link e) = cells (links c) (e_link e)" using fr(1) by simp
    qed
    then show "chain (cells (links ?c1)) (f j) NULL" using Cons.prems(3) j by simp
  qed
  have o1: "\<forall>i \<in> set is. i < length old \<and> old ! i = eptr (f i) NULL"
    and d1: "distinct (map e_link ((G @ f i) @ concat (map f is)))"
      "distinct (map e_k ((G @ f i) @ concat (map f is)))"
    and k1: "\<forall>e \<in> set (concat (map f is)). key_ok ?c1 e"
    using Cons.prems(2,4,5,6) by (simp_all add: key_ok_def)
  obtain T' h' chs' where IH: "rehash_slots ?c1 old is = Some (?c1\<lparr>table := T', links := h'\<rparr>)"
      "table_inv (?c1\<lparr>table := T', links := h'\<rparr>) ((G @ f i) @ concat (map f is)) chs'"
      "dom (cells h') = dom (cells (links ?c1))" "brk h' = brk (links ?c1)"
    using Cons.IH [OF t1 o1 ch1 d1 k1] by blast
  have "rehash_slots c old (i # is) = Some (c\<lparr>table := T', links := h'\<rparr>)"
    using o r IH(1) by (simp del: rehash_chain.simps)
  with IH(2-4) fr(2,3) show ?case
    by (intro exI [of _ T'] exI [of _ h'] exI [of _ chs'] conjI) auto
qed


lemma table_inv_empty:
  assumes "hash_ok (h_fn c)" and "heap_ok (links c)" and "table_size c \<noteq> 0"
    and "table c = replicate (unat (table_size c)) NULL"
  shows "table_inv c [] (replicate (unat (table_size c)) [])"
  using assms by (simp add: table_inv_def)

text \<open>The chains of a table hold exactly its entries.\<close>

lemma table_inv_concat:
  assumes t: "table_inv c G chs"
  defines "all \<equiv> concat (map (nth chs) [0..<length chs])"
  shows "set all = set G" and "distinct (map e_link all)" and "distinct (map e_k all)"
proof -
  have "e \<in> set all" if e: "e \<in> set G" for e
  proof -
    have "NUL \<notin> set (e_k e)" using table_invD(8) [OF t e] by (simp add: key_ok_def)
    then obtain i where "slot c (e_k e) = Some i" "i < length chs"
      using table_inv_slot [OF t] by blast
    then show ?thesis using table_invD(12) [OF t] e by (auto simp: all_def)
  qed
  moreover have "set all \<subseteq> set G"
    using table_invD(12) [OF t] by (auto simp: all_def)
  ultimately show s: "set all = set G" by auto
  have "distinct all" unfolding all_def
    by (rule distinct_concat_slots)
      (use table_invD(11,12) [OF t] in auto)
  then show "distinct (map e_link all)" "distinct (map e_k all)"
    using table_invD(6,7) [OF t] s by (simp_all add: distinct_map)
qed

lemma resize_table_inv:
  assumes t: "table_inv c G chs" and n: "new_size \<noteq> 0" "unat new_size * 8 < 2 ^ 64"
  shows "\<exists>T h chs'.
    resize_table c new_size = Some (c\<lparr>table_size := new_size, table := T, links := h\<rparr>) \<and>
    table_inv (c\<lparr>table_size := new_size, table := T, links := h\<rparr>) G chs' \<and>
    dom (cells h) = dom (cells (links c)) \<and> brk h = brk (links c)"
proof -
  let ?c1 = "c\<lparr>table := replicate (unat new_size) NULL, table_size := new_size\<rparr>"
  let ?all = "concat (map (nth chs) [0..<length chs])"
  have len: "length (table c) = unat (table_size c)" "length chs = unat (table_size c)"
    using table_invD(1,2) [OF t] by simp_all
  have t1: "table_inv ?c1 [] (replicate (unat new_size) [])"
    using table_inv_empty [of ?c1] table_invD(4,5) [OF t] n(1) by simp
  have o: "\<forall>i \<in> set [0..<length chs]. i < length (table c) \<and> table c ! i = eptr (chs ! i) NULL"
    and ch: "\<forall>i \<in> set [0..<length chs]. chain (cells (links ?c1)) (chs ! i) NULL"
    using table_invD(9,10) [OF t] len by auto
  have d: "distinct (map e_link ([] @ ?all))" "distinct (map e_k ([] @ ?all))"
    using table_inv_concat(2,3) [OF t] by simp_all
  have k: "\<forall>e \<in> set ?all. key_ok ?c1 e"
    using table_invD(8) [OF t] unfolding table_inv_concat(1) [OF t] by (simp add: key_ok_def)
  obtain T h chs' where r: "rehash_slots ?c1 (table c) [0..<length chs] = Some (?c1\<lparr>table := T, links := h\<rparr>)"
      "table_inv (?c1\<lparr>table := T, links := h\<rparr>) ([] @ ?all) chs'"
      "dom (cells h) = dom (cells (links ?c1))" "brk h = brk (links ?c1)"
    using rehash_slots_inv [OF t1 o ch d k] by blast
  have "table_inv (?c1\<lparr>table := T, links := h\<rparr>) G chs'"
    by (rule table_inv_perm [OF r(2)]) (use table_inv_concat(1) [OF t] table_invD(6,7) [OF t] in auto)
  moreover have "?c1\<lparr>table := T, links := h\<rparr> = c\<lparr>table_size := new_size, table := T, links := h\<rparr>"
    by simp
  moreover have "resize_table c new_size = Some (?c1\<lparr>table := T, links := h\<rparr>)"
    using r(1) n(2) len by (simp add: resize_table_def)
  ultimately show ?thesis using r(3,4) by (intro exI [of _ T] exI [of _ h] exI [of _ chs']) simp
qed

end
