(* ===== verification/Cache_Spec.thy ===== *)
theory Cache_Spec
  imports Replacement
begin

text \<open>
  The contract of \<open>src/impl/cache.h\<close> as an abstract data type: a bounded, ordered list of
  key/value pairs, the least recently used first.  The locale \<open>cache_api\<close> states what an
  implementation promises its caller, and proves once what follows for whole runs.
\<close>

section \<open>The abstract cache\<close>

type_synonym entry = "char list \<times> char list"

definition entry_bytes :: "entry list \<Rightarrow> nat" where
  "entry_bytes es = sum_list (map (\<lambda>e. length (snd e)) es)"

definition spec_delete :: "char list \<Rightarrow> entry list \<Rightarrow> entry list" where
  "spec_delete k es = filter (\<lambda>e. fst e \<noteq> k) es"

text \<open>The least recently used entries go until \<open>need\<close> more bytes fit into \<open>cap\<close>.\<close>

definition spec_evict :: "nat \<Rightarrow> nat \<Rightarrow> entry list \<Rightarrow> entry list" where
  "spec_evict cap need es = drop (surplus cap need (map (\<lambda>e. length (snd e)) es)) es"

text \<open>A value larger than the whole cache is not added, but the old one is gone.\<close>

definition spec_set :: "nat \<Rightarrow> char list \<Rightarrow> char list \<Rightarrow> entry list \<Rightarrow> entry list" where
  "spec_set cap k v es =
     (if length v > cap then spec_delete k es
      else spec_evict cap (length v) (spec_delete k es) @ [(k, v)])"

text \<open>A lookup that finds the key makes it the most recently used.\<close>

definition spec_touch :: "char list \<Rightarrow> entry list \<Rightarrow> entry list" where
  "spec_touch k es = (case map_of es k of None \<Rightarrow> es | Some v \<Rightarrow> spec_delete k es @ [(k, v)])"

definition spec_ok :: "nat \<Rightarrow> entry list \<Rightarrow> bool" where
  "spec_ok cap es \<longleftrightarrow> distinct (map fst es) \<and> entry_bytes es \<le> cap"

lemma entry_bytes_simps [simp]:
  "entry_bytes [] = 0" "entry_bytes (e # es) = length (snd e) + entry_bytes es"
  "entry_bytes (es @ fs) = entry_bytes es + entry_bytes fs"
  by (simp_all add: entry_bytes_def)

lemma spec_delete_simps [simp]:
  "spec_delete k [] = []"
  "spec_delete k (e # es) = (if fst e = k then spec_delete k es else e # spec_delete k es)"
  "spec_delete k (es @ fs) = spec_delete k es @ spec_delete k fs"
  by (simp_all add: spec_delete_def)

lemma spec_delete_absent: "k \<notin> fst ` set es \<Longrightarrow> spec_delete k es = es"
  by (induction es) auto

lemma spec_delete_set: "set (spec_delete k es) = {e \<in> set es. fst e \<noteq> k}"
  by (auto simp: spec_delete_def)

lemma spec_delete_notin [simp]: "k \<notin> fst ` set (spec_delete k es)"
  by (auto simp: spec_delete_set)

lemma entry_bytes_delete: "entry_bytes (spec_delete k es) \<le> entry_bytes es"
  by (induction es) auto

lemma map_of_spec_delete:
  "map_of (spec_delete k es) k' = (if k' = k then None else map_of es k')"
  by (induction es) auto

lemma distinct_spec_delete: "distinct (map fst es) \<Longrightarrow> distinct (map fst (spec_delete k es))"
  by (simp add: spec_delete_def distinct_map_filter)

lemma spec_evict_suffix: "\<exists>gone. es = gone @ spec_evict cap need es"
  by (metis append_take_drop_id spec_evict_def)

lemma spec_evict_subset: "set (spec_evict cap need es) \<subseteq> set es"
  by (simp add: spec_evict_def set_drop_subset)

lemma spec_evict_room: "need \<le> cap \<Longrightarrow> entry_bytes (spec_evict cap need es) + need \<le> cap"
  using surplus_room [of need cap "map (\<lambda>e. length (snd e)) es"]
  by (simp add: spec_evict_def entry_bytes_def drop_map)

lemma spec_evict_all_fit: "entry_bytes es + need \<le> cap \<Longrightarrow> spec_evict cap need es = es"
  by (simp add: spec_evict_def entry_bytes_def surplus_zero)

lemma distinct_suffix: "distinct (map fst (gone @ es)) \<Longrightarrow> distinct (map fst es)"
  by simp

lemma spec_set_ok: "spec_ok cap es \<Longrightarrow> spec_ok cap (spec_set cap k v es)"
proof -
  assume ok: "spec_ok cap es"
  let ?d = "spec_delete k es"
  obtain gone where g: "?d = gone @ spec_evict cap (length v) ?d" using spec_evict_suffix by blast
  have dd: "distinct (map fst ?d)" using ok by (simp add: spec_ok_def distinct_spec_delete)
  then have "distinct (map fst (spec_evict cap (length v) ?d))"
    by (metis g distinct_suffix)
  moreover have "k \<notin> fst ` set (spec_evict cap (length v) ?d)"
    using spec_evict_subset [of cap "length v" ?d] spec_delete_notin [of k es] by blast
  ultimately show ?thesis
    using ok dd spec_evict_room [of "length v" cap ?d] entry_bytes_delete [of k es]
    by (auto simp: spec_set_def spec_ok_def)
qed

lemma entry_bytes_split:
  "map_of es k = Some v \<Longrightarrow> entry_bytes (spec_delete k es) + length v \<le> entry_bytes es"
  by (induction es) (auto simp: add.assoc split: if_splits intro: add_mono entry_bytes_delete)

lemma spec_touch_ok:
  assumes "spec_ok cap es"
  shows "spec_ok cap (spec_touch k es)"
proof (cases "map_of es k")
  case None
  with assms show ?thesis by (simp add: spec_touch_def)
next
  case (Some v)
  with assms entry_bytes_split [OF Some] show ?thesis
    by (auto simp: spec_touch_def spec_ok_def distinct_spec_delete spec_delete_set)
qed

lemma map_of_spec_touch: "map_of (spec_touch k es) k' = map_of es k'"
  by (auto simp: spec_touch_def map_of_spec_delete map_add_def split: option.splits)

lemma spec_set_lookup:
  assumes "length v \<le> cap"
  shows "map_of (spec_set cap k v es) k = Some v"
proof -
  have "k \<notin> fst ` set (spec_evict cap (length v) (spec_delete k es))"
    using spec_evict_subset [of cap "length v" "spec_delete k es"] spec_delete_notin [of k es]
    by blast
  with assms show ?thesis
    by (simp add: spec_set_def map_of_append_notin del: map_of_append)
qed

text \<open>What a \<open>set\<close> leaves of the other keys: their old value or nothing (evicted).\<close>

lemma spec_set_other:
  assumes "distinct (map fst es)" and "k' \<noteq> k" and "map_of (spec_set cap k v es) k' = Some w"
  shows "map_of es k' = Some w"
proof -
  have "(k', w) \<in> set (spec_delete k es)"
    using assms(2,3) spec_evict_subset [of cap "length v" "spec_delete k es"]
    by (auto simp: spec_set_def split: if_splits dest!: map_of_SomeD)
  then have "(k', w) \<in> set es" by (simp add: spec_delete_set)
  with assms(1) show ?thesis by simp
qed


section \<open>Operations and runs\<close>

datatype cache_op = Set "char list" "char list" | Get "char list" | Delete "char list"

fun spec_step :: "nat \<Rightarrow> cache_op \<Rightarrow> entry list \<Rightarrow> entry list" where
  "spec_step cap (Set k v) es = spec_set cap k v es"
| "spec_step cap (Get k) es = spec_touch k es"
| "spec_step cap (Delete k) es = spec_delete k es"

fun op_ok :: "cache_op \<Rightarrow> bool" where
  "op_ok (Set k v) \<longleftrightarrow> NUL \<notin> set k \<and> length v < 2 ^ 32"
| "op_ok (Get k) \<longleftrightarrow> NUL \<notin> set k"
| "op_ok (Delete k) \<longleftrightarrow> NUL \<notin> set k"

text \<open>A run of an implementation, given by its three operations on keys and values.\<close>

fun run_ops ::
    "('c \<Rightarrow> char list \<Rightarrow> char list \<Rightarrow> u32 \<Rightarrow> 'c option) \<Rightarrow>
     ('c \<Rightarrow> char list \<Rightarrow> (char list option \<times> u32 \<times> 'c) option) \<Rightarrow>
     ('c \<Rightarrow> char list \<Rightarrow> 'c option) \<Rightarrow> cache_op list \<Rightarrow> 'c \<Rightarrow> 'c option" where
  "run_ops set_op get_op delete_op [] c = Some c"
| "run_ops set_op get_op delete_op (Set k v # ops) c = do {
     c \<leftarrow> set_op c (k @ [NUL]) v (of_nat (length v));
     run_ops set_op get_op delete_op ops c }"
| "run_ops set_op get_op delete_op (Get k # ops) c = do {
     (r, n, c) \<leftarrow> get_op c (k @ [NUL]);
     run_ops set_op get_op delete_op ops c }"
| "run_ops set_op get_op delete_op (Delete k # ops) c = do {
     c \<leftarrow> delete_op c (k @ [NUL]);
     run_ops set_op get_op delete_op ops c }"

lemma spec_step_ok: "spec_ok cap es \<Longrightarrow> spec_ok cap (spec_step cap op es)"
  by (cases op)
    (auto simp: spec_set_ok spec_touch_ok,
      auto simp: spec_ok_def distinct_spec_delete intro: order_trans [OF entry_bytes_delete])

lemma spec_run_ok: "spec_ok cap es \<Longrightarrow> spec_ok cap (fold (spec_step cap) ops es)"
  by (induction ops arbitrary: es) (auto simp: spec_step_ok)

lemma length_spec_delete: "length (spec_delete k es) \<le> length es"
  by (simp add: spec_delete_def)

lemma length_spec_touch: "length (spec_touch k es) \<le> length es"
proof (cases "map_of es k")
  case None
  then show ?thesis by (simp add: spec_touch_def)
next
  case (Some v)
  then have "(k, v) \<in> set es" by (rule map_of_SomeD)
  then have "length (spec_delete k es) < length es"
    unfolding spec_delete_def by (intro length_filter_less) auto
  with Some show ?thesis by (simp add: spec_touch_def)
qed

lemma length_spec_evict: "length (spec_evict cap need es) \<le> length es"
  by (simp add: spec_evict_def)

lemma length_spec_set: "length (spec_set cap k v es) \<le> Suc (length es)"
  using length_spec_delete [of k es] length_spec_evict [of cap "length v" "spec_delete k es"]
  by (auto simp: spec_set_def)

lemma length_spec_step: "length (spec_step cap op es) \<le> Suc (length es)"
  using length_spec_set length_spec_touch length_spec_delete
  by (cases op) (auto intro: le_SucI)

text \<open>
  An unbounded map that never evicts: the cache agrees with it wherever it answers.  A value
  too large for the cache is not stored.
\<close>

fun ideal_step :: "nat \<Rightarrow> cache_op \<Rightarrow> (char list \<rightharpoonup> char list) \<Rightarrow> (char list \<rightharpoonup> char list)" where
  "ideal_step cap (Set k v) m = (if length v \<le> cap then m(k \<mapsto> v) else m(k := None))"
| "ideal_step cap (Get k) m = m"
| "ideal_step cap (Delete k) m = m(k := None)"

lemma ideal_step_le:
  assumes ok: "spec_ok cap es" and le: "map_of es \<subseteq>\<^sub>m m"
  shows "map_of (spec_step cap op es) \<subseteq>\<^sub>m ideal_step cap op m"
proof (cases op)
  case (Set k v)
  have d: "distinct (map fst es)" using ok by (simp add: spec_ok_def)
  have other: "map_of (spec_set cap k v es) k' = Some w \<Longrightarrow> k' \<noteq> k \<Longrightarrow> m k' = Some w" for k' w
    using spec_set_other [OF d] le by (metis domI map_le_def)
  have "map_of (spec_set cap k v es) k = (if length v \<le> cap then Some v else None)"
    by (auto simp: spec_set_lookup) (auto simp: spec_set_def map_of_spec_delete)
  with other Set show ?thesis by (auto simp: map_le_def)
next
  case (Get k)
  with le show ?thesis by (simp add: map_le_def map_of_spec_touch dom_def)
next
  case (Delete k)
  with le show ?thesis by (auto simp: map_le_def map_of_spec_delete split: if_splits)
qed

lemma spec_run_le:
  "spec_ok cap es \<Longrightarrow> map_of es \<subseteq>\<^sub>m m \<Longrightarrow>
   map_of (fold (spec_step cap) ops es) \<subseteq>\<^sub>m fold (ideal_step cap) ops m"
  by (induction ops arbitrary: es m) (auto simp: spec_step_ok ideal_step_le)

section \<open>The contract\<close>

text \<open>
  Keys come as C strings, values as buffers with a size.  \<open>slots\<close> bounds the memory of the
  table itself: a \<open>set\<close> can make it grow, and it must stay below \<open>2 ^ 60\<close>.
\<close>

locale cache_api =
  fixes holds :: "'c \<Rightarrow> entry list \<Rightarrow> bool"
    and capacity :: "'c \<Rightarrow> nat"
    and slots :: "'c \<Rightarrow> nat"
    and create :: "u64 \<Rightarrow> 'h \<Rightarrow> 'c"
    and hash_valid :: "'h \<Rightarrow> bool"
    and set_op :: "'c \<Rightarrow> char list \<Rightarrow> char list \<Rightarrow> u32 \<Rightarrow> 'c option"
    and get_op :: "'c \<Rightarrow> char list \<Rightarrow> (char list option \<times> u32 \<times> 'c) option"
    and delete_op :: "'c \<Rightarrow> char list \<Rightarrow> 'c option"
    and space_op :: "'c \<Rightarrow> u64"
    and destroy_op :: "'c \<Rightarrow> 'c option"
    and destroyed :: "'c \<Rightarrow> bool"
    and max_capacity :: nat
    and init_slots :: nat
  assumes holds_create:
      "unat m \<le> max_capacity \<Longrightarrow> hash_valid h \<Longrightarrow>
       holds (create m h) [] \<and> capacity (create m h) = unat m \<and> slots (create m h) = init_slots"
    and holds_ok: "holds c es \<Longrightarrow> spec_ok (capacity c) es"
    and holds_set:
      "holds c es \<Longrightarrow> c_string kb = Some k \<Longrightarrow> unat n \<le> length vb \<Longrightarrow> slots c < 2 ^ 60 \<Longrightarrow>
       \<exists>c'. set_op c kb vb n = Some c' \<and> holds c' (spec_set (capacity c) k (take (unat n) vb) es) \<and>
         capacity c' = capacity c \<and> slots c' \<le> max (slots c) (4 * Suc (length es))"
    and holds_get:
      "holds c es \<Longrightarrow> c_string kb = Some k \<Longrightarrow>
       \<exists>c'. get_op c kb = Some (map_of es k,
           (case map_of es k of None \<Rightarrow> 0 | Some v \<Rightarrow> of_nat (length v)), c') \<and>
         holds c' (spec_touch k es) \<and> capacity c' = capacity c \<and> slots c' = slots c"
    and holds_delete:
      "holds c es \<Longrightarrow> c_string kb = Some k \<Longrightarrow>
       \<exists>c'. delete_op c kb = Some c' \<and> holds c' (spec_delete k es) \<and>
         capacity c' = capacity c \<and> slots c' = slots c"
    and holds_space: "holds c es \<Longrightarrow> unat (space_op c) = entry_bytes es"
    and holds_destroy: "holds c es \<Longrightarrow> \<exists>c'. destroy_op c = Some c' \<and> destroyed c'"
begin

abbreviation run :: "cache_op list \<Rightarrow> 'c \<Rightarrow> 'c option" where
  "run \<equiv> run_ops set_op get_op delete_op"

lemma run_refines:
  assumes "holds c es" and "\<forall>op \<in> set ops. op_ok op"
    and "slots c < 2 ^ 60" and "4 * (length es + length ops) < 2 ^ 60"
  shows "\<exists>c'. run ops c = Some c' \<and> holds c' (fold (spec_step (capacity c)) ops es) \<and>
    capacity c' = capacity c"
  using assms
proof (induction ops arbitrary: c es)
  case Nil
  then show ?case by simp
next
  case (Cons op ops)
  have "\<exists>c1. run (op # ops) c = run ops c1 \<and> holds c1 (spec_step (capacity c) op es) \<and>
    capacity c1 = capacity c \<and> slots c1 < 2 ^ 60"
  proof (cases op)
    case (Set k v)
    have u: "unat (of_nat (length v) :: u32) = length v"
      using Cons.prems(2) Set by (simp add: unat_of_nat take_bit_nat_eq_self)
    then obtain c1 where "set_op c (k @ [NUL]) v (of_nat (length v)) = Some c1"
        "holds c1 (spec_set (capacity c) k v es)" "capacity c1 = capacity c"
        "slots c1 \<le> max (slots c) (4 * Suc (length es))"
      using holds_set [OF Cons.prems(1), of "k @ [NUL]" k "of_nat (length v)" v]
        Cons.prems(2,3) Set by auto
    then show ?thesis using Cons.prems(3,4) Set by auto
  next
    case (Get k)
    then show ?thesis
      using holds_get [OF Cons.prems(1), of "k @ [NUL]" k] Cons.prems(2,3) by auto
  next
    case (Delete k)
    then show ?thesis
      using holds_delete [OF Cons.prems(1), of "k @ [NUL]" k] Cons.prems(2,3) by auto
  qed
  then obtain c1 where c1: "run (op # ops) c = run ops c1"
      "holds c1 (spec_step (capacity c) op es)" "capacity c1 = capacity c" "slots c1 < 2 ^ 60"
    by blast
  have "4 * (length (spec_step (capacity c) op es) + length ops) < 2 ^ 60"
    using Cons.prems(4) length_spec_step [of "capacity c" op es] by simp
  with Cons.IH [OF c1(2) _ c1(4)] Cons.prems(2) c1 show ?case by simp
qed

text \<open>From a new cache: no run goes wrong, the bound is kept, no answer is stale.\<close>

lemma run_from_new:
  assumes "unat m \<le> max_capacity" and "hash_valid h" and "\<forall>op \<in> set ops. op_ok op"
    and "init_slots < 2 ^ 60" and "length ops < 2 ^ 58"
  shows "\<exists>c es. run ops (create m h) = Some c \<and> holds c es \<and> unat (space_op c) \<le> unat m \<and>
    map_of es \<subseteq>\<^sub>m fold (ideal_step (unat m)) ops Map.empty"
proof -
  have n: "holds (create m h) []" "capacity (create m h) = unat m" "slots (create m h) = init_slots"
    using holds_create [OF assms(1,2)] by simp_all
  let ?es = "fold (spec_step (unat m)) ops []"
  obtain c where c: "run ops (create m h) = Some c" "holds c ?es" "capacity c = unat m"
    using run_refines [OF n(1) assms(3)] n(2,3) assms(4,5) by auto
  have "unat (space_op c) \<le> unat m"
    using holds_space [OF c(2)] holds_ok [OF c(2)] c(3) by (simp add: spec_ok_def)
  moreover have "map_of ?es \<subseteq>\<^sub>m fold (ideal_step (unat m)) ops Map.empty"
    by (rule spec_run_le) (auto simp: spec_ok_def)
  ultimately show ?thesis using c by blast
qed

text \<open>A \<open>get\<close> right after a \<open>set\<close> of a value that fits returns the value and its size.\<close>

lemma get_after_set:
  assumes "holds c es" and "c_string kb = Some k" and "c_string kb' = Some k"
    and "unat n \<le> length vb" and "unat n \<le> capacity c" and "slots c < 2 ^ 60"
  shows "\<exists>c1 c2. set_op c kb vb n = Some c1 \<and>
    get_op c1 kb' = Some (Some (take (unat n) vb), n, c2)"
proof -
  obtain c1 where c1: "set_op c kb vb n = Some c1"
      "holds c1 (spec_set (capacity c) k (take (unat n) vb) es)"
    using holds_set [OF assms(1,2,4,6)] by blast
  have l: "length (take (unat n) vb) = unat n" using assms(4) by simp
  then have "map_of (spec_set (capacity c) k (take (unat n) vb) es) k = Some (take (unat n) vb)"
    by (intro spec_set_lookup) (simp add: assms(5))
  with holds_get [OF c1(2) assms(3)] l c1(1) show ?thesis by auto
qed

lemma get_after_delete:
  assumes "holds c es" and "c_string kb = Some k" and "c_string kb' = Some k"
  shows "\<exists>c1 c2. delete_op c kb = Some c1 \<and> get_op c1 kb' = Some (None, 0, c2)"
proof -
  obtain c1 where c1: "delete_op c kb = Some c1" "holds c1 (spec_delete k es)"
    using holds_delete [OF assms(1,2)] by blast
  with holds_get [OF c1(2) assms(3)] show ?thesis by (auto simp: map_of_spec_delete)
qed

end

end
