(* ===== verification/Hash_Cache_Correct.thy ===== *)
theory Hash_Cache_Correct
  imports Hash_Cache_Chains Cache_Spec
begin

text \<open>
  The invariant of the whole cache object (table, buffers, policy and the accounts agree, and
  nothing is leaked), that every operation of \<open>hash_cache.c\<close> keeps it and never goes wrong,
  and that it implements the abstract cache of \<open>Cache_Spec\<close>.
\<close>

section \<open>The invariant\<close>

definition item_of :: "ent \<Rightarrow> item" where
  "item_of e = (e_info e, Some (e_key e), of_nat (length (e_v e)))"

definition entry_of :: "ent \<Rightarrow> entry" where
  "entry_of e = (e_k e, e_v e)"

lemma item_of_sel [simp]:
  "handle (item_of e) = e_info e" "ident_of (item_of e) = Some (e_key e)"
  "snd (snd (item_of e)) = of_nat (length (e_v e))"
  by (simp_all add: item_of_def)

lemma entry_of_sel [simp]: "fst (entry_of e) = e_k e" "snd (entry_of e) = e_v e"
  by (simp_all add: entry_of_def)

definition bufs_inv :: "cache_obj \<Rightarrow> ent list \<Rightarrow> bool" where
  "bufs_inv c G \<longleftrightarrow> heap_ok (bufs c) \<and>
     dom (cells (bufs c)) = e_key ` set G \<union> e_val ` set G \<and>
     distinct (map e_key G @ map e_val G) \<and>
     (\<forall>e \<in> set G. cells (bufs c) (e_val e) = Some (e_v e) \<and> length (e_v e) < 2 ^ 32)"

text \<open>\<open>G\<close> lists the entries from the least to the most recently used.\<close>

definition cache_inv :: "cache_obj \<Rightarrow> ent list \<Rightarrow> bool" where
  "cache_inv c G \<longleftrightarrow> (\<exists>chs. table_inv c G chs) \<and> dom (cells (links c)) = e_link ` set G \<and>
     bufs_inv c G \<and> lru (evic_policy c) (map item_of G) \<and>
     policy_maxmem (evic_policy c) = maxmem c \<and> used_mem (evic_policy c) = mem_used c \<and>
     unat (num_elements c) = length G \<and> 2 * length G \<le> unat (table_size c)"

lemma cache_invD:
  assumes "cache_inv c G"
  shows "dom (cells (links c)) = e_link ` set G" "bufs_inv c G"
    "lru (evic_policy c) (map item_of G)" "policy_maxmem (evic_policy c) = maxmem c"
    "used_mem (evic_policy c) = mem_used c" "unat (num_elements c) = length G"
    "2 * length G \<le> unat (table_size c)"
  using assms by (auto simp: cache_inv_def)

lemma cache_inv_table:
  assumes "cache_inv c G"
  obtains chs where "table_inv c G chs"
  using assms by (auto simp: cache_inv_def)

text \<open>The parts no operation but \<open>create_cache\<close> changes.\<close>

definition same_shape :: "cache_obj \<Rightarrow> cache_obj \<Rightarrow> bool" where
  "same_shape c c' \<longleftrightarrow> maxmem c' = maxmem c \<and> table_size c' = table_size c \<and> h_fn c' = h_fn c"

lemma same_shape_refl [simp]: "same_shape c c"
  by (simp add: same_shape_def)

lemma same_shape_trans: "same_shape a b \<Longrightarrow> same_shape b c \<Longrightarrow> same_shape a c"
  by (simp add: same_shape_def)

lemma unat_length_u32 [simp]: "n < 2 ^ 32 \<Longrightarrow> unat (of_nat n :: u32) = n"
  by (simp add: unat_of_nat take_bit_nat_eq_self)

lemma total_items:
  "\<forall>e \<in> set G. length (e_v e) < 2 ^ 32 \<Longrightarrow> total (map item_of G) = entry_bytes (map entry_of G)"
  by (induction G) auto

lemma sizes_items:
  "\<forall>e \<in> set G. length (e_v e) < 2 ^ 32 \<Longrightarrow>
   sizes (map item_of G) = map (\<lambda>e. length (snd e)) (map entry_of G)"
  by (induction G) auto

lemma cache_inv_lengths: "cache_inv c G \<Longrightarrow> \<forall>e \<in> set G. length (e_v e) < 2 ^ 32"
  by (auto simp: cache_inv_def bufs_inv_def)

lemma cache_inv_distinct_keys: "cache_inv c G \<Longrightarrow> distinct (map e_k G)"
  by (auto simp: cache_inv_def dest: table_invD(7))

lemma cache_inv_key_ok: "cache_inv c G \<Longrightarrow> e \<in> set G \<Longrightarrow> key_ok c e"
  by (auto simp: cache_inv_def dest: table_invD(8))

lemma cache_inv_total: "cache_inv c G \<Longrightarrow> total (map item_of G) = entry_bytes (map entry_of G)"
  by (rule total_items) (rule cache_inv_lengths)

lemma cache_inv_space: "cache_inv c G \<Longrightarrow> unat (mem_used c) = entry_bytes (map entry_of G)"
  using cache_inv_total [of c G] cache_invD(3,5) [of c G] by (simp add: lru_def)

lemma cache_inv_within: "cache_inv c G \<Longrightarrow> entry_bytes (map entry_of G) \<le> unat (maxmem c)"
  using cache_inv_total [of c G] cache_invD(3,4) [of c G] by (simp add: lru_def)

section \<open>Creation\<close>

lemma cache_inv_create:
  assumes "unat m \<le> max_capacity" and "\<And>f. h = Some f \<Longrightarrow> hash_ok f"
  shows "cache_inv (create_cache m h) []"
proof -
  have "hash_ok (h_fn (create_cache m h))"
    using assms(2) hash_ok_def_hash_fn by (simp add: create_cache_def split: option.split)
  then have "table_inv (create_cache m h) [] (replicate (unat default_table_size) [])"
    using table_inv_empty [of "create_cache m h"]
    by (simp add: create_cache_def default_table_size_def)
  then show ?thesis
    using lru_create_policy [OF assms(1)]
    by (auto simp: cache_inv_def bufs_inv_def create_cache_def create_policy_def)
qed

section \<open>Deletion\<close>

lemma bufs_inv_delete:
  assumes b: "bufs_inv c (xs @ e # ys)" and k: "\<forall>e' \<in> set (xs @ e # ys). key_ok c e'"
  obtains b' b'' where "release (bufs c) (Some (e_key e)) = Some b'"
    "release b' (Some (e_val e)) = Some b''" "bufs_inv (c\<lparr>bufs := b''\<rparr>) (xs @ ys)"
    "\<And>e'. e' \<in> set (xs @ ys) \<Longrightarrow> cells b'' (e_key e') = cells (bufs c) (e_key e')"
proof -
  let ?b' = "(bufs c)\<lparr>cells := (cells (bufs c))(e_key e := None)\<rparr>"
  let ?b'' = "?b'\<lparr>cells := (cells ?b')(e_val e := None)\<rparr>"
  have d: "distinct (map e_key (xs @ e # ys) @ map e_val (xs @ e # ys))"
    and dm: "dom (cells (bufs c)) = e_key ` set (xs @ e # ys) \<union> e_val ` set (xs @ e # ys)"
    and ok: "heap_ok (bufs c)"
    and v: "\<forall>e' \<in> set (xs @ e # ys). cells (bufs c) (e_val e') = Some (e_v e') \<and>
      length (e_v e') < 2 ^ 32"
    using b unfolding bufs_inv_def by blast+
  have ne: "e_key e \<noteq> e_val e" using d by auto
  have r: "release (bufs c) (Some (e_key e)) = Some ?b'"
    using k by (intro release_alloc) (auto simp: key_ok_def)
  have r': "release ?b' (Some (e_val e)) = Some ?b''"
    using v ne by (intro release_alloc) auto
  have nk: "e_key e' \<noteq> e_key e" "e_key e' \<noteq> e_val e" "e_val e' \<noteq> e_key e" "e_val e' \<noteq> e_val e"
    if "e' \<in> set (xs @ ys)" for e'
    using d that by (auto simp: image_iff)
  let ?S = "e_key ` set (xs @ ys) \<union> e_val ` set (xs @ ys)"
  have "dom (cells ?b'') = ?S"
  proof -
    have "dom (cells ?b'') = dom (cells (bufs c)) - {e_key e, e_val e}" by auto
    also have "\<dots> = insert (e_key e) (insert (e_val e) ?S) - {e_key e, e_val e}"
      unfolding dm by auto
    also have "\<dots> = ?S" using d by auto
    finally show ?thesis .
  qed
  then have "bufs_inv (c\<lparr>bufs := ?b''\<rparr>) (xs @ ys)"
    using d ok v nk by (auto simp: bufs_inv_def heap_ok_def)
  with r r' nk show ?thesis by (intro that [of ?b' ?b'']) auto
qed


lemma del_link_entry:
  assumes inv: "cache_inv c (xs @ e # ys)" and t: "table_inv c (xs @ e # ys) chs"
    and i: "i < length chs" and chi: "chs ! i = as @ e # bs"
  shows "\<exists>c'. del_link c (loc_after i as) = Some c' \<and> cache_inv c' (xs @ ys) \<and> same_shape c c' \<and>
    table_inv c' (xs @ ys) (chs[i := as @ bs]) \<and> brk (links c') = brk (links c)"
proof -
  let ?G = "xs @ e # ys"
  note I = cache_invD [OF inv]
  obtain T h where u: "read_loc c (loc_after i as) = Some (Some (e_link e))"
      "cells (links c) (e_link e) = Some \<lparr>kv = kv_of e, next_link = eptr bs NULL\<rparr>"
      "write_loc c (loc_after i as) (eptr bs NULL) = Some (c\<lparr>table := T, links := h\<rparr>)"
      "table_inv (c\<lparr>table := T, links := h\<rparr>) (xs @ ys) (chs[i := as @ bs])"
      "cells h (e_link e) = cells (links c) (e_link e)"
      "dom (cells h) = dom (cells (links c))" "brk h = brk (links c)"
    using table_inv_unlink [OF t i chi] by metis
  obtain b' b'' where b: "release (bufs c) (Some (e_key e)) = Some b'"
      "release b' (Some (e_val e)) = Some b''" "bufs_inv (c\<lparr>bufs := b''\<rparr>) (xs @ ys)"
      "\<And>e'. e' \<in> set (xs @ ys) \<Longrightarrow> cells b'' (e_key e') = cells (bufs c) (e_key e')"
    using bufs_inv_delete [OF I(2)] cache_inv_key_ok [OF inv] by metis
  obtain q where q: "delete_info (evic_policy c) (Some (e_info e)) = Some q"
      "lru q (map item_of (xs @ ys))" "policy_maxmem q = policy_maxmem (evic_policy c)"
    using lru_delete_info [of "evic_policy c" "map item_of xs" "item_of e" "map item_of ys"] I(3)
    by auto
  let ?h = "h\<lparr>cells := (cells h)(e_link e := None)\<rparr>"
  define c' where "c' = c\<lparr>table := T, mem_used := mem_used c - of_nat (length (e_v e)),
    num_elements := num_elements c - 1, bufs := b'', evic_policy := q, links := ?h\<rparr>"
  have len: "length (e_v e) < 2 ^ 32" using cache_inv_lengths [OF inv] by simp
  have uc: "ucast (of_nat (length (e_v e)) :: u32) = (of_nat (length (e_v e)) :: u64)"
    using len by (intro word_unat_eq_iff [THEN iffD2])
      (simp add: unat_of_nat take_bit_nat_eq_self)
  have "del_link c (loc_after i as) = Some c'"
    using u(1-3,5) b(1,2) q(1) uc by (simp add: del_link_def c'_def release_alloc)
  moreover have nolink: "e_link e' \<noteq> e_link e" if "e' \<in> set (xs @ ys)" for e'
    using table_invD(6) [OF t] that by (auto simp: image_iff)
  then have t': "table_inv c' (xs @ ys) (chs[i := as @ bs])"
    using table_invD(5) [OF u(4)] b(4)
    by (intro table_inv_cong [OF u(4)]) (simp_all add: c'_def heap_ok_del)
  moreover have "dom (cells (links c')) = e_link ` set (xs @ ys)"
  proof -
    have "dom (cells (links c')) = insert (e_link e) (e_link ` set (xs @ ys)) - {e_link e}"
      using u(6) I(1) by (simp add: c'_def)
    also have "\<dots> = e_link ` set (xs @ ys)" using nolink by fastforce
    finally show ?thesis .
  qed
  moreover have "bufs_inv c' (xs @ ys)" using b(3) by (simp add: bufs_inv_def c'_def)
  moreover have "used_mem q = mem_used c'"
  proof -
    have "unat (used_mem q) = total (map item_of (xs @ ys))" using q(2) by (simp add: lru_def)
    moreover have "unat (mem_used c) = total (map item_of ?G)"
      using I(3,5) by (simp add: lru_def)
    moreover have "unat (of_nat (length (e_v e)) :: u64) = length (e_v e)"
      using len by (simp add: unat_of_nat take_bit_nat_eq_self)
    ultimately have "unat (used_mem q) = unat (mem_used c')"
      using len unat_sub_size [of "of_nat (length (e_v e))" "mem_used c"] uc by (simp add: c'_def)
    then show ?thesis by (simp only: word_unat_eq_iff)
  qed
  moreover have "unat (num_elements c') = length (xs @ ys)"
    using I(6) by (simp add: c'_def unat_minus_one unat_gt_0 [symmetric])
  moreover have "brk (links c') = brk (links c)" using u(7) by (simp add: c'_def)
  ultimately show ?thesis
    using q(2,3) I(4,7) by (intro exI [of _ c']) (auto simp: cache_inv_def same_shape_def c'_def)
qed


definition others :: "char list \<Rightarrow> ent list \<Rightarrow> ent list" where
  "others k G = filter (\<lambda>e. e_k e \<noteq> k) G"

lemma others_absent: "k \<notin> e_k ` set G \<Longrightarrow> others k G = G"
  by (induction G) (auto simp: others_def)

lemma others_split:
  assumes "distinct (map e_k (xs @ e # ys))" and "e_k e = k"
  shows "others k (xs @ e # ys) = xs @ ys"
proof -
  have "others k xs = xs" "others k ys = ys"
    using assms by (auto intro!: others_absent)
  with assms(2) show ?thesis by (simp add: others_def)
qed

lemma entries_others: "map entry_of (others k G) = spec_delete k (map entry_of G)"
  by (induction G) (auto simp: others_def)

text \<open>Where \<open>querry_hash\<close> ends: at the entry with the key, or at a NULL.\<close>

lemma querry_hash_cases:
  assumes inv: "cache_inv c G" and k: "c_string buf = Some k"
  obtains (absent) spot where "k \<notin> e_k ` set G" "querry_hash c buf = Some spot"
      "read_loc c spot = Some NULL"
  | (present) xs e ys chs i as bs where "G = xs @ e # ys" "e_k e = k" "table_inv c G chs"
      "i < length chs" "chs ! i = as @ e # bs" "querry_hash c buf = Some (loc_after i as)"
      "read_loc c (loc_after i as) = Some (Some (e_link e))"
      "\<exists>n. cells (links c) (e_link e) = Some \<lparr>kv = kv_of e, next_link = n\<rparr>"
proof -
  obtain chs where t: "table_inv c G chs" using cache_inv_table [OF inv] .
  obtain i where s: "slot c k = Some i" and i: "i < length chs"
    using table_inv_slot [OF t c_string_no_nul [OF k]] .
  have q: "querry_hash c buf = Some (loc_after i (before (chs ! i) k))"
    by (rule querry_hash_finds [OF t k s])
  have ti: "i < length (table c)" using i table_invD(2) [OF t] by simp
  show ?thesis
  proof (cases "k \<in> e_k ` set G")
    case True
    then obtain e where e: "e \<in> set G" "e_k e = k" by auto
    then obtain xs ys where G: "G = xs @ e # ys" by (meson split_list)
    have ei: "e \<in> set (chs ! i)" using table_invD(12) [OF t i] e s by simp
    have "inj_on e_k (set (chs ! i))"
      using table_invD(7) [OF t] table_invD(12) [OF t i] by (auto simp: distinct_map inj_on_def)
    then have "distinct (map e_k (chs ! i))"
      using table_invD(11) [OF t i] by (simp add: distinct_map)
    then obtain bs where bs: "chs ! i = before (chs ! i) k @ e # bs"
      using before_split [OF _ ei e(2)] by blast
    let ?as = "before (chs ! i) k"
    have ch: "table c ! i = eptr (?as @ e # bs) NULL" "chain (cells (links c)) (?as @ e # bs) NULL"
      using table_invD(9,10) [OF t i] bs by metis+
    then have "read_loc c (loc_after i ?as) = Some (Some (e_link e))"
      "\<exists>n. cells (links c) (e_link e) = Some \<lparr>kv = kv_of e, next_link = n\<rparr>"
      using read_loc_after [OF ti ch] by auto
    then show ?thesis using present [OF G e(2) t i bs q] by blast
  next
    case False
    then have "before (chs ! i) k = chs ! i"
      using table_invD(12) [OF t i] by (intro before_all) auto
    moreover have "read_loc c (loc_after i (chs ! i)) = Some NULL"
      using read_loc_after [OF ti, of "chs ! i" "[]"] table_invD(9,10) [OF t i] by simp
    ultimately show ?thesis using absent [OF False q] by simp
  qed
qed

lemma del_link_at_key:
  assumes inv: "cache_inv c G" and k: "c_string buf = Some k"
    and q: "querry_hash c buf = Some spot"
  shows "\<exists>c'. del_link c spot = Some c' \<and> cache_inv c' (others k G) \<and> same_shape c c'"
  using inv k
proof (cases rule: querry_hash_cases)
  case (absent spot')
  then have "del_link c spot = Some c" using q by (simp add: del_link_def)
  with inv absent(1) show ?thesis by (simp add: others_absent)
next
  case (present xs e ys chs i as bs)
  have "others k G = xs @ ys"
    using others_split cache_inv_distinct_keys [OF inv] present(1,2) by blast
  with del_link_entry [of c xs e ys chs i as bs] inv present q show ?thesis by auto
qed

lemma cache_delete_inv:
  assumes inv: "cache_inv c G" and k: "c_string buf = Some k"
  shows "\<exists>c'. cache_delete c buf = Some c' \<and> cache_inv c' (others k G) \<and> same_shape c c'"
proof -
  obtain spot where q: "querry_hash c buf = Some spot"
    using querry_hash_cases [OF inv k] by metis
  with del_link_at_key [OF inv k q] show ?thesis by (simp add: cache_delete_def)
qed

section \<open>Eviction\<close>

lemma evict_all_inv:
  "cache_inv c (gone @ G) \<Longrightarrow>
   \<exists>c'. evict_all c (map (\<lambda>e. Some (e_key e)) gone) = Some c' \<and> cache_inv c' G \<and> same_shape c c'"
proof (induction gone arbitrary: c)
  case Nil
  then show ?case by simp
next
  case (Cons e gone)
  have k: "key_ok c e" using cache_inv_key_ok [OF Cons.prems] by simp
  then have cs: "c_string (e_k e @ [NUL]) = Some (e_k e)" by (simp add: key_ok_def)
  have "others (e_k e) ((e # gone) @ G) = gone @ G"
    using others_split [of "[]" e "gone @ G"] cache_inv_distinct_keys [OF Cons.prems] by simp
  then obtain c1 where c1: "cache_delete c (e_k e @ [NUL]) = Some c1" "cache_inv c1 (gone @ G)"
      "same_shape c c1"
    using cache_delete_inv [OF Cons.prems cs] by auto
  from Cons.IH [OF c1(2)] c1 k show ?case
    by (auto simp: key_ok_def dest: same_shape_trans)
qed

text \<open>The number of entries fits into a \<open>size_t\<close>, by the load factor.\<close>

lemma cache_inv_short: "cache_inv c G \<Longrightarrow> length G < 2 ^ 64"
proof -
  assume "cache_inv c G"
  then have "2 * length G \<le> unat (table_size c)" by (rule cache_invD)
  moreover have "unat (table_size c) < 2 ^ LENGTH(64)" by (rule unsigned_less)
  ultimately show ?thesis by simp
qed

lemma should_add_evict_deletions_inv:
  assumes inv: "cache_inv c G"
  shows "\<exists>c' G'. should_add_evict_deletions c n = Some (unat n \<le> unat (maxmem c), c') \<and>
    cache_inv c' G' \<and> same_shape c c' \<and> (\<exists>gone. G = gone @ G') \<and>
    map entry_of G' = (if unat n > unat (maxmem c) then map entry_of G
      else spec_evict (unat (maxmem c)) (unat n) (map entry_of G))"
proof -
  have cap: "policy_maxmem (evic_policy c) = maxmem c" using cache_invD(4) [OF inv] .
  have ids: "ids_to_delete_if_added (evic_policy c) n =
    Some (if unat n > unat (maxmem c) then \<lparr>data = [], should_add = False\<rparr>
          else \<lparr>data = map ident_of (take (surplus (unat (maxmem c)) (unat n)
                  (sizes (map item_of G))) (map item_of G)), should_add = True\<rparr>)"
    using lru_policy.holds_ids [OF cache_invD(3) [OF inv], of n] cache_inv_short [OF inv] cap
    by simp
  show ?thesis
  proof (cases "unat n > unat (maxmem c)")
    case True
    with ids have "should_add_evict_deletions c n = Some (unat n \<le> unat (maxmem c), c)"
      by (simp add: should_add_evict_deletions_def)
    with True inv show ?thesis by (intro exI [of _ c] exI [of _ G]) simp
  next
    case False
    define j where "j = surplus (unat (maxmem c)) (unat n) (sizes (map item_of G))"
    have "cache_inv c (take j G @ drop j G)" using inv by simp
    from evict_all_inv [OF this] obtain c' where
      c': "evict_all c (map (\<lambda>e. Some (e_key e)) (take j G)) = Some c'" "cache_inv c' (drop j G)"
        "same_shape c c'" by blast
    have "map ident_of (take j (map item_of G)) = map (\<lambda>e. Some (e_key e)) (take j G)"
      by (simp add: take_map)
    then have "should_add_evict_deletions c n = Some (unat n \<le> unat (maxmem c), c')"
      using ids [folded j_def] False c'(1) by (simp add: should_add_evict_deletions_def)
    moreover have "map entry_of (drop j G) =
        spec_evict (unat (maxmem c)) (unat n) (map entry_of G)"
      unfolding spec_evict_def j_def sizes_items [OF cache_inv_lengths [OF inv]] by (simp add: drop_map)
    ultimately show ?thesis using c' False
      by (intro exI [of _ c'] exI [of _ "drop j G"]) (metis append_take_drop_id)
  qed
qed


section \<open>Adding\<close>

text \<open>
  \<open>assign_to_link\<close> links a blank node and then fills it; linking a filled node is the same.
\<close>

lemma assign_to_link_fresh:
  fixes d :: key_val_obj
  assumes r: "read_loc c spot = Some NULL" and ok: "heap_ok (links c)"
  defines "n \<equiv> brk (links c)"
  defines "c2 \<equiv> c\<lparr>links := (links c)\<lparr>cells := (cells (links c))(n \<mapsto> \<lparr>kv = d, next_link = NULL\<rparr>),
    brk := Suc n\<rparr>\<rparr>"
  shows "assign_to_link c spot d = write_loc c2 spot (Some n)"
proof (cases spot)
  case (Slot i)
  with r show ?thesis
    by (auto simp: assign_to_link_def read_loc_def write_loc_def alloc_def modify_Some
        c2_def n_def split: if_splits)
next
  case (Next a)
  then obtain l where l: "cells (links c) a = Some l" using r by (auto simp: read_loc_def)
  then have "a \<noteq> n" using heap_ok_less [OF ok] by (auto simp: n_def)
  with Next l r show ?thesis
    by (simp add: assign_to_link_def read_loc_def write_loc_def alloc_def modify_Some
        c2_def n_def [symmetric] fun_upd_twist [of a n])
qed

lemma querry_hash_same:
  assumes "table_inv c G chs" and "table_inv c' G chs" and "c_string buf = Some k"
    and "h_fn c' = h_fn c" and "table_size c' = table_size c"
  shows "querry_hash c' buf = querry_hash c buf"
proof -
  obtain i where s: "slot c k = Some i"
    using table_inv_slot [OF assms(1) c_string_no_nul [OF assms(3)]] by metis
  then have "slot c' k = Some i" using slot_cong [OF assms(4,5)] by simp
  with querry_hash_finds [OF assms(1,3) s] querry_hash_finds [OF assms(2,3)] show ?thesis by simp
qed

lemma absent_place:
  assumes t: "table_inv c G chs" and k: "c_string buf = Some k" and fresh: "k \<notin> e_k ` set G"
    and q: "querry_hash c buf = Some spot"
  shows "read_loc c spot = Some NULL"
proof -
  obtain i where s: "slot c k = Some i" and i: "i < length chs"
    using table_inv_slot [OF t c_string_no_nul [OF k]] .
  have ti: "i < length (table c)" using i table_invD(2) [OF t] by simp
  have "before (chs ! i) k = chs ! i"
    using table_invD(12) [OF t i] fresh by (intro before_all) auto
  with q have "spot = loc_after i (chs ! i)" using querry_hash_finds [OF t k s] by simp
  then show ?thesis
    using read_loc_after [OF ti, of "chs ! i" "[]"] table_invD(9,10) [OF t i] by simp
qed

lemma bufs_inv_add:
  assumes b: "bufs_inv c G" and k: "\<forall>e \<in> set G. key_ok c e"
    and e: "e_key e = brk (bufs c)" "e_val e = Suc (brk (bufs c))" "length (e_v e) < 2 ^ 32"
  defines "b2 \<equiv> (bufs c)\<lparr>cells := (cells (bufs c))(e_key e \<mapsto> e_k e @ [NUL], e_val e \<mapsto> e_v e),
    brk := Suc (Suc (brk (bufs c)))\<rparr>"
  shows "bufs_inv (c\<lparr>bufs := b2\<rparr>) (G @ [e])"
    and "e' \<in> set G \<Longrightarrow> cells b2 (e_key e') = cells (bufs c) (e_key e')"
proof -
  have dm: "dom (cells (bufs c)) = e_key ` set G \<union> e_val ` set G" and ok: "heap_ok (bufs c)"
    using b by (auto simp: bufs_inv_def)
  have less: "a < brk (bufs c)" if "a \<in> e_key ` set G \<union> e_val ` set G" for a
    using that ok unfolding dm [symmetric] by (auto simp: heap_ok_def)
  then have lk: "e_key e' < brk (bufs c)" "e_val e' < brk (bufs c)" if "e' \<in> set G" for e'
    using that by auto
  show "e' \<in> set G \<Longrightarrow> cells b2 (e_key e') = cells (bufs c) (e_key e')"
    using lk(1) [of e'] e by (simp add: b2_def)
  have "dom (cells b2) = e_key ` set (G @ [e]) \<union> e_val ` set (G @ [e])"
    using dm by (auto simp: b2_def)
  moreover have "heap_ok b2"
    using e heap_ok_less [OF ok] by (fastforce simp: heap_ok_def b2_def intro: less_SucI)
  moreover have "distinct (map e_key (G @ [e]) @ map e_val (G @ [e]))"
    using b lk e by (fastforce simp: bufs_inv_def)
  ultimately show "bufs_inv (c\<lparr>bufs := b2\<rparr>) (G @ [e])"
    unfolding bufs_inv_def
  proof (intro conjI ballI)
    fix e' assume "e' \<in> set (G @ [e])"
    then show "cells (bufs (c\<lparr>bufs := b2\<rparr>)) (e_val e') = Some (e_v e')" "length (e_v e') < 2 ^ 32"
      using b e lk(2) [of e'] by (auto simp: bufs_inv_def b2_def)
  qed simp_all
qed


lemma resize_if_full:
  assumes t: "table_inv c G chs" and "dom (cells (links c)) = e_link ` set G" and b: "bufs_inv c G"
    and "lru (evic_policy c) (map item_of G)" and "policy_maxmem (evic_policy c) = maxmem c"
    and "used_mem (evic_policy c) = mem_used c" and n: "unat (num_elements c) = length G"
    and l: "2 * length G \<le> unat (table_size c) + 2" and s: "unat (table_size c) < 2 ^ 60"
  shows "\<exists>c'. (if num_elements c * 2 > table_size c then resize_table c (table_size c * 2)
      else Some c) = Some c' \<and> cache_inv c' G \<and> maxmem c' = maxmem c \<and> h_fn c' = h_fn c \<and>
    unat (table_size c') \<le> max (unat (table_size c)) (4 * length G)"
proof -
  have n2: "unat (num_elements c * 2) = 2 * length G"
    using n l s unat_mult_lem [of "num_elements c" 2] by simp
  have t2: "unat (table_size c * 2) = 2 * unat (table_size c)"
    using s unat_mult_lem [of "table_size c" 2] by simp
  have pos: "unat (table_size c) > 0"
    using table_invD(3) [OF t] by (simp add: unat_gt_0)
  show ?thesis
  proof (cases "num_elements c * 2 > table_size c")
    case False
    then have "2 * length G \<le> unat (table_size c)" using n2 by (simp add: word_less_nat_alt)
    with False assms show ?thesis by (intro exI [of _ c]) (auto simp: cache_inv_def)
  next
    case True
    then have gt: "2 * length G > unat (table_size c)" using n2 by (simp add: word_less_nat_alt)
    have "table_size c * 2 \<noteq> 0" using t2 pos by (metis mult_eq_0_iff neq0_conv unat_0 zero_neq_numeral)
    moreover have "unat (table_size c * 2) * 8 < 2 ^ 64" using t2 s by simp
    ultimately obtain T h chs' where r:
      "resize_table c (table_size c * 2) = Some (c\<lparr>table_size := table_size c * 2, table := T, links := h\<rparr>)"
      "table_inv (c\<lparr>table_size := table_size c * 2, table := T, links := h\<rparr>) G chs'"
      "dom (cells h) = dom (cells (links c))"
      using resize_table_inv [OF t] by blast
    have "bufs_inv (c\<lparr>table_size := table_size c * 2, table := T, links := h\<rparr>) G"
      using b by (simp add: bufs_inv_def)
    with r True assms t2 gt pos show ?thesis
      by (intro exI [of _ "c\<lparr>table_size := table_size c * 2, table := T, links := h\<rparr>"])
        (auto simp: cache_inv_def)
  qed
qed

lemma add_to_cache_inv:
  assumes inv: "cache_inv c G" and k: "c_string buf = Some k" and fresh: "k \<notin> e_k ` set G"
    and n: "unat n \<le> length vb" and room: "entry_bytes (map entry_of G) + unat n \<le> unat (maxmem c)"
    and slots: "unat (table_size c) < 2 ^ 60"
  shows "\<exists>c' e. add_to_cache c buf vb n = Some c' \<and> cache_inv c' (G @ [e]) \<and>
    entry_of e = (k, take (unat n) vb) \<and> maxmem c' = maxmem c \<and> h_fn c' = h_fn c \<and>
    unat (table_size c') \<le> max (unat (table_size c)) (4 * Suc (length G))"
proof -
  note I = cache_invD [OF inv]
  obtain chs where t: "table_inv c G chs" using cache_inv_table [OF inv] .
  define e where "e = \<lparr>e_link = brk (links c), e_info = brk (infos (evic_policy c)),
    e_key = brk (bufs c), e_val = Suc (brk (bufs c)), e_k = k, e_v = take (unat n) vb\<rparr>"
  have lv: "length (e_v e) = unat n" and lv32: "length (e_v e) < 2 ^ 32"
    using n unat_u32_less [of n] by (simp_all add: e_def)
  have nk: "NUL \<notin> set k" using k by (rule c_string_no_nul)
  let ?b2 = "(bufs c)\<lparr>cells := (cells (bufs c))(e_key e \<mapsto> e_k e @ [NUL], e_val e \<mapsto> e_v e),
    brk := Suc (Suc (brk (bufs c)))\<rparr>"
  have kvn: "kv_of e = \<lparr>key = Some (e_key e), val = Some (e_val e), val_size = n,
      policy_info = Some (e_info e)\<rparr>"
    by (simp add: kv_of_def lv)
  have it: "item_of e = (e_info e, Some (e_key e), n)" by (simp add: item_of_def lv)
  \<comment> \<open>the policy accepts the item\<close>
  have "total (map item_of G) + unat n \<le> unat (policy_maxmem (evic_policy c))"
    using room cache_inv_total [OF inv] I(4) by simp
  from lru_create_info [OF I(3) this, of "Some (e_key e)"] obtain q where
    q: "create_info (evic_policy c) (Some (e_key e)) n = Some (Some (e_info e), q)"
      "lru q (map item_of (G @ [e]))" "policy_maxmem q = policy_maxmem (evic_policy c)"
    by (auto simp: e_def item_of_def min_absorb2 [OF n])
  \<comment> \<open>the copies\<close>
  have len: "strlen buf = Some (length k)" using k by (simp add: strlen_def)
  have "NUL \<in> set buf" using k by (auto simp: c_string_def split: if_splits)
  have "take (Suc (length k)) buf = k @ [NUL]" using c_string_take [OF k] .
  then have lb: "Suc (length k) \<le> length buf"
    by (metis length_append_singleton length_take min.cobounded1)
  have mc1: "make_copy (bufs c) buf (length k + 1) = Some (Some (e_key e), (bufs c)\<lparr>cells :=
      (cells (bufs c))(e_key e \<mapsto> e_k e @ [NUL]), brk := Suc (brk (bufs c))\<rparr>)"
    using lb c_string_take [OF k] by (simp add: make_copy_def alloc_def e_def)
  have mc2: "make_copy ((bufs c)\<lparr>cells := (cells (bufs c))(e_key e \<mapsto> e_k e @ [NUL]),
      brk := Suc (brk (bufs c))\<rparr>) vb (unat n) = Some (Some (e_val e), ?b2)"
    using n by (simp add: make_copy_def alloc_def e_def)
  \<comment> \<open>the table\<close>
  have bi: "bufs_inv (c\<lparr>bufs := ?b2\<rparr>) (G @ [e])"
    and bk: "\<And>e'. e' \<in> set G \<Longrightarrow> cells ?b2 (e_key e') = cells (bufs c) (e_key e')"
    using bufs_inv_add [OF I(2), of e] cache_inv_key_ok [OF inv] lv32 by (auto simp: e_def)
  define c1 where "c1 = c\<lparr>bufs := ?b2, evic_policy := q\<rparr>"
  define c2 where "c2 = c1\<lparr>links := (links c1)\<lparr>cells := (cells (links c1))(brk (links c1) \<mapsto>
      \<lparr>kv = kv_of e, next_link = NULL\<rparr>), brk := Suc (brk (links c1))\<rparr>\<rparr>"
  have hl: "heap_ok (links c)" using table_invD(5) [OF t] .
  have fl: "e_link e' \<noteq> e_link e" if "e' \<in> set G" for e'
  proof -
    have "cells (links c) (e_link e') \<noteq> None" using table_inv_cells [OF t that] .
    then have "e_link e' < brk (links c)" using heap_ok_less [OF hl] by auto
    then show ?thesis by (simp add: e_def)
  qed
  have t1: "table_inv c1 G chs"
    using bk hl by (intro table_inv_cong [OF t]) (simp_all add: c1_def)
  have t2: "table_inv c2 G chs"
    using fl heap_ok_alloc [OF hl, of "\<lparr>kv = kv_of e, next_link = NULL\<rparr>"]
    by (intro table_inv_cong [OF t1]) (simp_all add: c2_def c1_def e_def)
  have ke: "key_ok c2 e" using nk by (simp add: key_ok_def c2_def c1_def e_def)
  have d: "distinct (map e_link (G @ [e]))" "distinct (map e_k (G @ [e]))"
  proof -
    have "e_link e \<notin> e_link ` set G" using fl by (metis imageE)
    moreover have "e_k e \<notin> e_k ` set G" using fresh by (simp add: e_def)
    ultimately show "distinct (map e_link (G @ [e]))" "distinct (map e_k (G @ [e]))"
      using table_invD(6,7) [OF t] by simp_all
  qed
  have cell: "cells (links c2) (e_link e) = Some \<lparr>kv = kv_of e, next_link = NULL\<rparr>"
    by (simp add: c2_def c1_def e_def)
  have "c_string buf = Some (e_k e)" using k by (simp add: e_def)
  from table_inv_insert [OF t2 this d ke cell] obtain spot T h chs' where
    s: "querry_hash c2 buf = Some spot" "read_loc c2 spot = Some NULL"
      "write_loc c2 spot (Some (e_link e)) = Some (c2\<lparr>table := T, links := h\<rparr>)"
    and t3: "table_inv (c2\<lparr>table := T, links := h\<rparr>) (G @ [e]) chs'"
    and hd: "dom (cells h) = dom (cells (links c2))" by metis
  have q1: "querry_hash c1 buf = Some spot"
    using s(1) querry_hash_same [OF t1 t2 k] by (simp add: c2_def)
  have r1: "read_loc c1 spot = Some NULL"
    using absent_place [OF t1 k fresh q1] .
  have a: "assign_to_link c1 spot (kv_of e) = Some (c2\<lparr>table := T, links := h\<rparr>)"
    using assign_to_link_fresh [OF r1, of "kv_of e"] hl s(3) by (simp add: c2_def c1_def e_def)
  define c3 where "c3 = c2\<lparr>table := T, links := h, mem_used := mem_used c + ucast n,
      num_elements := num_elements c + 1\<rparr>"
  have add: "add_to_cache c buf vb n =
      (if num_elements c3 * 2 > table_size c3 then resize_table c3 (table_size c3 * 2) else Some c3)"
    using len mc1 mc2 q(1) q1 a
    by (simp add: add_to_cache_def kvn [symmetric] c1_def [symmetric])
      (simp add: c3_def c2_def c1_def)
  have "table_inv c3 (G @ [e]) chs'"
    by (rule table_inv_cong [OF t3]) (use table_invD(5) [OF t3] in \<open>simp_all add: c3_def\<close>)
  moreover have "dom (cells (links c3)) = e_link ` set (G @ [e])"
    using hd I(1) by (simp add: c3_def c2_def c1_def e_def)
  moreover have "bufs_inv c3 (G @ [e])" using bi by (simp add: bufs_inv_def c3_def c2_def c1_def)
  moreover have "used_mem q = mem_used c3"
  proof -
    have "unat (used_mem q) = total (map item_of (G @ [e]))" using q(2) by (simp add: lru_def)
    also have "\<dots> = total (map item_of G) + unat n" using it by simp
    also have "total (map item_of G) = unat (mem_used c)" using I(3,5) by (simp add: lru_def)
    finally have u: "unat (used_mem q) = unat (mem_used c) + unat n" .
    moreover have "unat (used_mem q) < 2 ^ LENGTH(64)" by (rule unsigned_less)
    ultimately have "unat (mem_used c + ucast n) = unat (mem_used c) + unat n"
      using unat_add_lem [of "mem_used c" "ucast n"] by simp
    with u have "unat (used_mem q) = unat (mem_used c3)" by (simp add: c3_def)
    then show ?thesis by (simp only: word_unat_eq_iff)
  qed
  moreover have "unat (num_elements c3) = length (G @ [e])"
    using I(6,7) slots unat_add_lem [of "num_elements c" 1] by (simp add: c3_def)
  ultimately have "\<exists>c'. add_to_cache c buf vb n = Some c' \<and> cache_inv c' (G @ [e]) \<and>
      maxmem c' = maxmem c3 \<and> h_fn c' = h_fn c3 \<and>
      unat (table_size c') \<le> max (unat (table_size c3)) (4 * length (G @ [e]))"
    unfolding add using q(2,3) I(4,7) slots
    by (intro resize_if_full) (simp_all add: c3_def c2_def c1_def)
  moreover have "entry_of e = (k, take (unat n) vb)" by (simp add: entry_of_def e_def)
  ultimately show ?thesis by (auto simp: c3_def c2_def c1_def)
qed

section \<open>The operations\<close>

lemma cache_set_inv:
  assumes inv: "cache_inv c G" and k: "c_string kb = Some k" and n: "unat n \<le> length vb"
    and slots: "unat (table_size c) < 2 ^ 60"
  shows "\<exists>c' G'. cache_set c kb vb n = Some c' \<and> cache_inv c' G' \<and> maxmem c' = maxmem c \<and>
    map entry_of G' = spec_set (unat (maxmem c)) k (take (unat n) vb) (map entry_of G) \<and>
    unat (table_size c') \<le> max (unat (table_size c)) (4 * Suc (length G))"
proof -
  obtain spot where q: "querry_hash c kb = Some spot" using querry_hash_cases [OF inv k] by metis
  obtain c1 where c1: "del_link c spot = Some c1" "cache_inv c1 (others k G)" "same_shape c c1"
    using del_link_at_key [OF inv k q] by blast
  have lv: "length (take (unat n) vb) = unat n" using n by simp
  have m1: "maxmem c1 = maxmem c" using c1(3) by (simp add: same_shape_def)
  obtain c2 G2 gone where c2:
      "should_add_evict_deletions c1 n = Some (unat n \<le> unat (maxmem c), c2)"
      "cache_inv c2 G2" "same_shape c1 c2" "others k G = gone @ G2"
      "map entry_of G2 = (if unat n > unat (maxmem c) then map entry_of (others k G)
        else spec_evict (unat (maxmem c)) (unat n) (map entry_of (others k G)))"
    using should_add_evict_deletions_inv [OF c1(2), of n] unfolding m1 by metis
  have sh: "same_shape c c2" by (rule same_shape_trans [OF c1(3) c2(3)])
  show ?thesis
  proof (cases "unat n \<le> unat (maxmem c)")
    case False
    then have "cache_set c kb vb n = Some c2" using q c1(1) c2(1) by (simp add: cache_set_def)
    moreover have "map entry_of G2 = spec_set (unat (maxmem c)) k (take (unat n) vb) (map entry_of G)"
      using False c2(5) lv by (simp add: spec_set_def entries_others)
    ultimately show ?thesis using c2(2) sh
      by (intro exI [of _ c2] exI [of _ G2]) (simp add: same_shape_def)
  next
    case True
    have ev: "map entry_of G2 = spec_evict (unat (maxmem c)) (unat n) (map entry_of (others k G))"
      using c2(5) True by simp
    have "set G2 \<subseteq> set (others k G)" using c2(4) by auto
    then have fresh: "k \<notin> e_k ` set G2" by (auto simp: others_def)
    have room: "entry_bytes (map entry_of G2) + unat n \<le> unat (maxmem c2)"
      using spec_evict_room [OF True] sh by (simp add: ev same_shape_def)
    have sl: "unat (table_size c2) < 2 ^ 60" using slots sh by (simp add: same_shape_def)
    obtain c3 e where c3: "add_to_cache c2 kb vb n = Some c3" "cache_inv c3 (G2 @ [e])"
        "entry_of e = (k, take (unat n) vb)" "maxmem c3 = maxmem c2"
        "unat (table_size c3) \<le> max (unat (table_size c2)) (4 * Suc (length G2))"
      using add_to_cache_inv [OF c2(2) k fresh n room sl] by blast
    have "length (others k G) \<le> length G" by (simp add: others_def)
    then have "length G2 \<le> length G" using c2(4) by simp
    then have "unat (table_size c3) \<le> max (unat (table_size c)) (4 * Suc (length G))"
      using c3(5) sh by (auto simp: same_shape_def)
    moreover have "cache_set c kb vb n = Some c3"
      using q c1(1) c2(1) c3(1) True by (simp add: cache_set_def)
    moreover have "map entry_of (G2 @ [e]) =
        spec_set (unat (maxmem c)) k (take (unat n) vb) (map entry_of G)"
      using True ev c3(3) lv by (simp add: spec_set_def entries_others)
    ultimately show ?thesis using c3(2,4) sh
      by (intro exI [of _ c3] exI [of _ "G2 @ [e]"]) (simp add: same_shape_def)
  qed
qed

lemma map_of_entries_split:
  assumes "distinct (map e_k (xs @ e # ys))" and "e_k e = k"
  shows "map_of (map entry_of (xs @ e # ys)) k = Some (e_v e)"
proof -
  have "k \<notin> fst ` set (map entry_of xs)" using assms by (auto simp: image_iff)
  then show ?thesis using assms(2) by (simp add: map_of_append_notin entry_of_def del: map_of_append)
qed

lemma get_bytes_inv:
  assumes inv: "cache_inv c G" and k: "c_string kb = Some k"
  shows "\<exists>c' G'. get_bytes c kb = Some (map_of (map entry_of G) k,
      (case map_of (map entry_of G) k of None \<Rightarrow> 0 | Some v \<Rightarrow> of_nat (length v)), c') \<and>
    cache_inv c' G' \<and> map entry_of G' = spec_touch k (map entry_of G) \<and> same_shape c c'"
  using inv k
proof (cases rule: querry_hash_cases)
  case (absent spot)
  have "map_of (map entry_of G) k = None" using absent(1) by (force simp: map_of_eq_None_iff)
  moreover from absent have "get_bytes c kb = Some (None, 0, c)"
    by (simp add: get_bytes_def cache_get_def)
  ultimately show ?thesis using inv
    by (intro exI [of _ c] exI [of _ G]) (simp add: spec_touch_def)
next
  case (present xs e ys chs i as bs)
  note I = cache_invD [OF inv] and G = present(1,2)
  have d: "distinct (map e_k (xs @ e # ys))" using cache_inv_distinct_keys [OF inv] G by simp
  have m: "map_of (map entry_of G) k = Some (e_v e)" using map_of_entries_split [OF d G(2)] G by simp
  obtain q where q: "info_gotten (evic_policy c) (Some (e_info e)) = Some q"
      "lru q (map item_of (xs @ ys @ [e]))" "policy_maxmem q = policy_maxmem (evic_policy c)"
      "used_mem q = used_mem (evic_policy c)"
  proof -
    have l: "lru (evic_policy c) (map item_of xs @ item_of e # map item_of ys)" using I(3) G by simp
    obtain q where "info_gotten (evic_policy c) (Some (handle (item_of e))) = Some q"
        "lru q (map item_of xs @ map item_of ys @ [item_of e])"
        "policy_maxmem q = policy_maxmem (evic_policy c)"
      using lru_info_gotten [OF l] by blast
    moreover from this(2) l have "unat (used_mem q) = unat (used_mem (evic_policy c))"
      by (simp add: lru_def)
    ultimately show ?thesis using that by (simp add: word_unat_eq_iff)
  qed
  define c' where "c' = c\<lparr>evic_policy := q\<rparr>"
  have v: "cells (bufs c) (e_val e) = Some (e_v e)" using I(2) G by (simp add: bufs_inv_def)
  have "get_bytes c kb = Some (Some (e_v e), of_nat (length (e_v e)), c')"
    using present(6-8) q(1) v by (auto simp: get_bytes_def cache_get_def c'_def)
  moreover have "cache_inv c' (xs @ ys @ [e])"
  proof -
    have t: "table_inv c' (xs @ ys @ [e]) chs"
    proof (rule table_inv_perm)
      show "table_inv c' G chs"
        by (rule table_inv_cong [OF present(3)]) (use table_invD(5) [OF present(3)] in \<open>simp_all add: c'_def\<close>)
      show "set (xs @ ys @ [e]) = set G" using G by auto
      show "distinct (map e_link (xs @ ys @ [e]))" "distinct (map e_k (xs @ ys @ [e]))"
        using table_invD(6,7) [OF present(3)] G(1) by auto
    qed
    have "distinct (map e_key (xs @ ys @ [e]) @ map e_val (xs @ ys @ [e]))"
      using I(2) G(1) by (auto simp: bufs_inv_def)
    then have "bufs_inv c' (xs @ ys @ [e])" using I(2) G(1) by (auto simp: bufs_inv_def c'_def)
    with t show ?thesis using I q G(1) by (auto simp: cache_inv_def c'_def)
  qed
  moreover have "map entry_of (xs @ ys @ [e]) = spec_touch k (map entry_of G)"
  proof -
    have "map entry_of (others k G) = map entry_of (xs @ ys)" using others_split [OF d G(2)] G by simp
    then show ?thesis using m G(2) by (simp add: spec_touch_def entries_others entry_of_def)
  qed
  ultimately show ?thesis using m
    by (intro exI [of _ c'] exI [of _ "xs @ ys @ [e]"]) (simp add: same_shape_def c'_def)
qed

section \<open>Destruction\<close>

lemma drain_slot_inv:
  assumes "cache_inv c G" and "table_inv c G chs" and "i < length chs" and "chs ! i = es"
    and "length es < fuel"
  shows "\<exists>c' G'. drain_slot fuel c i = Some c' \<and> cache_inv c' G' \<and> same_shape c c' \<and>
    table_inv c' G' (chs[i := []])"
  using assms
proof (induction es arbitrary: c G chs fuel)
  case Nil
  obtain fuel' where fuel: "fuel = Suc fuel'" using Nil.prems(5) by (cases fuel) auto
  have "read_loc c (Slot i) = Some NULL"
    using table_invD(2) [OF Nil.prems(2)] table_invD(9) [OF Nil.prems(2,3)] Nil.prems(3,4) by (simp add: read_loc_def)
  moreover have "chs[i := []] = chs" using Nil.prems(4) by (metis list_update_id)
  ultimately show ?case using Nil.prems fuel
    by (intro exI [of _ c] exI [of _ G]) simp
next
  case (Cons e es)
  obtain fuel' where fuel: "fuel = Suc fuel'" using Cons.prems(5) by (cases fuel) auto
  have "e \<in> set G" using table_invD(12) [OF Cons.prems(2,3)] Cons.prems(4) by auto
  then obtain xs ys where G: "G = xs @ e # ys" by (meson split_list)
  have r: "read_loc c (Slot i) = Some (Some (e_link e))"
    using table_invD(2) [OF Cons.prems(2)] table_invD(9) [OF Cons.prems(2,3)] Cons.prems(3,4) by (simp add: read_loc_def)
  obtain c1 where c1: "del_link c (Slot i) = Some c1" "cache_inv c1 (xs @ ys)" "same_shape c c1"
      "table_inv c1 (xs @ ys) (chs[i := es])"
    using del_link_entry [of c xs e ys chs i "[]" es] Cons.prems G by auto
  from Cons.IH [OF c1(2,4), of fuel'] Cons.prems(3,5) fuel c1 r same_shape_trans show ?case by simp blast
qed

lemma drain_slots_inv:
  assumes "cache_inv c G" and "table_inv c G chs" and "\<forall>i \<in> set is. i < length chs"
  shows "\<exists>c' G' chs'. drain_slots c is = Some c' \<and> cache_inv c' G' \<and> same_shape c c' \<and>
    table_inv c' G' chs' \<and> (\<forall>i < length chs'. i \<in> set is \<or> chs ! i = [] \<longrightarrow> chs' ! i = [])"
  using assms
proof (induction "is" arbitrary: c G chs)
  case Nil
  then show ?case by (intro exI [of _ c] exI [of _ G] exI [of _ chs]) simp
next
  case (Cons i "is")
  have i: "i < length chs" using Cons.prems(3) by simp
  have len: "length (chs ! i) < Suc (brk (links c))"
    using heap_ok_length [OF table_invD(5) [OF Cons.prems(2)] table_inv_distinct_links [OF Cons.prems(2) i]]
      chain_dom [OF table_invD(10) [OF Cons.prems(2) i]] by simp
  obtain c1 G1 where c1: "drain_slot (Suc (brk (links c))) c i = Some c1" "cache_inv c1 G1"
      "same_shape c c1" "table_inv c1 G1 (chs[i := []])"
    using drain_slot_inv [OF Cons.prems(1,2) i refl len] by blast
  obtain c' G' chs' where c': "drain_slots c1 is = Some c'" "cache_inv c' G'" "same_shape c1 c'"
      "table_inv c' G' chs'" "\<forall>j < length chs'. j \<in> set is \<or> chs[i := []] ! j = [] \<longrightarrow> chs' ! j = []"
    using Cons.IH [OF c1(2,4)] Cons.prems(3) by auto
  have "chs' ! j = []" if "j < length chs'" "j \<in> set (i # is) \<or> chs ! j = []" for j
    using c'(5) that i by (cases "j = i") auto
  with c1 c' same_shape_trans show ?case by (auto simp del: drain_slot.simps) blast
qed

definition all_freed :: "cache_obj \<Rightarrow> bool" where
  "all_freed c \<longleftrightarrow> cells (links c) = Map.empty \<and> cells (bufs c) = Map.empty \<and>
     cells (infos (evic_policy c)) = Map.empty \<and> table c = []"

lemma destroy_cache_inv:
  assumes inv: "cache_inv c G"
  shows "\<exists>c'. destroy_cache c = Some c' \<and> all_freed c'"
proof -
  obtain chs where t: "table_inv c G chs" using cache_inv_table [OF inv] .
  obtain c' G' chs' where c': "drain_slots c [0..<unat (table_size c)] = Some c'" "cache_inv c' G'"
      "same_shape c c'" "table_inv c' G' chs'" "\<forall>i < length chs'. i < unat (table_size c) \<longrightarrow> chs' ! i = []"
    using drain_slots_inv [OF inv t, of "[0..<unat (table_size c)]"] table_invD(1,2) [OF t] by auto
  have "length chs' = unat (table_size c)"
    using table_invD(1,2) [OF c'(4)] c'(3) by (simp add: same_shape_def)
  then have "concat (map (nth chs') [0..<length chs']) = []" using c'(5) by simp
  then have G': "G' = []" using table_inv_concat(1) [OF c'(4)] by simp
  obtain q where "delete_policy (evic_policy c') = Some q" "cells (infos q) = Map.empty"
    using lru_delete_policy [OF cache_invD(3) [OF c'(2)]] by blast
  with c'(1) cache_invD(1,2) [OF c'(2)] show ?thesis
    by (simp add: destroy_cache_def all_freed_def G' bufs_inv_def)
qed

end
