(* ===== verification/Hash_Cache_Api.thy ===== *)
theory Hash_Cache_Api
  imports Hash_Cache_Correct
begin

text \<open>
  The cache of \<open>hash_cache.c\<close> satisfies the contract of \<open>cache.h\<close> (locale \<open>cache_api\<close>), and
  the properties of the cache that its callers rely on.
\<close>

section \<open>The interface\<close>

definition cache_holds :: "cache_obj \<Rightarrow> entry list \<Rightarrow> bool" where
  "cache_holds c es \<longleftrightarrow> (\<exists>G. cache_inv c G \<and> map entry_of G = es)"

definition valid_hash :: "hash_func option \<Rightarrow> bool" where
  "valid_hash h \<longleftrightarrow> (\<forall>f. h = Some f \<longrightarrow> hash_ok f)"

lemma valid_hash_None [simp]: "valid_hash None"
  by (simp add: valid_hash_def)

lemma cache_holds_create:
  "unat m \<le> max_capacity \<Longrightarrow> valid_hash h \<Longrightarrow> cache_holds (create_cache m h) []"
  using cache_inv_create [of m h] by (auto simp: cache_holds_def valid_hash_def)

lemma create_cache_sel [simp]:
  "maxmem (create_cache m h) = m" "table_size (create_cache m h) = 2503"
  by (simp_all add: create_cache_def default_table_size_def)

interpretation hash_cache: cache_api
  where holds = cache_holds
    and capacity = "\<lambda>c. unat (maxmem c)"
    and slots = "\<lambda>c. unat (table_size c)"
    and create = create_cache
    and hash_valid = valid_hash
    and set_op = cache_set
    and get_op = get_bytes
    and delete_op = cache_delete
    and space_op = cache_space_used
    and destroy_op = destroy_cache
    and destroyed = all_freed
    and max_capacity = max_capacity
    and init_slots = 2503
proof (unfold_locales, goal_cases)
  case (1 m h)
  then show ?case by (simp add: cache_holds_create)
next
  case (2 c es)
  then obtain G where G: "cache_inv c G" "map entry_of G = es" by (auto simp: cache_holds_def)
  moreover have "map fst (map entry_of G) = map e_k G" by simp
  ultimately show ?case
    using cache_inv_distinct_keys [OF G(1)] cache_inv_within [OF G(1)] by (auto simp: spec_ok_def)
next
  case (3 c es kb k n vb)
  then obtain G where G: "cache_inv c G" "map entry_of G = es" by (auto simp: cache_holds_def)
  then have "length G = length es" by auto
  with cache_set_inv [OF G(1) 3(2-4)] G(2) show ?case by (auto simp: cache_holds_def)
next
  case (4 c es kb k)
  then obtain G where G: "cache_inv c G" "map entry_of G = es" by (auto simp: cache_holds_def)
  obtain c' G' where c': "get_bytes c kb = Some (map_of es k,
      (case map_of es k of None \<Rightarrow> 0 | Some v \<Rightarrow> of_nat (length v)), c')"
      "cache_inv c' G'" "map entry_of G' = spec_touch k es" "same_shape c c'"
    using get_bytes_inv [OF G(1) 4(2)] unfolding G(2) by blast
  then show ?case by (intro exI [of _ c']) (auto simp: cache_holds_def same_shape_def)
next
  case (5 c es kb k)
  then obtain G where G: "cache_inv c G" "map entry_of G = es" by (auto simp: cache_holds_def)
  obtain c' where "cache_delete c kb = Some c'" "cache_inv c' (others k G)" "same_shape c c'"
    using cache_delete_inv [OF G(1) 5(2)] by blast
  then show ?case using entries_others [of k G] G(2)
    by (intro exI [of _ c']) (auto simp: cache_holds_def same_shape_def)
next
  case (6 c es)
  then show ?case by (auto simp: cache_holds_def cache_space_used_def cache_inv_space)
next
  case (7 c es)
  then show ?case using destroy_cache_inv by (auto simp: cache_holds_def)
qed

section \<open>Properties\<close>

text \<open>A concrete cache and strings for the witnesses.\<close>

lemma small_cache_holds: "cache_holds (create_cache 100 None) []"
  by (rule cache_holds_create) (simp_all add: max_capacity_def)

lemma c_string_a: "c_string (''a'' @ [NUL]) = Some ''a''"
  by (simp add: c_string_def)

lemma spec_evict_split:
  assumes "need \<le> cap"
  shows "\<exists>gone. es = gone @ spec_evict cap need es \<and>
    entry_bytes (spec_evict cap need es) + need \<le> cap \<and>
    (gone \<noteq> [] \<longrightarrow> entry_bytes (last gone # spec_evict cap need es) + need > cap)"
proof -
  define j where "j = surplus cap need (map (\<lambda>e. length (snd e)) es)"
  have d: "spec_evict cap need es = drop j es" by (simp add: spec_evict_def j_def)
  have jl: "j \<le> length es" using surplus_le_length [of cap need "map (\<lambda>e. length (snd e)) es"]
    by (simp add: j_def)
  have "entry_bytes (last (take j es) # drop j es) + need > cap" if ne: "take j es \<noteq> []"
  proof -
    have j: "0 < j" "j - 1 < length es" using ne jl by auto
    then have "drop (j - 1) es = last (take j es) # drop j es"
      using Cons_nth_drop_Suc [of "j - 1" es] ne by (simp add: last_conv_nth min_absorb2 jl)
    moreover have "sum_list (drop (j - 1) (map (\<lambda>e. length (snd e)) es)) + need > cap"
      using j by (intro surplus_least) (simp add: j_def)
    ultimately show ?thesis by (simp add: entry_bytes_def drop_map)
  qed
  then show ?thesis
    using spec_evict_room [OF assms, of es] unfolding d
    by (intro exI [of _ "take j es"]) simp
qed

text \<open>
  C3: refinement.  Whatever sequence of sets, gets and deletes a caller runs on a new cache
  (any capacity below \<open>2 ^ 64 - 2 ^ 32\<close>, the default or any valid hash function), no
  operation goes wrong (no wild pointer, no NULL dereference, no assertion) and the cache
  holds exactly the entries, in exactly the recency order, of the abstract cache.
\<close>

theorem cache_runs_refine:
  assumes "unat m \<le> max_capacity" and "valid_hash h" and "\<forall>op \<in> set ops. op_ok op"
    and "length ops < 2 ^ 58"
  shows "\<exists>c. run_ops cache_set get_bytes cache_delete ops (create_cache m h) = Some c \<and>
    cache_holds c (fold (spec_step (unat m)) ops [])"
  using hash_cache.run_refines [OF cache_holds_create [OF assms(1,2)] assms(3)] assms(4) by auto

lemma cache_runs_refine_witness:
  "\<exists>c. run_ops cache_set get_bytes cache_delete
      [Set ''a'' ''xyz'', Get ''a'', Set ''b'' ''uv'', Delete ''a''] (create_cache (4 :: u64) None) = Some c \<and>
    cache_holds c (fold (spec_step (unat (4 :: u64)))
      [Set ''a'' ''xyz'', Get ''a'', Set ''b'' ''uv'', Delete ''a''] [])"
  by (rule cache_runs_refine) (simp_all add: max_capacity_def)

text \<open>
  C6: safety.  After any run from a new cache, the space in use is at most the capacity, and
  every key that is found has the value of the last \<open>set\<close> of it (a cache may forget, but
  never answers with a stale or foreign value).
\<close>

theorem cache_bounded_and_fresh:
  assumes "unat m \<le> max_capacity" and "valid_hash h" and "\<forall>op \<in> set ops. op_ok op"
    and "length ops < 2 ^ 58"
  shows "\<exists>c es. run_ops cache_set get_bytes cache_delete ops (create_cache m h) = Some c \<and>
    cache_holds c es \<and> unat (cache_space_used c) \<le> unat m \<and>
    map_of es \<subseteq>\<^sub>m fold (ideal_step (unat m)) ops Map.empty"
  using hash_cache.run_from_new [OF assms(1-3) _ assms(4)] by simp

lemma cache_bounded_and_fresh_witness:
  "\<exists>c es. run_ops cache_set get_bytes cache_delete [Set ''a'' ''x'', Set ''a'' ''y'']
      (create_cache 1 None) = Some c \<and>
    cache_holds c es \<and> unat (cache_space_used c) \<le> unat (1 :: u64) \<and>
    map_of es \<subseteq>\<^sub>m fold (ideal_step (unat (1 :: u64))) [Set ''a'' ''x'', Set ''a'' ''y''] Map.empty"
  by (rule cache_bounded_and_fresh) (simp_all add: max_capacity_def)

text \<open>
  C10: \<open>cache_set\<close>, on every branch.  The old entry of the key goes.  A value larger than the
  cache is not stored.  Otherwise it is stored as the most recently used entry, and the entries
  evicted for it are the least recently used ones, no more of them than needed: one more kept
  would exceed the capacity.
\<close>

theorem cache_set_evicts_least_recent:
  assumes "cache_holds c es" and "c_string kb = Some k" and "unat n \<le> length vb"
    and "unat (table_size c) < 2 ^ 60"
  shows "\<exists>c' gone kept. cache_set c kb vb n = Some c' \<and> spec_delete k es = gone @ kept \<and>
    (if unat n > unat (maxmem c) then gone = [] \<and> cache_holds c' kept
     else cache_holds c' (kept @ [(k, take (unat n) vb)]) \<and>
       entry_bytes kept + unat n \<le> unat (maxmem c) \<and>
       (gone \<noteq> [] \<longrightarrow> entry_bytes (last gone # kept) + unat n > unat (maxmem c)))"
proof -
  obtain c' where c': "cache_set c kb vb n = Some c'"
      "cache_holds c' (spec_set (unat (maxmem c)) k (take (unat n) vb) es)"
    using hash_cache.holds_set [OF assms] by blast
  have l: "length (take (unat n) vb) = unat n" using assms(3) by simp
  show ?thesis
  proof (cases "unat n > unat (maxmem c)")
    case True
    then show ?thesis using c'(1) c'(2) [unfolded spec_set_def l]
      by (intro exI [of _ c'] exI [of _ "[]"] exI [of _ "spec_delete k es"]) simp
  next
    case False
    then obtain gone where "spec_delete k es =
        gone @ spec_evict (unat (maxmem c)) (unat n) (spec_delete k es)"
      "entry_bytes (spec_evict (unat (maxmem c)) (unat n) (spec_delete k es)) + unat n \<le> unat (maxmem c)"
      "gone \<noteq> [] \<longrightarrow> entry_bytes (last gone #
        spec_evict (unat (maxmem c)) (unat n) (spec_delete k es)) + unat n > unat (maxmem c)"
      using spec_evict_split [of "unat n" "unat (maxmem c)" "spec_delete k es"] by auto
    then show ?thesis using c'(1) c'(2) [unfolded spec_set_def l] False
      by (intro exI [of _ c'] exI [of _ gone]
          exI [of _ "spec_evict (unat (maxmem c)) (unat n) (spec_delete k es)"]) simp
  qed
qed

lemma cache_set_evicts_least_recent_witness:
  "\<exists>c' gone kept. cache_set (create_cache 100 None) (''a'' @ [NUL]) ''xyz'' 3 = Some c' \<and>
    spec_delete ''a'' [] = gone @ kept \<and>
    (if unat (3 :: u32) > unat (maxmem (create_cache 100 None)) then gone = [] \<and> cache_holds c' kept
     else cache_holds c' (kept @ [(''a'', take (unat (3 :: u32)) ''xyz'')]) \<and>
       entry_bytes kept + unat (3 :: u32) \<le> unat (maxmem (create_cache 100 None)) \<and>
       (gone \<noteq> [] \<longrightarrow> entry_bytes (last gone # kept) + unat (3 :: u32) >
          unat (maxmem (create_cache 100 None))))"
  by (rule cache_set_evicts_least_recent [OF small_cache_holds c_string_a]) simp_all


text \<open>
  C11: \<open>cache_get\<close>, on both branches.  It returns the stored bytes with their length, or NULL
  with size 0, and makes a found key the most recently used; nothing else changes.
\<close>

theorem cache_get_finds:
  assumes "cache_holds c es" and "c_string kb = Some k"
  shows "\<exists>c'. get_bytes c kb = Some (map_of es k,
      (case map_of es k of None \<Rightarrow> 0 | Some v \<Rightarrow> of_nat (length v)), c') \<and>
    cache_holds c' (spec_touch k es) \<and> cache_space_used c' = cache_space_used c"
proof -
  obtain c' where c': "get_bytes c kb = Some (map_of es k,
      (case map_of es k of None \<Rightarrow> 0 | Some v \<Rightarrow> of_nat (length v)), c')"
      "cache_holds c' (spec_touch k es)"
    using hash_cache.holds_get [OF assms] by blast
  have "mem_used c' = mem_used c"
    using c'(1) by (auto simp: get_bytes_def cache_get_def split: Option.bind_splits option.splits if_splits)
  with c' show ?thesis by (auto simp: cache_space_used_def)
qed

lemma cache_get_finds_witness:
  "\<exists>c'. get_bytes (create_cache 100 None) (''a'' @ [NUL]) = Some (map_of ([] :: entry list) ''a'',
      (case map_of ([] :: entry list) ''a'' of None \<Rightarrow> 0 | Some v \<Rightarrow> of_nat (length v)), c') \<and>
    cache_holds c' (spec_touch ''a'' []) \<and>
    cache_space_used c' = cache_space_used (create_cache 100 None)"
  by (rule cache_get_finds [OF small_cache_holds c_string_a])

text \<open>
  C12: \<open>cache_delete\<close> removes the entry of the key, if there is one, and nothing else; the
  space it took is given back.
\<close>

theorem cache_delete_removes:
  assumes "cache_holds c es" and "c_string kb = Some k"
  shows "\<exists>c'. cache_delete c kb = Some c' \<and> cache_holds c' (spec_delete k es) \<and>
    unat (cache_space_used c') = entry_bytes (spec_delete k es)"
  using hash_cache.holds_delete [OF assms] hash_cache.holds_space by blast

lemma cache_delete_removes_witness:
  "\<exists>c'. cache_delete (create_cache 100 None) (''a'' @ [NUL]) = Some c' \<and>
    cache_holds c' (spec_delete ''a'' []) \<and>
    unat (cache_space_used c') = entry_bytes (spec_delete ''a'' [])"
  by (rule cache_delete_removes [OF small_cache_holds c_string_a])

text \<open>
  C13: \<open>destroy_cache\<close> frees every link, every key and value copy and every policy record, so that
  the heaps of the cache are empty, and none of them twice, which would be undefined.  The table is a
  part of the cache object in the model and is empty then; releasing the object itself is not tracked.
\<close>

theorem destroy_cache_frees_all:
  assumes "cache_holds c es"
  shows "\<exists>c'. destroy_cache c = Some c' \<and> all_freed c'"
  by (rule hash_cache.holds_destroy [OF assms])

lemma destroy_cache_frees_all_witness:
  "\<exists>c'. destroy_cache (create_cache 100 None) = Some c' \<and> all_freed c'"
  by (rule destroy_cache_frees_all [OF small_cache_holds])

text \<open>
  Round trip.  What \<open>cache_set\<close> stores, \<open>cache_get\<close> with an equal key (in whatever
  buffer) returns, byte for byte, as long as the value is not larger than the cache.
\<close>

theorem set_then_get:
  assumes "cache_holds c es" and "c_string kb = Some k" and "c_string kb' = Some k"
    and "unat n \<le> length vb" and "unat n \<le> unat (maxmem c)" and "unat (table_size c) < 2 ^ 60"
  shows "\<exists>c1 c2. cache_set c kb vb n = Some c1 \<and>
    get_bytes c1 kb' = Some (Some (take (unat n) vb), n, c2)"
  by (rule hash_cache.get_after_set [OF assms])

lemma set_then_get_witness:
  "\<exists>c1 c2. cache_set (create_cache 100 None) (''a'' @ [NUL]) ''xyz'' 2 = Some c1 \<and>
    get_bytes c1 (''a'' @ [NUL]) = Some (Some (take (unat (2 :: u32)) ''xyz''), 2, c2)"
  by (rule set_then_get [OF small_cache_holds c_string_a c_string_a]) simp_all

text \<open>
  C22: \<open>resize_table\<close> (both to more and to fewer slots) loses no entry, keeps the recency
  order and leaves every lookup as it was, as long as the load factor allows the new size.
\<close>

theorem resize_keeps_entries:
  assumes "cache_holds c es" and "new_size \<noteq> 0" and "unat new_size * 8 < 2 ^ 64"
    and "2 * length es \<le> unat new_size"
  shows "\<exists>c'. resize_table c new_size = Some c' \<and> cache_holds c' es \<and> table_size c' = new_size \<and>
    length (table c') = unat new_size"
proof -
  obtain G where inv: "cache_inv c G" and es: "map entry_of G = es"
    using assms(1) by (auto simp: cache_holds_def)
  obtain chs where t: "table_inv c G chs" using cache_inv_table [OF inv] .
  obtain T h chs' where r:
    "resize_table c new_size = Some (c\<lparr>table_size := new_size, table := T, links := h\<rparr>)"
    "table_inv (c\<lparr>table_size := new_size, table := T, links := h\<rparr>) G chs'"
    "dom (cells h) = dom (cells (links c))"
    using resize_table_inv [OF t assms(2,3)] by blast
  have "bufs_inv (c\<lparr>table_size := new_size, table := T, links := h\<rparr>) G"
    using cache_invD(2) [OF inv] by (simp add: bufs_inv_def)
  moreover have "length G = length es" using es by auto
  ultimately have "cache_inv (c\<lparr>table_size := new_size, table := T, links := h\<rparr>) G"
    using cache_invD(1,3-6) [OF inv] r(2,3) assms(4) by (auto simp: cache_inv_def)
  with r es table_invD(1) [OF r(2)] show ?thesis by (auto simp: cache_holds_def)
qed

lemma resize_keeps_entries_witness:
  "\<exists>c'. resize_table (create_cache 100 None) 5 = Some c' \<and> cache_holds c' [] \<and>
    table_size c' = 5 \<and> length (table c') = unat (5 :: u64)"
  by (rule resize_keeps_entries [OF small_cache_holds]) simp_all

lemma holds_accounts:
  assumes "cache_holds c es"
  shows "unat (num_elements c) = length es \<and> unat (mem_used c) = entry_bytes es \<and>
    used_mem (evic_policy c) = mem_used c \<and> mem_used c \<le> maxmem c \<and>
    length (table c) = unat (table_size c) \<and> 2 * length es \<le> unat (table_size c)"
proof -
  obtain G where inv: "cache_inv c G" and es: "map entry_of G = es"
    using assms by (auto simp: cache_holds_def)
  obtain chs where t: "table_inv c G chs" using cache_inv_table [OF inv] .
  have "length G = length es" using es by auto
  then show ?thesis
    using cache_invD(5-7) [OF inv] cache_inv_space [OF inv] cache_inv_within [OF inv]
      table_invD(1) [OF t] es by (simp add: word_le_nat_alt)
qed

text \<open>
  C23: the accounts.  After any run of sets, gets and deletes on a new cache, \<open>num_elements\<close> is the
  number of entries the abstract cache has after this run, \<open>mem_used\<close> the sum of their sizes and
  equal to the policy's own account, no more than the capacity the cache was created with, and at
  least half of the slots of the table are not needed (the load factor).
\<close>

theorem cache_accounts:
  assumes "unat m \<le> max_capacity" and "valid_hash h" and "\<forall>op \<in> set ops. op_ok op"
    and "length ops < 2 ^ 58" and "es = fold (spec_step (unat m)) ops []"
  shows "\<exists>c. run_ops cache_set get_bytes cache_delete ops (create_cache m h) = Some c \<and>
    unat (num_elements c) = length es \<and> unat (mem_used c) = entry_bytes es \<and>
    used_mem (evic_policy c) = mem_used c \<and> mem_used c \<le> m \<and> maxmem c = m \<and>
    length (table c) = unat (table_size c) \<and> 2 * length es \<le> unat (table_size c)"
proof -
  obtain c where c: "run_ops cache_set get_bytes cache_delete ops (create_cache m h) = Some c"
      "cache_holds c es" "unat (maxmem c) = unat m"
    using hash_cache.run_refines [OF cache_holds_create [OF assms(1,2)] assms(3)] assms(4,5) by auto
  then have "maxmem c = m" by (simp add: word_unat_eq_iff)
  with c(1) holds_accounts [OF c(2)] show ?thesis by auto
qed

lemma cache_accounts_witness:
  "\<exists>c. run_ops cache_set get_bytes cache_delete [Set ''a'' ''xyz'', Set ''b'' ''uv'', Get ''b'']
      (create_cache (4 :: u64) None) = Some c \<and> unat (num_elements c) = 1 \<and> unat (mem_used c) = 2"
proof -
  have "fold (spec_step (unat (4 :: u64))) [Set ''a'' ''xyz'', Set ''b'' ''uv'', Get ''b''] [] = [(''b'', ''uv'')]"
    by (simp add: spec_set_def spec_delete_def spec_evict_def entry_bytes_def spec_touch_def)
  with cache_accounts [of 4 None "[Set ''a'' ''xyz'', Set ''b'' ''uv'', Get ''b'']", OF _ _ _ _ refl] show ?thesis
    by (auto simp: max_capacity_def entry_bytes_def)
qed

text \<open>
  The default hash reads the string only: two buffers with the same C string hash the
  same, whatever follows the NUL, and hashing never reads outside the buffer.
\<close>

theorem def_hash_fn_reads_string:
  assumes "c_string buf = Some k"
  shows "\<exists>h. def_hash_fn buf = Some h \<and> def_hash_fn (k @ NUL # rest) = Some h"
proof -
  have "c_string (k @ NUL # rest) = Some k"
    by (rule c_string_append) (rule c_string_no_nul [OF assms])
  from def_hash_fn_string [OF this] def_hash_fn_string [OF assms] show ?thesis by auto
qed

lemma def_hash_fn_reads_string_witness:
  "\<exists>h. def_hash_fn (''a'' @ [NUL]) = Some h \<and> def_hash_fn (''a'' @ NUL # ''junk'') = Some h"
  by (rule def_hash_fn_reads_string [OF c_string_a])

text \<open>
  C24: the policy's answer.  \<open>ids_to_delete_if_added\<close> refuses what can never fit; otherwise
  it names the least recently used items in order, enough of them to make room, and no
  fewer items would do.
\<close>

theorem lru_names_least_recent:
  assumes "lru p xs" and "length xs < 2 ^ 64"
  shows "\<exists>r. ids_to_delete_if_added p sz = Some r \<and>
    (if unat sz > unat (policy_maxmem p) then \<not> should_add r \<and> data r = []
     else should_add r \<and> (\<exists>n \<le> length xs. data r = map ident_of (take n xs) \<and>
       total (drop n xs) + unat sz \<le> unat (policy_maxmem p) \<and>
       (\<forall>j < n. total (drop j xs) + unat sz > unat (policy_maxmem p))))"
proof (cases "unat sz > unat (policy_maxmem p)")
  case True
  then show ?thesis using lru_policy.holds_ids [OF assms, of sz] by simp
next
  case False
  define n where "n = surplus (unat (policy_maxmem p)) (unat sz) (sizes xs)"
  have "n \<le> length xs" using surplus_le_length [of _ _ "sizes xs"] by (simp add: n_def)
  moreover have "total (drop n xs) + unat sz \<le> unat (policy_maxmem p)"
    using surplus_room [of "unat sz" "unat (policy_maxmem p)" "sizes xs"] False
    by (simp add: n_def total_def drop_map)
  moreover have "total (drop j xs) + unat sz > unat (policy_maxmem p)" if "j < n" for j
    using surplus_least [OF that [unfolded n_def]] by (simp add: total_def drop_map)
  ultimately show ?thesis
    using lru_policy.holds_ids [OF assms, of sz] False by (auto simp: n_def)
qed

lemma lru_names_least_recent_witness:
  "\<exists>r. ids_to_delete_if_added (create_policy 10) 4 = Some r \<and>
    (if unat (4 :: u32) > unat (policy_maxmem (create_policy 10)) then \<not> should_add r \<and> data r = []
     else should_add r \<and> (\<exists>n \<le> length ([] :: item list). data r = map ident_of (take n []) \<and>
       total (drop n []) + unat (4 :: u32) \<le> unat (policy_maxmem (create_policy 10)) \<and>
       (\<forall>j < n. total (drop j []) + unat (4 :: u32) > unat (policy_maxmem (create_policy 10)))))"
  by (rule lru_names_least_recent) (simp_all add: lru_create_policy max_capacity_def)

text \<open>
  evicting and adding.  Deleting the items the policy names, in order, makes the
  assertion of \<open>create_info\<close> hold; the new item is then the last one to be evicted.
\<close>

theorem lru_evict_then_create:
  assumes "lru p xs" and "unat sz \<le> unat (policy_maxmem p)" and "length xs < 2 ^ 64"
  shows "\<exists>r ys p1 a p2. ids_to_delete_if_added p sz = Some r \<and> data r = map ident_of ys \<and>
    lru_policy.delete_handles p (map handle ys) = Some p1 \<and>
    create_info p1 i sz = Some (Some a, p2) \<and>
    (\<exists>kept. xs = ys @ kept \<and> lru p2 (kept @ [(a, i, sz)]))"
proof -
  define n where "n = surplus (unat (policy_maxmem p)) (unat sz) (sizes xs)"
  obtain p1 a p2 where "lru_policy.delete_handles p (map handle (take n xs)) = Some p1"
      "create_info p1 i sz = Some (Some a, p2)" "lru p2 (drop n xs @ [(a, i, sz)])"
    using lru_policy.evict_then_create [OF assms(1,2), of i] by (auto simp: n_def)
  moreover have "ids_to_delete_if_added p sz =
      Some \<lparr>data = map ident_of (take n xs), should_add = True\<rparr>"
    using lru_policy.holds_ids [OF assms(1,3), of sz] assms(2) by (simp add: n_def)
  ultimately show ?thesis by (metis append_take_drop_id id_arr.select_convs(1))
qed

lemma lru_evict_then_create_witness:
  "\<exists>r ys p1 a p2. ids_to_delete_if_added (create_policy 10) 4 = Some r \<and> data r = map ident_of ys \<and>
    lru_policy.delete_handles (create_policy 10) (map handle ys) = Some p1 \<and>
    create_info p1 NULL 4 = Some (Some a, p2) \<and>
    (\<exists>kept. [] = ys @ kept \<and> lru p2 (kept @ [(a, NULL, 4)]))"
  by (rule lru_evict_then_create)
    (simp_all add: lru_create_policy max_capacity_def, simp add: create_policy_def)

end
