(* ===== verification/User_Con.thy ===== *)
theory User_Con
  imports Prelude
begin

text \<open>
  The code client and server share, \<open>src/user_con.hpp\<close>: the buffer size, searching a buffer,
  white space and \<open>strip\<close>.  A \<open>bufarr\<close> is a list of \<open>bufsize\<close> characters; a \<open>std::string\<close>
  is a list of characters, and the position \<open>npos\<close> is the largest \<open>size_t\<close>.
\<close>

definition bufsize :: nat where
  "bufsize = 2 ^ 16 - 32"

definition errstr :: "char list" where
  "errstr = ''ERROR''"

definition npos :: u64 where
  "npos = - 1"

text \<open>The scan of \<open>find_in_buf\<close> from position \<open>pos\<close> on.\<close>

fun find_in_buf_from :: "char list \<Rightarrow> char \<Rightarrow> nat \<Rightarrow> u64" where
  "find_in_buf_from [] c pos = npos"
| "find_in_buf_from (b # bs) c pos =
     (if b = c then of_nat pos else find_in_buf_from bs c (pos + 1))"

definition find_in_buf :: "char list \<Rightarrow> char \<Rightarrow> u64" where
  "find_in_buf buf c = find_in_buf_from buf c 0"

definition is_white_space :: "char \<Rightarrow> bool" where
  "is_white_space c \<longleftrightarrow> c = NUL \<or> c = CHR '' '' \<or> c = CHR 0x0A \<or> c = CHR 0x0D \<or> c = CHR 0x09"

text \<open>
  \<open>for (int i = strs-1; i >= 0; i--)\<close>: the last character that is not white space becomes
  the end of the string.  A string of white space only is left as it is.
\<close>

function strip_loop :: "char list \<Rightarrow> int \<Rightarrow> char list" where
  "strip_loop str i =
     (if i < 0 then str
      else if \<not> is_white_space (str ! nat i) then take (nat (i + 1)) str
      else strip_loop str (i - 1))"
  by pat_completeness auto
termination by (relation "measure (\<lambda>(str, i). nat (i + 1))") auto

declare strip_loop.simps [simp del]

text \<open>\<open>int i = strs-1\<close> keeps the low 32 bits of the \<open>size_t\<close>, read as a signed number.\<close>

definition strip :: "char list \<Rightarrow> char list" where
  "strip str = strip_loop str (sint (ucast (of_nat (length str) - 1 :: u64) :: u32))"

section \<open>Lemmas\<close>

lemma find_in_buf_from_found:
  "c \<notin> set as \<Longrightarrow> find_in_buf_from (as @ c # bs) c pos = of_nat (pos + length as)"
  by (induction as arbitrary: pos) auto

lemma find_in_buf_from_absent: "c \<notin> set as \<Longrightarrow> find_in_buf_from as c pos = npos"
  by (induction as arbitrary: pos) auto

lemma npos_unat: "unat npos = 2 ^ 64 - 1"
  by (simp add: npos_def unsigned_minus_1_eq_mask mask_eq_exp_minus_1)

lemma white_space_simps [simp]:
  "is_white_space NUL" "is_white_space CHR '' ''" "is_white_space CHR 0x0A"
  "is_white_space CHR 0x0D" "is_white_space CHR 0x09"
  by (simp_all add: is_white_space_def)

lemma strip_loop_white:
  "\<forall>c \<in> set ws. is_white_space c \<Longrightarrow> \<not> is_white_space c \<Longrightarrow>
   strip_loop (as @ c # ws @ bs) (int (length as + length ws)) = as @ [c]"
proof (induction ws arbitrary: bs rule: rev_induct)
  case Nil
  have "nat (int (length as) + 1) = Suc (length as)" by simp
  then show ?case using Nil
    by (subst strip_loop.simps) (simp add: nth_append)
next
  case (snoc w ws)
  have "(as @ c # (ws @ [w]) @ bs) ! (length as + Suc (length ws)) = w"
    by (simp add: nth_append)
  moreover have "nat (int (length as + length (ws @ [w]))) = length as + Suc (length ws)" by simp
  moreover have "is_white_space w" using snoc.prems by simp
  ultimately have "strip_loop (as @ c # (ws @ [w]) @ bs) (int (length as + length (ws @ [w]))) =
      strip_loop (as @ c # ws @ w # bs) (int (length as + length ws))"
    by (subst strip_loop.simps) (simp add: algebra_simps)
  also have "\<dots> = as @ [c]" using snoc.IH [of "w # bs"] snoc.prems by simp
  finally show ?case .
qed

lemma strip_index:
  assumes "0 < length str" and "length str < 2 ^ 31"
  shows "sint (ucast (of_nat (length str) - 1 :: u64) :: u32) = int (length str) - 1"
proof -
  have "of_nat (length str) - 1 = (of_nat (length str - 1) :: u64)"
    using assms(1) by (cases "length str") simp_all
  moreover have "unat (of_nat (length str - 1) :: u64) = length str - 1"
    using assms by (simp add: unat_of_nat take_bit_nat_eq_self)
  ultimately have "unat (ucast (of_nat (length str) - 1 :: u64) :: u32) = length str - 1"
    using assms by (simp add: unsigned_ucast_eq take_bit_nat_eq_self)
  then have "uint (ucast (of_nat (length str) - 1 :: u64) :: u32) = int (length str - 1)"
    by (metis uint_nat)
  moreover have "int (length str - 1) < 2 ^ 31" using assms(2) by (simp add: of_nat_diff)
  ultimately show ?thesis using assms(1)
    by (simp add: sint_uint signed_take_bit_int_eq_self int_ops)
qed

text \<open>What \<open>strip\<close> does: the trailing white space goes, unless there is nothing else.\<close>

lemma strip_append_white:
  assumes "\<not> is_white_space c" and "\<forall>w \<in> set ws. is_white_space w"
    and "length as + length ws < 2 ^ 31 - 1"
  shows "strip (as @ c # ws) = as @ [c]"
proof -
  have "strip (as @ c # ws) = strip_loop (as @ c # ws) (int (length as + length ws))"
    using strip_index [of "as @ c # ws"] assms(3) by (simp add: strip_def)
  then show ?thesis using strip_loop_white [OF assms(2,1), of as "[]"] by simp
qed

lemma strip_loop_all_white:
  "\<forall>w \<in> set str. is_white_space w \<Longrightarrow> i < int (length str) \<Longrightarrow> strip_loop str i = str"
proof (induction str i rule: strip_loop.induct)
  case (1 str i)
  show ?case
  proof (cases "i < 0")
    case True
    then show ?thesis unfolding strip_loop.simps [of str i] by presburger
  next
    case False
    then have "nat i < length str" using 1(3) by linarith
    then have w: "is_white_space (str ! nat i)" using 1(2) by simp
    then have "strip_loop str (i - 1) = str"
      using 1(3) 1(1) [OF False _ 1(2)] by linarith
    with w False show ?thesis unfolding strip_loop.simps [of str i] by presburger
  qed
qed

lemma strip_all_white:
  assumes "\<forall>w \<in> set str. is_white_space w" and "length str < 2 ^ 31"
  shows "strip str = str"
proof (cases "str = []")
  case True
  moreover have "sint (ucast (- 1 :: u64) :: u32) = - 1" by code_simp
  moreover have "strip_loop [] (- 1) = []" by (subst strip_loop.simps) simp
  ultimately show ?thesis by (simp add: strip_def)
next
  case False
  then show ?thesis
    using strip_index [of str] strip_loop_all_white [OF assms(1)] assms(2) by (simp add: strip_def)
qed

end
