(* ===== verification/Server.thy ===== *)
theory Server
  imports Hash_Cache_Api User_Con
begin

text \<open>
  The server, \<open>src/server.cpp\<close>, as code: parsing a message, acting on it over a TCP connection
  or the UDP socket, and the program's entry.  Its properties are in \<open>Server_Correct\<close>.

  An exception is a value of \<open>exn\<close>; \<open>None\<close> is undefined behaviour (a wild pointer, a string
  read beyond its buffer, an assertion of the cache).  The calls into asio (accepting, reading,
  sending) are the events of \<open>Network\<close>; here a handler starts where asio calls it.
\<close>

section \<open>Exceptions and results\<close>

datatype exn =
    Exit_Exception
  | Runtime_Error "char list"
  | Length_Error
  | Invalid_Argument
  | Out_Of_Range

text \<open>
  An effect on a state: undefined, an exception together with the state it leaves, or the
  next state.
\<close>

type_synonym 's result = "((exn \<times> 's) + 's) option"

section \<open>Strings of the standard library\<close>

text \<open>\<open>s.find(c, pos)\<close>.\<close>

definition find_char :: "char list \<Rightarrow> char \<Rightarrow> u64 \<Rightarrow> u64" where
  "find_char s c pos =
     (if unat pos < length s then find_in_buf_from (drop (unat pos) s) c (unat pos) else npos)"

text \<open>
  \<open>string(begin + i, begin + j)\<close>.  By the standard both must be positions of the string, up to its
  end \<open>size()\<close>; the code also forms \<open>begin + npos\<close> and \<open>begin + size() + 1\<close>.  What happens then is
  taken from the library of GCC, where an iterator is a pointer: the difference \<open>j - i\<close> is signed,
  a negative one is refused as a length, and the position \<open>size()\<close> holds the NUL that ends the buffer.
  Reading further is undefined.
\<close>

definition range :: "char list \<Rightarrow> u64 \<Rightarrow> u64 \<Rightarrow> (exn + char list) option" where
  "range s i j =
     (if sint (j - i) < 0 then Some (Inl Length_Error)
      else if unat j \<le> length s + 1
      then Some (Inr (take (unat (j - i)) (drop (unat i) (s @ [NUL]))))
      else None)"

definition is_space :: "char \<Rightarrow> bool" where
  "is_space c \<longleftrightarrow> c = CHR '' '' \<or> c = CHR 0x09 \<or> c = CHR 0x0A \<or> c = CHR 0x0B \<or>
     c = CHR 0x0C \<or> c = CHR 0x0D"

text \<open>\<open>std::stoll\<close>, base 10.\<close>

definition stoll :: "char list \<Rightarrow> exn + int" where
  "stoll s = (
     let t = dropWhile is_space s;
         neg = (t \<noteq> [] \<and> hd t = CHR ''-'');
         t = (if t \<noteq> [] \<and> (hd t = CHR ''-'' \<or> hd t = CHR ''+'') then tl t else t);
         ds = takeWhile is_digit t;
         n = (if neg then - digits_value ds else digits_value ds)
     in if ds = [] then Inl Invalid_Argument
        else if n < - (2 ^ 63) \<or> n \<ge> 2 ^ 63 then Inl Out_Of_Range
        else Inr n)"

section \<open>Messages\<close>

text \<open>\<open>make_json\<close>: \<open>pop_back\<close> of an empty key is undefined; nothing is escaped.\<close>

definition make_json :: "char list \<Rightarrow> char list \<Rightarrow> char list option" where
  "make_json k value =
     (if k = [] then None
      else Some (''{ \"key\": \"'' @ butlast k @ ''\" , \"value\": \"'' @ value @ ''\" } ''))"

text \<open>
  What the handlers use of a connection type (the template parameter \<open>con_ty\<close>): the cache
  behind it, and answering.
\<close>

record 's con_ty =
  con_cache :: "'s \<Rightarrow> cache_obj"
  con_set_cache :: "cache_obj \<Rightarrow> 's \<Rightarrow> 's"
  con_write_message :: "char list \<Rightarrow> 's \<Rightarrow> 's"
  con_return_error :: "'s \<Rightarrow> 's"

definition get :: "'s con_ty \<Rightarrow> char list \<Rightarrow> 's \<Rightarrow> 's result" where
  "get T k con = do {
     (v, val_size, c) \<leftarrow> cache_get (con_cache T con) (k @ [NUL]);
     let con = con_set_cache T c con;
     if v \<noteq> NULL then do {
       buf \<leftarrow> load (bufs c) v;
       value \<leftarrow> c_string buf;
       output \<leftarrow> make_json k value;
       Some (Inr (con_write_message T output con))
     } else Some (Inr (con_return_error T con))
   }"

definition put :: "'s con_ty \<Rightarrow> char list \<Rightarrow> char list \<Rightarrow> 's \<Rightarrow> 's result" where
  "put T k value con = do {
     c \<leftarrow> cache_set (con_cache T con) (k @ [NUL]) (value @ [NUL]) (of_nat (length value));
     Some (Inr (con_set_cache T c con))
   }"

definition delete_key :: "'s con_ty \<Rightarrow> char list \<Rightarrow> 's \<Rightarrow> 's result" where
  "delete_key T k con = do {
     c \<leftarrow> cache_delete (con_cache T con) (k @ [NUL]);
     Some (Inr (con_set_cache T c con))
   }"

definition head :: "'s con_ty \<Rightarrow> 's \<Rightarrow> 's result" where
  "head T con = Some (Inr con)"

text \<open>
  The old cache is destroyed before the new size is read; if reading it throws, the
  connection keeps the destroyed cache.
\<close>

definition post :: "'s con_ty \<Rightarrow> char list \<Rightarrow> char list \<Rightarrow> 's \<Rightarrow> 's result" where
  "post T post_type extrainfo con = (
     let post_type = strip post_type in
     if post_type = ''shutdown'' then Some (Inl (Exit_Exception, con))
     else if post_type = ''memsize'' then
       (if cache_space_used (con_cache T con) = 0 then do {
          c \<leftarrow> destroy_cache (con_cache T con);
          let con = con_set_cache T c con;
          case stoll extrainfo of
            Inl e \<Rightarrow> Some (Inl (e, con))
          | Inr n \<Rightarrow> Some (Inr (con_set_cache T (create_cache (word_of_int n) None) con))
        }
        else Some (Inr (con_return_error T con)))
     else Some (Inl (Runtime_Error ''bad POST message'', con)))"

text \<open>The words of a message: the verb, the first and the second piece of the path.\<close>

definition message_words ::
    "char list \<Rightarrow> (exn + char list \<times> char list \<times> char list) option" where
  "message_words message = (
     let end_of_line = min (min (find_char message (CHR 0x0A) 0) (find_char message (CHR 0x0D) 0))
           (of_nat (length message) + 1);
         first_space = find_char message (CHR '' '') 0;
         first_slash = find_char message (CHR ''/'') (first_space + 1);
         second_slash = find_char message (CHR ''/'') (first_slash + 1)
     in do {
       fword \<leftarrow> range message 0 first_space;
       case fword of Inl e \<Rightarrow> Some (Inl e) | Inr fword \<Rightarrow> do {
         info1 \<leftarrow> range message (first_slash + 1) (min second_slash end_of_line);
         case info1 of Inl e \<Rightarrow> Some (Inl e) | Inr info1 \<Rightarrow> do {
           info2 \<leftarrow> (if second_slash = npos then Some (Inr [])
                    else range message (second_slash + 1) end_of_line);
           case info2 of Inl e \<Rightarrow> Some (Inl e) | Inr info2 \<Rightarrow> Some (Inr (fword, info1, info2))
         }
       }
     })"

definition act_on_message :: "'s con_ty \<Rightarrow> char list \<Rightarrow> 's \<Rightarrow> 's result" where
  "act_on_message T message con = do {
     w \<leftarrow> message_words message;
     case w of
       Inl e \<Rightarrow> Some (Inl (e, con))
     | Inr (fword, info1, info2) \<Rightarrow>
         if fword = ''GET'' then get T info1 con
         else if fword = ''PUT'' then put T info1 info2 con
         else if fword = ''DELETE'' then delete_key T info1 con
         else if fword = ''HEAD'' then head T con
         else if fword = ''POST'' then post T info1 info2 con
         else Some (Inl (Runtime_Error ''bad message'', con))
   }"

section \<open>The two kinds of connection\<close>

text \<open>
  What the server does to the outside: the start of sending bytes over a TCP connection, or a
  datagram to an endpoint.
\<close>

datatype event = Tcp_Write nat "char list" | Udp_Send nat "char list"

text \<open>
  The state the connections share: the cache (\<open>safe_cache\<close>, held by pointer), the UDP
  socket's \<open>recbuf\<close> and \<open>endpoint\<close>, and the sends started.
\<close>

record server =
  port_cache :: cache_obj
  recbuf :: "char list"
  endpoint :: nat
  sent :: "event list"

text \<open>
  \<open>write_message\<close> starts a send from a buffer into its own parameter.  What is recorded is the bytes in
  this buffer at the start; asio sends these if it is done with the buffer when \<open>write_message\<close>
  returns.  The sends for which it is not are dealt with in \<open>Network\<close>.
\<close>

definition tcp_write_message :: "nat \<Rightarrow> char list \<Rightarrow> server \<Rightarrow> server" where
  "tcp_write_message sock s w = w\<lparr>sent := sent w @ [Tcp_Write sock s]\<rparr>"

definition tcp_return_error :: "nat \<Rightarrow> server \<Rightarrow> server" where
  "tcp_return_error sock = tcp_write_message sock ''ERROR''"

definition tcp_con :: "nat \<Rightarrow> server con_ty" where
  "tcp_con sock = \<lparr>con_cache = port_cache, con_set_cache = (\<lambda>c w. w\<lparr>port_cache := c\<rparr>),
     con_write_message = tcp_write_message sock, con_return_error = tcp_return_error sock\<rparr>"

text \<open>
  \<open>handle_read\<close>, called by asio with the stream buffer \<open>b\<close> (all bytes received so far); the
  error code is not looked at.
\<close>

definition handle_read :: "nat \<Rightarrow> char list \<Rightarrow> server \<Rightarrow> server result" where
  "handle_read sock b w = act_on_message (tcp_con sock) (strip b) w"

definition udp_write_message :: "char list \<Rightarrow> server \<Rightarrow> server" where
  "udp_write_message s w = w\<lparr>sent := sent w @ [Udp_Send (endpoint w) (s @ [NUL])]\<rparr>"

definition udp_return_error :: "server \<Rightarrow> server" where
  "udp_return_error = udp_write_message ''ERROR''"

definition udp_server :: "server con_ty" where
  "udp_server = \<lparr>con_cache = port_cache, con_set_cache = (\<lambda>c w. w\<lparr>port_cache := c\<rparr>),
     con_write_message = udp_write_message, con_return_error = udp_return_error\<rparr>"

text \<open>
  \<open>async_receive_from\<close> completes: the datagram overwrites the start of \<open>recbuf\<close> (what does
  not fit is cut off), the rest of the buffer stays.  Then \<open>handle_receive\<close> runs.
\<close>

definition receive_into :: "char list \<Rightarrow> char list \<Rightarrow> char list" where
  "receive_into datagram buf = take (length buf) datagram @ drop (length datagram) buf"

definition handle_receive :: "bool \<Rightarrow> server \<Rightarrow> server result" where
  "handle_receive error w =
     (if \<not> error then
        let endloc = find_in_buf (recbuf w) NUL in
        if endloc \<noteq> npos
        then act_on_message udp_server (strip (take (unat endloc) (recbuf w))) w
        else Some (Inr (udp_return_error w))
      else Some (Inr w))"

section \<open>The program\<close>

text \<open>\<open>atoi\<close>; a number outside \<open>int\<close> is undefined.\<close>

definition atoi :: "char list \<Rightarrow> int option" where
  "atoi s = (case stoll s of
     Inl Invalid_Argument \<Rightarrow> Some 0
   | Inl _ \<Rightarrow> None
   | Inr n \<Rightarrow> (if n < - (2 ^ 31) \<or> n \<ge> 2 ^ 31 then None else Some n))"

record options =
  tcp_portnum :: int
  udp_portnum :: int
  opt_maxmem :: int

definition default_options :: options where
  "default_options = \<lparr>tcp_portnum = 9201, udp_portnum = 9202, opt_maxmem = 2 ^ 16\<rparr>"

text \<open>
  The loop over what \<open>getopt\<close> returns: a letter with its argument, or a character that is no
  option.  \<open>Some None\<close> is the return with status 1.
\<close>

fun parse_options :: "(char \<times> char list) list \<Rightarrow> options \<Rightarrow> options option option" where
  "parse_options [] opts = Some (Some opts)"
| "parse_options ((c, optarg) # rest) opts =
     (if c = CHR ''m'' then do { n \<leftarrow> atoi optarg; parse_options rest (opts\<lparr>opt_maxmem := n\<rparr>) }
      else if c = CHR ''p'' then do { n \<leftarrow> atoi optarg; parse_options rest (opts\<lparr>tcp_portnum := n\<rparr>) }
      else if c = CHR ''u'' then do { n \<leftarrow> atoi optarg; parse_options rest (opts\<lparr>udp_portnum := n\<rparr>) }
      else Some None)"

text \<open>
  \<open>run_server\<close> before the event loop: the \<open>int\<close> becomes the \<open>uint64_t\<close> of \<open>create_cache\<close>, so
  a negative one becomes a number near \<open>2 ^ 64\<close>.  The receive buffer is not initialised.
\<close>

definition run_server :: "int \<Rightarrow> char list \<Rightarrow> server" where
  "run_server memlimit recbuf0 =
     \<lparr>port_cache = create_cache (word_of_int memlimit) None, recbuf = recbuf0, endpoint = 0,
      sent = []\<rparr>"

text \<open>
  When the event loop ends by an exception: \<open>ExitException\<close> unwinds through \<open>run_server\<close>,
  whose \<open>safe_cache\<close> destroys the cache, and \<open>main\<close> returns 0; any other one ends the process
  (\<open>terminate\<close>), the cache as it is.
\<close>

datatype exit_status = Exited int | Terminated exn

definition safe_cache_destructor :: "server \<Rightarrow> server option" where
  "safe_cache_destructor w = do {
     c \<leftarrow> destroy_cache (port_cache w);
     Some (w\<lparr>port_cache := c\<rparr>)
   }"

definition main_catch :: "exn \<Rightarrow> server \<Rightarrow> (exit_status \<times> server) option" where
  "main_catch e w = (case e of
     Exit_Exception \<Rightarrow> do { w \<leftarrow> safe_cache_destructor w; Some (Exited 0, w) }
   | _ \<Rightarrow> Some (Terminated e, w))"

end
