(* ===== verification/Server_Correct.thy ===== *)
theory Server_Correct
  imports Server "HOL-Library.Sublist"
begin

text \<open>
  What the server does with its messages: how a message is cut into words, that every handler
  does to the cache what its verb says and answers as it should, over either kind of connection
  (locale \<open>connection\<close>), and which messages stop the server.
\<close>

section \<open>Searching and cutting\<close>


lemma find_char_found:
  assumes "c \<notin> set (drop p as)" and "p \<le> length as" and "length as < 2 ^ 64"
  shows "find_char (as @ c # bs) c (of_nat p) = of_nat (length as)"
proof -
  have "find_in_buf_from (drop p as @ c # bs) c p = of_nat (p + length (drop p as))"
    by (rule find_in_buf_from_found [OF assms(1)])
  then show ?thesis using assms(2,3) by (simp add: find_char_def unat_of_nat_64)
qed

lemma find_char_absent:
  assumes "c \<notin> set (drop p s)" and "p < 2 ^ 64"
  shows "find_char s c (of_nat p) = npos"
  using find_in_buf_from_absent [OF assms(1)] assms(2) by (simp add: find_char_def unat_of_nat_64)

lemmas find_char_found_0 = find_char_found [where p = 0, simplified]
lemmas find_char_absent_0 = find_char_absent [where p = 0, simplified]

lemma min_npos [simp]: "min npos x = x" "min x npos = x"
  by (auto simp: npos_def min_def intro: antisym)

lemma npos_Suc [simp]: "npos + 1 = 0"
  by (simp add: npos_def)

lemma of_nat_npos: "n < 2 ^ 63 \<Longrightarrow> (of_nat n :: u64) \<noteq> npos"
  using unat_of_nat_64 [of n] npos_unat by force

lemma min_of_nat: "m \<le> n \<Longrightarrow> n < 2 ^ 64 \<Longrightarrow> min (of_nat m) (of_nat n :: u64) = of_nat m"
  by (simp add: min_def word_le_nat_alt unat_of_nat_64)

lemma sint_of_nat_diff:
  assumes "i \<le> j" and "j < 2 ^ 63"
  shows "sint (of_nat j - of_nat i :: u64) = int (j - i)"
proof -
  have "of_nat j - of_nat i = (of_nat (j - i) :: u64)" using assms(1) by (simp add: of_nat_diff)
  moreover have "int (j - i) < 2 ^ 63" using assms(2) by (simp add: of_nat_diff)
  moreover have "uint (of_nat (j - i) :: u64) = int (j - i)"
    using unat_of_nat_64 [of "j - i"] assms(2) by (simp only: uint_nat) simp
  ultimately show ?thesis by (simp add: sint_uint signed_take_bit_int_eq_self)
qed

lemma range_cut:
  assumes "i \<le> j" and "j \<le> length s + 1" and "j < 2 ^ 63"
  shows "range s (of_nat i) (of_nat j) = Some (Inr (take (j - i) (drop i (s @ [NUL]))))"
proof -
  have d: "of_nat j - of_nat i = (of_nat (j - i) :: u64)" using assms(1) by (simp add: of_nat_diff)
  have "j - i < 2 ^ 64" using assms(3) by simp
  then have u: "unat (of_nat j - of_nat i :: u64) = j - i"
    unfolding d by (rule unat_of_nat_64)
  have u: "unat (of_nat j - of_nat i :: u64) = j - i" "unat (of_nat i :: u64) = i"
      "unat (of_nat j :: u64) = j"
    using assms by (simp_all only: u) (simp_all add: unat_of_nat_64)
  have "\<not> sint (of_nat j - of_nat i :: u64) < 0" unfolding sint_of_nat_diff [OF assms(1,3)] by simp
  then show ?thesis using assms(2) by (simp only: range_def u if_False if_True)
qed

lemma range_npos: "range s 0 npos = Some (Inl Length_Error)"
  by (simp add: range_def npos_def)

text \<open>A text without line breaks.\<close>

definition plain :: "char list \<Rightarrow> bool" where
  "plain s \<longleftrightarrow> CHR 0x0A \<notin> set s \<and> CHR 0x0D \<notin> set s"

lemma plain_append [simp]: "plain (s @ t) \<longleftrightarrow> plain s \<and> plain t"
  by (auto simp: plain_def)

lemma plain_find:
  "plain s \<Longrightarrow> find_char s (CHR 0x0A) 0 = npos \<and> find_char s (CHR 0x0D) 0 = npos"
  by (simp add: plain_def find_char_absent_0)

lemma message_words_key:
  assumes "CHR '' '' \<notin> set verb" and "CHR ''/'' \<notin> set k" and "plain verb" "plain k"
    and "length verb + length k < 2 ^ 62"
  shows "message_words (verb @ '' /'' @ k) = Some (Inr (verb, k @ [NUL], []))"
proof -
  let ?m = "verb @ '' /'' @ k"
  have pl: "plain ?m" using assms by (simp add: plain_def)
  have sp: "find_char ?m (CHR '' '') 0 = of_nat (length verb)"
    using find_char_found_0 [OF assms(1)] assms(5) by simp
  have s1: "find_char ?m (CHR ''/'') (of_nat (length verb + 1)) = of_nat (length verb + 1)"
    using find_char_found [of "CHR ''/''" "length verb + 1" "verb @ '' ''" k] assms(5) by simp
  have s2: "find_char ?m (CHR ''/'') (of_nat (length verb + 2)) = npos"
    using assms(2,5) by (intro find_char_absent) simp_all
  have "range ?m (of_nat 0) (of_nat (length verb)) = Some (Inr verb)"
    using assms(5) by (subst range_cut) simp_all
  moreover have "range ?m (of_nat (length verb + 2)) (of_nat (length ?m + 1)) = Some (Inr (k @ [NUL]))"
    using assms(5) by (subst range_cut) simp_all
  ultimately show ?thesis
    using sp s1 s2 plain_find [OF pl]
    by (simp add: message_words_def Let_def add.assoc [symmetric] add.commute [of 1] add.commute [of 2])
qed

lemma message_words_key_value:
  assumes "CHR '' '' \<notin> set verb" and "CHR ''/'' \<notin> set k" and "plain verb" "plain k" "plain v"
    and "length verb + length k + length v < 2 ^ 62"
  shows "message_words (verb @ '' /'' @ k @ ''/'' @ v) = Some (Inr (verb, k, v @ [NUL]))"
proof -
  let ?m = "verb @ '' /'' @ k @ ''/'' @ v"
  have pl: "plain ?m" using assms by (simp add: plain_def)
  have sp: "find_char ?m (CHR '' '') 0 = of_nat (length verb)"
    using find_char_found_0 [OF assms(1)] assms(6) by simp
  have s1: "find_char ?m (CHR ''/'') (of_nat (length verb + 1)) = of_nat (length verb + 1)"
    using find_char_found [of "CHR ''/''" "length verb + 1" "verb @ '' ''" "k @ ''/'' @ v"] assms(6)
    by simp
  let ?s = "length verb + 2 + length k"
  have s2: "find_char ?m (CHR ''/'') (of_nat (length verb + 2)) = of_nat ?s"
    using find_char_found [of "CHR ''/''" "length verb + 2" "verb @ '' /'' @ k" v] assms(2,6)
    by simp
  have ne: "(of_nat ?s :: u64) \<noteq> npos" using assms(6) by (intro of_nat_npos) simp
  have mn: "min (of_nat ?s) (of_nat (length ?m + 1) :: u64) = of_nat ?s"
    using assms(6) by (intro min_of_nat) simp_all
  have "range ?m (of_nat 0) (of_nat (length verb)) = Some (Inr verb)"
    using assms(6) by (subst range_cut) simp_all
  moreover have "range ?m (of_nat (length verb + 2)) (of_nat ?s) = Some (Inr k)"
    using assms(6) by (subst range_cut) simp_all
  moreover have "range ?m (of_nat (?s + 1)) (of_nat (length ?m + 1)) = Some (Inr (v @ [NUL]))"
    using assms(6) by (subst range_cut) (simp_all add: numeral_3_eq_3)
  ultimately show ?thesis
    using sp s1 s2 plain_find [OF pl] ne mn
    by (simp add: message_words_def Let_def add.assoc [symmetric] add.commute [of 1] add.commute [of 2])
qed

text \<open>A line break behind the value cuts it there, and no NUL is added.\<close>

lemma message_words_cut:
  assumes "CHR '' '' \<notin> set verb" and "CHR ''/'' \<notin> set k" and "plain verb" "plain k" "plain v"
    and "length verb + length k + length v + length rest < 2 ^ 62"
  shows "message_words (verb @ '' /'' @ k @ ''/'' @ v @ CHR 0x0A # rest) = Some (Inr (verb, k, v))"
proof -
  let ?m = "verb @ '' /'' @ k @ ''/'' @ v @ CHR 0x0A # rest"
  let ?s = "length verb + 2 + length k" and ?e = "length verb + 3 + length k + length v"
  have sp: "find_char ?m (CHR '' '') 0 = of_nat (length verb)"
    using find_char_found_0 [OF assms(1)] assms(6) by simp
  have s1: "find_char ?m (CHR ''/'') (of_nat (length verb + 1)) = of_nat (length verb + 1)"
    using find_char_found [of "CHR ''/''" "length verb + 1" "verb @ '' ''"
        "k @ ''/'' @ v @ CHR 0x0A # rest"] assms(6) by simp
  have s2: "find_char ?m (CHR ''/'') (of_nat (length verb + 2)) = of_nat ?s"
    using find_char_found [of "CHR ''/''" "length verb + 2" "verb @ '' /'' @ k"
        "v @ CHR 0x0A # rest"] assms(2,6) by simp
  have nl: "find_char ?m (CHR 0x0A) 0 = of_nat ?e"
    using find_char_found_0 [of "CHR 0x0A" "verb @ '' /'' @ k @ ''/'' @ v" rest] assms
    by (simp add: plain_def add.commute add.left_commute)
  have eol: "min (min (of_nat ?e) (find_char ?m (CHR 0x0D) 0)) (of_nat (length ?m + 1)) = (of_nat ?e :: u64)"
  proof -
    have "of_nat ?e \<le> find_char ?m (CHR 0x0D) 0"
    proof (cases "CHR 0x0D \<in> set rest")
      case False
      then have "find_char ?m (CHR 0x0D) 0 = npos" using assms(3-5)
        by (intro find_char_absent_0) (simp add: plain_def)
      then show ?thesis by (simp add: npos_def)
    next
      case True
      then obtain r1 r2 where r: "rest = r1 @ CHR 0x0D # r2" "CHR 0x0D \<notin> set r1"
        by (meson split_list_first)
      then have "find_char ?m (CHR 0x0D) 0 = of_nat (?e + Suc (length r1))"
        using find_char_found_0 [of "CHR 0x0D" "verb @ '' /'' @ k @ ''/'' @ v @ CHR 0x0A # r1" r2] assms
        by (simp add: plain_def add.commute add.left_commute)
      moreover have "?e + Suc (length r1) < 2 ^ 64" using r(1) assms(6) by simp
      ultimately show ?thesis
        using assms(6) by (simp only: word_le_nat_alt unat_of_nat_64)
    qed
    then have "min (of_nat ?e) (find_char ?m (CHR 0x0D) 0) = (of_nat ?e :: u64)" by (simp add: min_def)
    moreover have "min (of_nat ?e) (of_nat (length ?m + 1)) = (of_nat ?e :: u64)"
      using assms(6) by (intro min_of_nat) simp_all
    ultimately show ?thesis by simp
  qed
  have ne: "(of_nat ?s :: u64) \<noteq> npos" using assms(6) by (intro of_nat_npos) simp
  have mn: "min (of_nat ?s) (of_nat ?e :: u64) = of_nat ?s"
    using assms(6) by (intro min_of_nat) simp_all
  have "range ?m (of_nat 0) (of_nat (length verb)) = Some (Inr verb)"
    using assms(6) by (subst range_cut) simp_all
  moreover have "range ?m (of_nat (length verb + 2)) (of_nat ?s) = Some (Inr k)"
    using assms(6) by (subst range_cut) simp_all
  moreover have "range ?m (of_nat (?s + 1)) (of_nat ?e) = Some (Inr v)"
    using assms(6) by (subst range_cut) (simp_all add: numeral_3_eq_3)
  ultimately show ?thesis
    using sp s1 s2 nl eol ne mn
    by (simp add: message_words_def Let_def add.assoc [symmetric] add.commute [of 1]
        add.commute [of 2] add.commute [of 3])
qed

text \<open>Without a space the verb would end before the start of the message.\<close>

lemma message_words_no_space:
  "CHR '' '' \<notin> set m \<Longrightarrow> message_words m = Some (Inl Length_Error)"
  by (simp add: message_words_def Let_def find_char_absent_0 range_npos)

text \<open>Cutting a message never reads outside it.\<close>

lemma find_in_buf_from_cases:
  "find_in_buf_from s c p = npos \<or> (\<exists>q. p \<le> q \<and> q < p + length s \<and> find_in_buf_from s c p = of_nat q)"
proof (cases "c \<in> set s")
  case True
  then obtain as bs where s: "s = as @ c # bs" "c \<notin> set as" by (meson split_list_first)
  then show ?thesis using find_in_buf_from_found [OF s(2), of bs p]
    by (intro disjI2 exI [of _ "p + length as"]) simp
next
  case False
  then show ?thesis by (simp add: find_in_buf_from_absent)
qed

lemma find_char_cases:
  assumes "length s < 2 ^ 63"
  shows "find_char s c p = npos \<or> unat (find_char s c p) < length s"
proof (cases "unat p < length s")
  case True
  then show ?thesis
    using find_in_buf_from_cases [of "drop (unat p) s" c "unat p"] assms
    by (auto simp: find_char_def unat_of_nat_64)
next
  case False
  then show ?thesis by (simp add: find_char_def)
qed

lemma range_total: "unat j \<le> length s + 1 \<Longrightarrow> range s i j \<noteq> None"
  by (simp add: range_def)

lemma message_words_total:
  assumes "length m < 2 ^ 62"
  shows "message_words m \<noteq> None"
proof -
  define eol where "eol = min (min (find_char m (CHR 0x0A) 0) (find_char m (CHR 0x0D) 0))
    (of_nat (length m) + 1)"
  have u: "unat (of_nat (length m) + 1 :: u64) = length m + 1"
    using unat_of_nat_64 [of "length m + 1"] assms by (simp add: add.commute)
  have "eol \<le> of_nat (length m) + 1" by (simp add: eol_def)
  then have e: "unat eol \<le> length m + 1" using u by (simp add: word_le_nat_alt)
  then have e2: "unat (min x eol) \<le> length m + 1" for x
    using min.cobounded2 [of x eol] by (simp add: word_le_nat_alt)
  have r: "range m 0 (find_char m (CHR '' '') 0) \<noteq> None"
    using find_char_cases [of m "CHR '' ''" 0] assms
    by (auto simp: range_npos intro: range_total [unfolded not_None_eq])
  define fs where "fs = find_char m (CHR ''/'') (find_char m (CHR '' '') 0 + 1)"
  define ss where "ss = find_char m (CHR ''/'') (fs + 1)"
  obtain r0 r1 r2 where "range m 0 (find_char m (CHR '' '') 0) = Some r0"
      "range m (fs + 1) (min ss eol) = Some r1" "range m (ss + 1) eol = Some r2"
    using r range_total [OF e2] range_total [OF e] by blast
  then show ?thesis
    unfolding message_words_def Let_def eol_def [symmetric] fs_def [symmetric] ss_def [symmetric]
    by (simp split: sum.splits)
qed

text \<open>What the words are cut from: the message, or the message and the NUL at its end.\<close>

lemma range_piece:
  assumes "range s i j = Some (Inr t)"
  shows "sublist t (s @ [NUL])"
proof -
  have "t = take (unat (j - i)) (drop (unat i) (s @ [NUL]))"
    using assms by (simp add: range_def split: if_splits)
  then show ?thesis by (metis sublist_drop sublist_order.order_trans sublist_take)
qed

lemma range_between:
  assumes "range s i j = Some (Inr t)" and "unat i \<le> length s" and "length s < 2 ^ 62"
  shows "unat i \<le> unat j" and "t = take (unat j - unat i) (drop (unat i) (s @ [NUL]))"
proof -
  have r: "\<not> sint (j - i) < 0" "unat j \<le> length s + 1" "t = take (unat (j - i)) (drop (unat i) (s @ [NUL]))"
    using assms(1) by (simp_all add: range_def split: if_splits)
  show le: "unat i \<le> unat j"
  proof (rule ccontr)
    assume "\<not> unat i \<le> unat j"
    moreover have "unat i < 4611686018427387904" using assms(2,3) by simp
    ultimately have "uint j < uint i" "uint i < 4611686018427387904" unfolding uint_nat by linarith+
    then have "2 ^ 63 \<le> uint (j - i)" using uint_sub_if' [of j i] by (simp, use uint_ge_0 [of j] in linarith)
    then show False using r(1) sint_negative by blast
  qed
  then have "unat (j - i) = unat j - unat i" by (simp add: unat_sub word_le_nat_alt)
  with r(3) show "t = take (unat j - unat i) (drop (unat i) (s @ [NUL]))" by simp
qed

lemma range_inside:
  assumes "range s i j = Some (Inr t)" and "unat i \<le> length s" and "length s < 2 ^ 62" and "unat j \<le> length s"
  shows "sublist t s"
proof -
  have "t = take (unat j - unat i) (drop (unat i) s)"
    using range_between [OF assms(1-3)] assms(4) by simp
  then show ?thesis by (metis sublist_drop sublist_order.order_trans sublist_take)
qed

lemma range_to_end:
  assumes "range s i j = Some (Inr t)" and "unat i \<le> length s" and "length s < 2 ^ 62" and "unat j = length s + 1"
  shows "t \<noteq> [] \<and> suffix t (s @ [NUL])"
proof -
  have "t = drop (unat i) (s @ [NUL])"
    using range_between [OF assms(1-3)] assms(2,4) by simp
  then show ?thesis using assms(2) suffix_drop [of "unat i" "s @ [NUL]"] by simp
qed

lemma find_char_next:
  assumes "length s < 2 ^ 62"
  shows "unat (find_char s c p + 1) \<le> length s"
proof (cases "find_char s c p = npos")
  case False
  then have "unat (find_char s c p) < length s" using find_char_cases [of s c p] assms by simp
  moreover have "unat (w + 1) = unat w + 1" if "unat w < 2 ^ 62" for w :: u64
    using unat_of_nat_64 [of "unat w + 1"] that by (simp add: add.commute)
  ultimately show ?thesis using assms by simp
qed simp

lemma end_of_line:
  assumes "length m < 2 ^ 62"
  defines "eol \<equiv> min (min (find_char m (CHR 0x0A) 0) (find_char m (CHR 0x0D) 0)) (of_nat (length m) + 1)"
  shows "plain m \<Longrightarrow> unat eol = length m + 1" and "\<not> plain m \<Longrightarrow> unat eol \<le> length m"
proof -
  have u: "unat (of_nat (length m) + 1 :: u64) = length m + 1"
    using unat_of_nat_64 [of "length m + 1"] assms by (simp add: add.commute)
  show "unat eol = length m + 1" if "plain m"
    using plain_find [OF that] u by (simp add: eol_def)
  show "unat eol \<le> length m" if breaks: "\<not> plain m"
  proof -
    obtain c where c: "c \<in> set m" "c = CHR 0x0A \<or> c = CHR 0x0D" using breaks unfolding plain_def by blast
    obtain as bs where m: "m = as @ c # bs" "c \<notin> set as" using split_list_first [OF c(1)] by blast
    then have "unat (find_char m c 0) \<le> length m"
      using find_char_found_0 [OF m(2), of bs] assms(1) by (simp add: unat_of_nat_64)
    moreover have "eol \<le> find_char m c 0" using c(2) by (auto simp: eol_def min.coboundedI1)
    ultimately show ?thesis by (simp add: word_le_nat_alt)
  qed
qed

lemma message_words_pieces:
  assumes "length m < 2 ^ 62" and "message_words m = Some (Inr (f, i, j))"
  shows "sublist f m \<and> (if plain m
    then (if j = [] then i \<noteq> [] \<and> suffix i (m @ [NUL]) else sublist i m \<and> suffix j (m @ [NUL]))
    else sublist i m \<and> sublist j m)"
proof -
  define eol where "eol = min (min (find_char m (CHR 0x0A) 0) (find_char m (CHR 0x0D) 0))
    (of_nat (length m) + 1)"
  define fs where "fs = find_char m (CHR ''/'') (find_char m (CHR '' '') 0 + 1)"
  define ss where "ss = find_char m (CHR ''/'') (fs + 1)"
  have w: "range m 0 (find_char m (CHR '' '') 0) = Some (Inr f)" "range m (fs + 1) (min ss eol) = Some (Inr i)"
      "if ss = npos then j = [] else range m (ss + 1) eol = Some (Inr j)"
    using assms(2)
    unfolding message_words_def Let_def eol_def [symmetric] fs_def [symmetric] ss_def [symmetric]
    by (auto split: Option.bind_splits sum.splits if_splits)
  note eol = end_of_line [OF assms(1), folded eol_def]
  have le: "unat (fs + 1) \<le> length m" "unat (ss + 1) \<le> length m"
    using find_char_next [OF assms(1)] by (simp_all add: fs_def ss_def)
  have ss: "unat ss < length m" if "ss \<noteq> npos"
    using find_char_cases [of m "CHR ''/''" "fs + 1"] that assms(1) by (auto simp: ss_def)
  have "unat (find_char m (CHR '' '') 0) \<le> length m"
    using find_char_cases [of m "CHR '' ''" 0] w(1) assms(1) by (auto simp: range_npos)
  then have f: "sublist f m" using range_inside [OF w(1) _ assms(1)] by simp
  show ?thesis
  proof (cases "plain m")
    case True
    show ?thesis
    proof (cases "ss = npos")
      case none: True
      then have "i \<noteq> [] \<and> suffix i (m @ [NUL])"
        using range_to_end [OF w(2) le(1) assms(1)] eol(1) [OF True] by (simp del: suffix_snoc)
      with f True none w(3) show ?thesis by (simp del: suffix_snoc)
    next
      case False
      have "min ss eol = ss" using ss [OF False] eol(1) [OF True] by (simp add: min_def word_le_nat_alt)
      then have "sublist i m" using range_inside [OF w(2) le(1) assms(1)] ss [OF False] by simp
      moreover have "j \<noteq> [] \<and> suffix j (m @ [NUL])"
        using range_to_end [OF _ le(2) assms(1) eol(1) [OF True]] w(3) False by (simp del: suffix_snoc)
      ultimately show ?thesis using f True by (simp del: suffix_snoc)
    qed
  next
    case False
    have "unat (min ss eol) \<le> length m"
      using eol(2) [OF False] min.cobounded2 [of ss eol] by (simp add: word_le_nat_alt)
    then have "sublist i m" by (rule range_inside [OF w(2) le(1) assms(1)])
    moreover have "sublist j m"
      using range_inside [OF _ le(2) assms(1) eol(2) [OF False]] w(3) by (simp split: if_splits)
    ultimately show ?thesis using f False by simp
  qed
qed

section \<open>Which messages are harmless\<close>

text \<open>
  A cache that has taken at most \<open>n\<close> messages, whose values all end in a NUL: the bound on the
  slots keeps the table from outgrowing its address space.
\<close>

definition cache_ok :: "nat \<Rightarrow> cache_obj \<Rightarrow> bool" where
  "cache_ok n c \<longleftrightarrow> (\<exists>es. cache_holds c es \<and> length es \<le> n \<and>
     (\<forall>e \<in> set es. NUL \<in> set (snd e)) \<and> unat (table_size c) \<le> 4 * n + 2503)"

text \<open>
  The words the handlers can work with: a \<open>GET\<close> names a key, a \<open>PUT\<close> brings a value that ends
  in a NUL, and a new memory size is not negative.
\<close>

definition safe_words :: "char list \<times> char list \<times> char list \<Rightarrow> bool" where
  "safe_words ws = (case ws of (f, i, j) \<Rightarrow>
     (f = ''GET'' \<longrightarrow> i \<noteq> []) \<and>
     (f = ''PUT'' \<longrightarrow> NUL \<in> set j \<and> length j < 2 ^ 32) \<and>
     (f = ''POST'' \<and> strip i = ''memsize'' \<longrightarrow> (case stoll j of Inl _ \<Rightarrow> True | Inr n \<Rightarrow> 0 \<le> n)))"

lemma c_string_Some: "NUL \<in> set v \<Longrightarrow> \<exists>s. c_string v = Some s"
  by (simp add: c_string_def)

lemma spec_touch_set: "set (spec_touch k es) \<subseteq> set es"
  by (auto simp: spec_touch_def spec_delete_set split: option.splits dest: map_of_SomeD)

lemma spec_set_set: "set (spec_set cap k v es) \<subseteq> insert (k, v) (set es)"
  using spec_evict_subset [of cap "length v" "spec_delete k es"]
  by (auto simp: spec_set_def spec_delete_set)

lemma stoll_less: "stoll s = Inr n \<Longrightarrow> n < 2 ^ 63"
  by (auto simp: stoll_def Let_def split: if_splits)

lemma cache_ok_create:
  assumes "unat m \<le> max_capacity"
  shows "cache_ok n (create_cache m None)"
  unfolding cache_ok_def using cache_holds_create [OF assms valid_hash_None]
  by (intro exI [of _ "[]"]) simp

section \<open>The handlers, over any connection\<close>

text \<open>
  What the handlers rely on of a connection: it reads and writes one cache, and sending does
  not touch it.
\<close>

locale connection =
  fixes T :: "'s con_ty"
  assumes cache_set_cache: "con_cache T (con_set_cache T c w) = c"
    and set_cache_twice: "con_set_cache T c (con_set_cache T c' w) = con_set_cache T c w"
    and set_cache_same: "con_set_cache T (con_cache T w) w = w"
    and cache_write: "con_cache T (con_write_message T s w) = con_cache T w"
    and return_error_eq: "con_return_error T w = con_write_message T ''ERROR'' w"
begin

abbreviation stores :: "'s \<Rightarrow> entry list \<Rightarrow> bool" where
  "stores w es \<equiv> cache_holds (con_cache T w) es"

lemma get_present:
  assumes "stores w es" and "c_string (i @ [NUL]) = Some k" and "map_of es k = Some v"
    and "c_string v = Some s" and "i \<noteq> []"
  shows "\<exists>c. get T i w = Some (Inr (con_write_message T
      (''{ \"key\": \"'' @ butlast i @ ''\" , \"value\": \"'' @ s @ ''\" } '') (con_set_cache T c w))) \<and>
    cache_holds c (spec_touch k es) \<and> maxmem c = maxmem (con_cache T w) \<and>
    table_size c = table_size (con_cache T w)"
proof -
  obtain c where c: "get_bytes (con_cache T w) (i @ [NUL]) = Some (Some v, of_nat (length v), c)"
      "cache_holds c (spec_touch k es)" "maxmem c = maxmem (con_cache T w)"
      "table_size c = table_size (con_cache T w)"
    using hash_cache.holds_get [OF assms(1,2)] assms(3) by (auto simp: word_unat_eq_iff)
  then obtain a n where "cache_get (con_cache T w) (i @ [NUL]) = Some (Some a, n, c)"
      "cells (bufs c) a = Some v"
    by (auto simp: get_bytes_def split: Option.bind_splits option.splits)
  with c(2-4) assms(4,5) show ?thesis by (intro exI [of _ c]) (simp add: get_def make_json_def)
qed

lemma get_absent:
  assumes "stores w es" and "c_string (i @ [NUL]) = Some k" and "map_of es k = None"
  shows "\<exists>c. get T i w = Some (Inr (con_write_message T ''ERROR'' (con_set_cache T c w))) \<and>
    cache_holds c es \<and> maxmem c = maxmem (con_cache T w) \<and>
    table_size c = table_size (con_cache T w)"
proof -
  obtain c where c: "get_bytes (con_cache T w) (i @ [NUL]) = Some (None, 0, c)"
      "cache_holds c (spec_touch k es)" "maxmem c = maxmem (con_cache T w)"
      "table_size c = table_size (con_cache T w)"
    using hash_cache.holds_get [OF assms(1,2)] assms(3) by (auto simp: word_unat_eq_iff)
  then obtain n where "cache_get (con_cache T w) (i @ [NUL]) = Some (NULL, n, c)"
    by (auto simp: get_bytes_def split: Option.bind_splits option.splits)
  with c(2-4) assms(3) show ?thesis
    by (intro exI [of _ c]) (simp add: get_def return_error_eq spec_touch_def)
qed

text \<open>A stored value without a NUL is read beyond its buffer.\<close>

lemma get_over_reads:
  assumes "stores w es" and "c_string (i @ [NUL]) = Some k" and "map_of es k = Some v"
    and "c_string v = None"
  shows "get T i w = None"
proof -
  obtain c where c: "get_bytes (con_cache T w) (i @ [NUL]) = Some (Some v, of_nat (length v), c)"
    using hash_cache.holds_get [OF assms(1,2)] assms(3) by auto
  then obtain a n where "cache_get (con_cache T w) (i @ [NUL]) = Some (Some a, n, c)"
      "cells (bufs c) a = Some v"
    by (auto simp: get_bytes_def split: Option.bind_splits option.splits)
  with assms(4) show ?thesis by (simp add: get_def)
qed

lemma put_stores:
  assumes "stores w es" and "c_string (i @ [NUL]) = Some k" and "length v < 2 ^ 32"
    and "unat (table_size (con_cache T w)) < 2 ^ 60"
  shows "\<exists>c. put T i v w = Some (Inr (con_set_cache T c w)) \<and>
    cache_holds c (spec_set (unat (maxmem (con_cache T w))) k v es) \<and>
    maxmem c = maxmem (con_cache T w) \<and>
    unat (table_size c) \<le> max (unat (table_size (con_cache T w))) (4 * Suc (length es))"
proof -
  have "unat (of_nat (length v) :: u32) = length v"
    using assms(3) by (simp add: unat_of_nat take_bit_nat_eq_self)
  with hash_cache.holds_set [OF assms(1,2), of "of_nat (length v)" "v @ [NUL]"] assms(4)
  show ?thesis by (auto simp: put_def word_unat_eq_iff)
qed

lemma delete_forgets:
  assumes "stores w es" and "c_string (i @ [NUL]) = Some k"
  shows "\<exists>c. delete_key T i w = Some (Inr (con_set_cache T c w)) \<and>
    cache_holds c (spec_delete k es) \<and> maxmem c = maxmem (con_cache T w) \<and>
    table_size c = table_size (con_cache T w)"
  using hash_cache.holds_delete [OF assms] by (auto simp: delete_key_def word_unat_eq_iff)

lemma post_memsize_empty:
  assumes "stores w es" and "entry_bytes es = 0" and "strip i = ''memsize''" and "stoll j = Inr n"
  shows "post T i j w = Some (Inr (con_set_cache T (create_cache (word_of_int n) None) w))"
proof -
  have "cache_space_used (con_cache T w) = 0"
    using hash_cache.holds_space [OF assms(1)] assms(2) by (simp add: unat_eq_zero)
  moreover obtain c where "destroy_cache (con_cache T w) = Some c"
    using hash_cache.holds_destroy [OF assms(1)] by blast
  ultimately show ?thesis using assms(3,4) by (simp add: post_def set_cache_twice)
qed

lemma post_memsize_used:
  assumes "stores w es" and "entry_bytes es \<noteq> 0" and "strip i = ''memsize''"
  shows "post T i j w = Some (Inr (con_write_message T ''ERROR'' w))"
proof -
  have "cache_space_used (con_cache T w) \<noteq> 0"
    using hash_cache.holds_space [OF assms(1)] assms(2) by auto
  then show ?thesis using assms(3) by (simp add: post_def return_error_eq)
qed

text \<open>Harmless words never lead to undefined behaviour and leave the cache as good as it was.\<close>

lemma act_safe:
  assumes ok: "cache_ok n (con_cache T w)" and n: "n < 2 ^ 57"
    and m: "message_words m = Some (Inr ws)" and s: "safe_words ws"
  shows "\<exists>r. act_on_message T m w = Some r \<and> (case r of
      Inl (e, w') \<Rightarrow> (e = Exit_Exception \<longrightarrow> cache_ok n (con_cache T w'))
    | Inr w' \<Rightarrow> cache_ok (Suc n) (con_cache T w'))"
proof -
  obtain f i j where ws: "ws = (f, i, j)" by (cases ws)
  obtain es where es: "stores w es" "length es \<le> n" "\<forall>e \<in> set es. NUL \<in> set (snd e)"
      "unat (table_size (con_cache T w)) \<le> 4 * n + 2503"
    using ok by (auto simp: cache_ok_def)
  have ts: "unat (table_size (con_cache T w)) < 2 ^ 60" using es(4) n by simp
  obtain k where k: "c_string (i @ [NUL]) = Some k" using c_string_Some [of "i @ [NUL]"] by auto
  have good: "cache_ok (Suc n) c" if "cache_holds c es'" "length es' \<le> Suc (length es)"
      "\<forall>e \<in> set es'. NUL \<in> set (snd e)"
      "unat (table_size c) \<le> max (unat (table_size (con_cache T w))) (4 * Suc (length es))"
    for c es'
    unfolding cache_ok_def using that es(2,4) by (intro exI [of _ es']) auto
  have act: "act_on_message T m w = (if f = ''GET'' then get T i w
         else if f = ''PUT'' then put T i j w
         else if f = ''DELETE'' then delete_key T i w
         else if f = ''HEAD'' then head T w
         else if f = ''POST'' then post T i j w
         else Some (Inl (Runtime_Error ''bad message'', w)))"
    using m ws by (simp add: act_on_message_def)
  consider (GET) "f = ''GET''" | (PUT) "f = ''PUT''" | (DELETE) "f = ''DELETE''" | (HEAD) "f = ''HEAD''"
    | (POST) "f = ''POST''" | (other) "f \<notin> {''GET'', ''PUT'', ''DELETE'', ''HEAD'', ''POST''}" by blast
  then show ?thesis
  proof cases
    case GET
    have i: "i \<noteq> []" using s ws GET by (simp add: safe_words_def)
    have tch: "\<forall>e \<in> set (spec_touch k es). NUL \<in> set (snd e)" using es(3) spec_touch_set by blast
    show ?thesis
    proof (cases "map_of es k")
      case None
      with get_absent [OF es(1) k] good [of _ es] es(3) act GET show ?thesis
        by (fastforce simp: cache_write cache_set_cache)
    next
      case (Some v)
      then have "NUL \<in> set v" using es(3) map_of_SomeD [OF Some] by auto
      then obtain t where "c_string v = Some t" using c_string_Some by blast
      from get_present [OF es(1) k Some this i] good [of _ "spec_touch k es"] tch length_spec_touch [of k es]
        act GET show ?thesis
        by (fastforce simp: cache_write cache_set_cache)
    qed
  next
    case PUT
    then have j: "NUL \<in> set j" "length j < 2 ^ 32" using s ws by (simp_all add: safe_words_def)
    have all: "\<forall>e \<in> set (spec_set cap k j es). NUL \<in> set (snd e)" for cap
      using spec_set_set [of cap k j es] es(3) j(1) by auto
    from put_stores [OF es(1) k j(2) ts] obtain c where c: "put T i j w = Some (Inr (con_set_cache T c w))"
      "cache_holds c (spec_set (unat (maxmem (con_cache T w))) k j es)"
      "unat (table_size c) \<le> max (unat (table_size (con_cache T w))) (4 * Suc (length es))" by blast
    from good [OF c(2) length_spec_set all c(3)] c(1) act PUT show ?thesis
      by (simp add: cache_set_cache)
  next
    case DELETE
    from delete_forgets [OF es(1) k] obtain c where c: "delete_key T i w = Some (Inr (con_set_cache T c w))"
      "cache_holds c (spec_delete k es)" "table_size c = table_size (con_cache T w)" by blast
    have "cache_ok (Suc n) c"
      by (rule good [OF c(2)])
        (use length_spec_delete [of k es] es(3) c(3) in \<open>auto simp: spec_delete_set\<close>)
    with c(1) act DELETE show ?thesis by (simp add: cache_set_cache)
  next
    case HEAD
    have "cache_ok (Suc n) (con_cache T w)" by (rule good [OF es(1)]) (use es(3) in auto)
    with act HEAD show ?thesis by (simp add: head_def)
  next
    case POST
    have same: "cache_ok (Suc n) (con_cache T w)" by (rule good [OF es(1)]) (use es(3) in auto)
    show ?thesis
    proof (cases "strip i = ''memsize''")
      case False
      then have "post T i j w = Some (Inl (if strip i = ''shutdown'' then Exit_Exception
          else Runtime_Error ''bad POST message'', w))" by (simp add: post_def Let_def)
      then show ?thesis using act POST ok by auto
    next
      case True
      show ?thesis
      proof (cases "entry_bytes es = 0")
        case False
        from post_memsize_used [OF es(1) this True] act POST same show ?thesis
          by (simp add: cache_write)
      next
        case zero: True
        show ?thesis
        proof (cases "stoll j")
          case (Inr v)
          then have v: "0 \<le> v" "v < 2 ^ 63"
            using s ws POST True stoll_less [OF Inr] by (simp_all add: safe_words_def)
          then have "unat (word_of_int v :: u64) \<le> max_capacity"
            by (simp add: unat_eq_nat_uint uint_word_of_int max_capacity_def)
          then show ?thesis using post_memsize_empty [OF es(1) zero True Inr] act POST
            by (simp add: cache_set_cache cache_ok_create)
        next
          case (Inl e)
          have "cache_space_used (con_cache T w) = 0"
            using hash_cache.holds_space [OF es(1)] zero by (simp add: unat_eq_zero)
          moreover obtain c where "destroy_cache (con_cache T w) = Some c"
            using hash_cache.holds_destroy [OF es(1)] by blast
          moreover have "e \<noteq> Exit_Exception" using Inl by (auto simp: stoll_def Let_def split: if_splits)
          ultimately show ?thesis using True Inl act POST by (simp add: post_def)
        qed
      qed
    qed
  next
    case other
    then show ?thesis using act by auto
  qed
qed

end

interpretation tcp: connection "tcp_con sock" for sock
  by unfold_locales (simp_all add: tcp_con_def tcp_write_message_def tcp_return_error_def)

interpretation udp: connection udp_server
  by unfold_locales (simp_all add: udp_server_def udp_write_message_def udp_return_error_def)

lemma con_simps [simp]:
  "con_cache (tcp_con sock) = port_cache" "con_cache udp_server = port_cache"
  "con_set_cache (tcp_con sock) c w = w\<lparr>port_cache := c\<rparr>"
  "con_set_cache udp_server c w = w\<lparr>port_cache := c\<rparr>"
  "con_write_message (tcp_con sock) s w = w\<lparr>sent := sent w @ [Tcp_Write sock s]\<rparr>"
  "con_write_message udp_server s w = w\<lparr>sent := sent w @ [Udp_Send (endpoint w) (s @ [NUL])]\<rparr>"
  by (simp_all add: tcp_con_def udp_server_def tcp_write_message_def udp_write_message_def)

section \<open>Properties\<close>

lemma strip_keeps:
  assumes "s \<noteq> [] \<Longrightarrow> \<not> is_white_space (last s)" and "\<not> is_white_space c"
    and "\<forall>x \<in> set ws. is_white_space x" and "length p + length s + length ws < 2 ^ 31 - 1"
  shows "strip (p @ c # s @ ws) = p @ c # s"
proof (cases s rule: rev_cases)
  case Nil
  then show ?thesis using strip_append_white [OF assms(2,3), of p] assms(4) by simp
next
  case (snoc t d)
  then show ?thesis using strip_append_white [of d ws "p @ c # t"] assms by simp
qed

lemma handle_read_put:
  assumes "cache_holds (port_cache w) es" and "unat (table_size (port_cache w)) < 2 ^ 60"
    and "NUL \<notin> set k" and "CHR ''/'' \<notin> set k" and "plain k" and "plain v"
    and "v \<noteq> [] \<longrightarrow> \<not> is_white_space (last v)" and "\<forall>x \<in> set ws. is_white_space x"
    and "length k + length v + length ws < 2 ^ 30"
  shows "\<exists>c. handle_read sock (''PUT /'' @ k @ ''/'' @ v @ ws) w = Some (Inr (w\<lparr>port_cache := c\<rparr>)) \<and>
    cache_holds c (spec_set (unat (maxmem (port_cache w))) k (v @ [NUL]) es) \<and>
    maxmem c = maxmem (port_cache w)"
proof -
  have "strip ((''PUT /'' @ k) @ CHR ''/'' # v @ ws) = (''PUT /'' @ k) @ CHR ''/'' # v"
    by (rule strip_keeps) (use assms(7-9) in \<open>auto simp: is_white_space_def\<close>)
  then have st: "strip (''PUT /'' @ k @ ''/'' @ v @ ws) = ''PUT'' @ '' /'' @ k @ ''/'' @ v" by simp
  have "message_words (''PUT'' @ '' /'' @ k @ ''/'' @ v) = Some (Inr (''PUT'', k, v @ [NUL]))"
    by (rule message_words_key_value) (use assms in \<open>auto simp: plain_def\<close>)
  then have "handle_read sock (''PUT /'' @ k @ ''/'' @ v @ ws) w = put (tcp_con sock) k (v @ [NUL]) w"
    unfolding handle_read_def st by (simp add: act_on_message_def)
  moreover have "c_string (k @ [NUL]) = Some k" using assms(3) by simp
  ultimately show ?thesis
    using tcp.put_stores [of sock w es k k "v @ [NUL]"] assms(1,2,9) by auto
qed

text \<open>
  C16: \<open>PUT\<close>.  The message \<open>PUT /key/value\<close> over TCP, whatever white space and NULs follow it,
  stores the value with a NUL behind it under the key; nothing is answered.  The value may
  contain slashes and spaces, but must not end in white space, which \<open>strip\<close> takes away.
\<close>

theorem tcp_put_stores:
  assumes "cache_holds (port_cache w) es" and "unat (table_size (port_cache w)) < 2 ^ 60"
    and "NUL \<notin> set k" and "CHR ''/'' \<notin> set k" and "plain k" and "plain v"
    and "v \<noteq> [] \<longrightarrow> \<not> is_white_space (last v)" and "\<forall>x \<in> set ws. is_white_space x"
    and "length k + length v + length ws < 2 ^ 30"
  shows "\<exists>c. handle_read sock (''PUT /'' @ k @ ''/'' @ v @ ws) w = Some (Inr (w\<lparr>port_cache := c\<rparr>)) \<and>
    cache_holds c (spec_set (unat (maxmem (port_cache w))) k (v @ [NUL]) es) \<and>
    maxmem c = maxmem (port_cache w)"
  using assms by (rule handle_read_put)

definition small_server :: server where
  "small_server = run_server 100 (''GET /a'' @ replicate 65498 NUL)"

lemma small_server_cache: "port_cache small_server = create_cache 100 None"
  by (simp add: small_server_def run_server_def)

lemma small_server_holds: "cache_holds (port_cache small_server) []"
  by (simp add: small_server_cache small_cache_holds)

lemma tcp_put_stores_witness:
  "\<exists>c. handle_read 1 (''PUT /'' @ ''a'' @ ''/'' @ ''xy'' @ [NUL]) small_server =
      Some (Inr (small_server\<lparr>port_cache := c\<rparr>)) \<and>
    cache_holds c (spec_set (unat (maxmem (port_cache small_server))) ''a'' (''xy'' @ [NUL]) []) \<and>
    maxmem c = maxmem (port_cache small_server)"
  by (rule tcp_put_stores)
    (simp_all add: small_server_cache small_cache_holds plain_def is_white_space_def)

lemma handle_receive_get:
  assumes "cache_holds (port_cache w) es" and "NUL \<notin> set k" and "CHR ''/'' \<notin> set k" and "plain k"
    and "k \<noteq> [] \<longrightarrow> \<not> is_white_space (last k)" and "recbuf w = ''GET /'' @ k @ NUL # rest"
    and "length k < 2 ^ 30" and "\<forall>v. map_of es k = Some v \<longrightarrow> NUL \<in> set v"
  shows "\<exists>c ans. handle_receive False w =
      Some (Inr (w\<lparr>port_cache := c, sent := sent w @ [Udp_Send (endpoint w) (ans @ [NUL])]\<rparr>)) \<and>
    cache_holds c (spec_touch k es) \<and>
    (case map_of es k of
       None \<Rightarrow> ans = ''ERROR''
     | Some v \<Rightarrow> \<exists>s. c_string v = Some s \<and>
         ans = ''{ \"key\": \"'' @ k @ ''\" , \"value\": \"'' @ s @ ''\" } '')"
proof -
  have "find_in_buf_from ((''GET /'' @ k) @ NUL # rest) NUL 0 = of_nat (0 + length (''GET /'' @ k))"
    using assms(2) by (intro find_in_buf_from_found) auto
  then have loc: "find_in_buf (recbuf w) NUL = of_nat (length k + 5)"
    by (simp add: find_in_buf_def assms(6) add.commute)
  have u: "unat (of_nat (length k + 5) :: u64) = length k + 5"
    using assms(7) by (intro unat_of_nat_64) simp
  have l: "length k + 5 = Suc (Suc (Suc (Suc (Suc (length k)))))" by simp
  have tk: "take (unat (of_nat (length k + 5) :: u64)) (recbuf w) = ''GET'' @ '' /'' @ k"
    unfolding u unfolding l assms(6) by simp
  have ne: "(of_nat (length k + 5) :: u64) \<noteq> npos" using assms(7) by (intro of_nat_npos) simp
  have "strip (''GET '' @ CHR ''/'' # k @ []) = ''GET '' @ CHR ''/'' # k"
    by (rule strip_keeps) (use assms(5,7) in \<open>auto simp: is_white_space_def\<close>)
  then have st: "strip (''GET'' @ '' /'' @ k) = ''GET'' @ '' /'' @ k" by simp
  have mw: "message_words (''GET'' @ '' /'' @ k) = Some (Inr (''GET'', k @ [NUL], []))"
    by (rule message_words_key) (use assms in \<open>auto simp: plain_def\<close>)
  have eq: "handle_receive False w = get udp_server (k @ [NUL]) w"
    unfolding handle_receive_def Let_def loc tk st using mw ne by (simp add: act_on_message_def)
  have k: "c_string ((k @ [NUL]) @ [NUL]) = Some k" using c_string_append [OF assms(2), of "[NUL]"] by simp
  show ?thesis
  proof (cases "map_of es k")
    case None
    from udp.get_absent [of w es "k @ [NUL]", OF _ k None] assms(1) eq None show ?thesis
      by (auto simp: spec_touch_def)
  next
    case (Some v)
    then obtain s where s: "c_string v = Some s" using assms(8) c_string_Some by blast
    from udp.get_present [of w es "k @ [NUL]", OF _ k Some s] assms(1) eq Some s show ?thesis
      by auto
  qed
qed

text \<open>
  C17: \<open>GET\<close>.  The datagram \<open>GET /key\<close> is answered to its sender with the JSON of key and value
  if the key is stored, and with \<open>ERROR\<close> if it is not; what is left in the receive buffer
  behind the NUL of the datagram does not matter.
\<close>

theorem udp_get_answers:
  assumes "cache_holds (port_cache w) es" and "NUL \<notin> set k" and "CHR ''/'' \<notin> set k" and "plain k"
    and "k \<noteq> [] \<longrightarrow> \<not> is_white_space (last k)" and "recbuf w = ''GET /'' @ k @ NUL # rest"
    and "length k < 2 ^ 30" and "\<forall>v. map_of es k = Some v \<longrightarrow> NUL \<in> set v"
  shows "\<exists>c ans. handle_receive False w =
      Some (Inr (w\<lparr>port_cache := c, sent := sent w @ [Udp_Send (endpoint w) (ans @ [NUL])]\<rparr>)) \<and>
    cache_holds c (spec_touch k es) \<and>
    (case map_of es k of
       None \<Rightarrow> ans = ''ERROR''
     | Some v \<Rightarrow> \<exists>s. c_string v = Some s \<and>
         ans = ''{ \"key\": \"'' @ k @ ''\" , \"value\": \"'' @ s @ ''\" } '')"
  using assms by (rule handle_receive_get)

lemma udp_get_answers_witness:
  "\<exists>c ans. handle_receive False small_server = Some (Inr (small_server\<lparr>port_cache := c,
      sent := sent small_server @ [Udp_Send (endpoint small_server) (ans @ [NUL])]\<rparr>)) \<and>
    cache_holds c (spec_touch ''a'' []) \<and>
    (case map_of ([] :: entry list) ''a'' of
       None \<Rightarrow> ans = ''ERROR''
     | Some v \<Rightarrow> \<exists>s. c_string v = Some s \<and>
         ans = ''{ \"key\": \"'' @ ''a'' @ ''\" , \"value\": \"'' @ s @ ''\" } '')"
proof (rule udp_get_answers)
  have "replicate 65498 NUL = NUL # replicate 65497 NUL"
    using replicate_Suc [of 65497 NUL] by simp
  then show "recbuf small_server = ''GET /'' @ ''a'' @ NUL # replicate 65497 NUL"
    by (simp add: small_server_def run_server_def)
qed (simp_all add: small_server_cache small_cache_holds plain_def is_white_space_def)

text \<open>
  C35: a message without a space (for one, the empty one a client leaves that connects and
  closes) stops the server: cutting out the verb throws, nothing on the way catches it, and
  the process terminates without giving back the cache.
\<close>

theorem message_without_space_terminates:
  assumes "CHR '' '' \<notin> set (strip b)"
  shows "handle_read sock b w = Some (Inl (Length_Error, w)) \<and>
    main_catch Length_Error w = Some (Terminated Length_Error, w)"
  using message_words_no_space [OF assms]
  by (simp add: handle_read_def act_on_message_def main_catch_def)

lemma message_without_space_terminates_witness:
  "handle_read 1 [] small_server = Some (Inl (Length_Error, small_server)) \<and>
    main_catch Length_Error small_server = Some (Terminated Length_Error, small_server)"
  by (rule message_without_space_terminates) (simp add: strip_all_white)

text \<open>
  C36: a line break in a value.  The value is cut before it and, unlike every other value, is
  stored without a NUL behind it; the next \<open>GET\<close> of the key then reads beyond the stored
  buffer.
\<close>

theorem put_with_line_break_makes_get_over_read:
  assumes "cache_holds (port_cache w) es" and "unat (table_size (port_cache w)) < 2 ^ 60"
    and "NUL \<notin> set k" and "CHR ''/'' \<notin> set k" and "plain k" and "plain v" and "NUL \<notin> set v"
    and "length v \<le> unat (maxmem (port_cache w))" and "length k + length v + length rest < 2 ^ 30"
  shows "\<exists>c. act_on_message (tcp_con sock) (''PUT /'' @ k @ ''/'' @ v @ CHR 0x0A # rest) w =
      Some (Inr (w\<lparr>port_cache := c\<rparr>)) \<and>
    act_on_message udp_server (''GET /'' @ k) (w\<lparr>port_cache := c\<rparr>) = None"
proof -
  have "message_words (''PUT'' @ '' /'' @ k @ ''/'' @ v @ CHR 0x0A # rest) = Some (Inr (''PUT'', k, v))"
    by (rule message_words_cut) (use assms in \<open>auto simp: plain_def\<close>)
  then have put: "act_on_message (tcp_con sock) (''PUT /'' @ k @ ''/'' @ v @ CHR 0x0A # rest) w =
      put (tcp_con sock) k v w" by (simp add: act_on_message_def)
  have k: "c_string (k @ [NUL]) = Some k" "c_string ((k @ [NUL]) @ [NUL]) = Some k"
    using assms(3) c_string_append [OF assms(3), of "[NUL]"] by simp_all
  obtain c where c: "put (tcp_con sock) k v w = Some (Inr (w\<lparr>port_cache := c\<rparr>))"
      "cache_holds c (spec_set (unat (maxmem (port_cache w))) k v es)"
    using tcp.put_stores [of sock w es k k v] assms(1,2,9) k(1) by auto
  have "message_words (''GET'' @ '' /'' @ k) = Some (Inr (''GET'', k @ [NUL], []))"
    by (rule message_words_key) (use assms in \<open>auto simp: plain_def\<close>)
  then have "act_on_message udp_server (''GET /'' @ k) (w\<lparr>port_cache := c\<rparr>) =
      get udp_server (k @ [NUL]) (w\<lparr>port_cache := c\<rparr>)" by (simp add: act_on_message_def)
  moreover have "c_string v = None" using assms(7) by (simp add: c_string_def)
  ultimately show ?thesis
    using udp.get_over_reads [of "w\<lparr>port_cache := c\<rparr>", OF _ k(2) spec_set_lookup [OF assms(8)]] put c
    by auto
qed

lemma put_with_line_break_makes_get_over_read_witness:
  "\<exists>c. act_on_message (tcp_con 1) (''PUT /'' @ ''a'' @ ''/'' @ ''x'' @ CHR 0x0A # ''y'') small_server =
      Some (Inr (small_server\<lparr>port_cache := c\<rparr>)) \<and>
    act_on_message udp_server (''GET /'' @ ''a'') (small_server\<lparr>port_cache := c\<rparr>) = None"
  by (rule put_with_line_break_makes_get_over_read [OF small_server_holds])
    (simp_all add: small_server_cache plain_def)

lemma message_words_post:
  "message_words ''POST /shutdown'' = Some (Inr (''POST'', ''shutdown'' @ [NUL], []))"
  using message_words_key [of "''POST''" "''shutdown''"] by (simp add: plain_def)

lemma strip_shutdown: "strip (''shutdown'' @ [NUL]) = ''shutdown''"
  using strip_append_white [of "CHR ''n''" "[NUL]" "''shutdow''"] by (simp add: is_white_space_def)

text \<open>
  \<open>POST /shutdown\<close> ends the server with status 0, and all memory of the cache is given
  back on the way out.
\<close>

theorem shutdown_gives_all_back:
  assumes "cache_holds (port_cache w) es" and "b = ''POST /shutdown'' @ ws"
    and "\<forall>x \<in> set ws. is_white_space x" and "length ws < 2 ^ 30"
  shows "handle_read sock b w = Some (Inl (Exit_Exception, w)) \<and>
    (\<exists>w'. main_catch Exit_Exception w = Some (Exited 0, w') \<and> all_freed (port_cache w'))"
proof -
  have "strip b = ''POST /shutdown''"
    using strip_append_white [of "CHR ''n''" ws "''POST /shutdow''"] assms(2-4)
    by (simp add: is_white_space_def)
  then have "handle_read sock b w = Some (Inl (Exit_Exception, w))"
    using message_words_post strip_shutdown
    by (simp add: handle_read_def act_on_message_def post_def)
  moreover obtain c where "destroy_cache (port_cache w) = Some c" "all_freed c"
    using hash_cache.holds_destroy [OF assms(1)] by blast
  ultimately show ?thesis by (simp add: main_catch_def safe_cache_destructor_def)
qed

lemma shutdown_gives_all_back_witness:
  "handle_read 1 (''POST /shutdown'' @ [NUL]) small_server = Some (Inl (Exit_Exception, small_server)) \<and>
    (\<exists>w'. main_catch Exit_Exception small_server = Some (Exited 0, w') \<and> all_freed (port_cache w'))"
  by (rule shutdown_gives_all_back [OF small_server_holds refl]) simp_all

text \<open>
  \<open>POST /memsize/n\<close> replaces the cache by a new, empty one of the new capacity if no
  bytes are stored; otherwise the answer is \<open>ERROR\<close> and the cache stays.
\<close>

theorem memsize_replaces_empty_cache:
  assumes "connection T" and "cache_holds (con_cache T w) es" and "strip i = ''memsize''"
    and "stoll j = Inr n" and "0 \<le> n"
  shows "\<exists>w'. post T i j w = Some (Inr w') \<and>
    (if entry_bytes es = 0
     then cache_holds (con_cache T w') [] \<and> unat (maxmem (con_cache T w')) = nat n
     else w' = con_write_message T ''ERROR'' w)"
proof (cases "entry_bytes es = 0")
  case True
  have u: "unat (word_of_int n :: u64) = nat n"
    using assms(5) stoll_less [OF assms(4)] by (simp add: unat_eq_nat_uint uint_word_of_int)
  then have "unat (word_of_int n :: u64) \<le> max_capacity"
    using stoll_less [OF assms(4)] by (simp add: max_capacity_def)
  with connection.post_memsize_empty [OF assms(1,2) True assms(3,4)] True u show ?thesis
    by (simp add: connection.cache_set_cache [OF assms(1)] cache_holds_create)
next
  case False
  with connection.post_memsize_used [OF assms(1,2) False assms(3)] show ?thesis by simp
qed

lemma memsize_replaces_empty_cache_witness:
  "\<exists>w'. post (tcp_con 1) (''memsize'' @ [NUL]) (''64'' @ [NUL]) small_server = Some (Inr w') \<and>
    (if entry_bytes [] = 0
     then cache_holds (con_cache (tcp_con 1) w') [] \<and> unat (maxmem (con_cache (tcp_con 1) w')) = nat 64
     else w' = con_write_message (tcp_con 1) ''ERROR'' small_server)"
  by (rule memsize_replaces_empty_cache [OF tcp.connection_axioms])
    (use strip_append_white [of "CHR ''e''" "[NUL]" "''memsiz''"] in
      \<open>simp_all add: small_server_cache small_cache_holds is_white_space_def stoll_def is_space_def
        is_digit_def digits_value_def\<close>)

text \<open>
  C40: where the words of a message come from.  Cutting ends with words or with an exception.  If the
  message has a line break, the words are pieces of it.  If it has none, the last word goes on to the
  end of the message and takes one character more, the NUL at \<open>size()\<close>, since the code cuts at
  \<open>message.size()+1\<close>; it never reads further.
\<close>

theorem message_words_in_bounds:
  assumes "length m < 2 ^ 62"
  shows "\<exists>r. message_words m = Some r \<and> (\<forall>f i j. r = Inr (f, i, j) \<longrightarrow> sublist f m \<and> (if plain m
    then (if j = [] then i \<noteq> [] \<and> suffix i (m @ [NUL]) else sublist i m \<and> suffix j (m @ [NUL]))
    else sublist i m \<and> sublist j m))"
  using message_words_total [OF assms] message_words_pieces [OF assms] by auto

lemma message_words_in_bounds_witness:
  "\<exists>r. message_words ''PUT /a/b'' = Some r \<and> (\<forall>f i j. r = Inr (f, i, j) \<longrightarrow> sublist f ''PUT /a/b'' \<and>
    (if j = [] then i \<noteq> [] \<and> suffix i (''PUT /a/b'' @ [NUL]) else sublist i ''PUT /a/b'' \<and> suffix j (''PUT /a/b'' @ [NUL])))"
  using message_words_in_bounds [of "''PUT /a/b''"] by (simp add: plain_def)

text \<open>
  \<open>strip\<close> takes away exactly the white space behind the last other character; a string
  of white space only stays as it is.
\<close>

theorem strip_takes_trailing_white_space:
  assumes "\<forall>x \<in> set ws. is_white_space x" and "s \<noteq> [] \<longrightarrow> \<not> is_white_space (last s)"
    and "length s + length ws < 2 ^ 31"
  shows "strip (s @ ws) = (if s = [] then ws else s)"
proof (cases s rule: rev_cases)
  case Nil
  then show ?thesis using strip_all_white [OF assms(1)] assms(3) by simp
next
  case (snoc t c)
  then show ?thesis using strip_append_white [of c ws t] assms by simp
qed

lemma strip_takes_trailing_white_space_witness:
  "strip (''ab'' @ [CHR '' '', NUL]) = (if ''ab'' = [] then [CHR '' '', NUL] else ''ab'')"
  by (rule strip_takes_trailing_white_space) (simp_all add: is_white_space_def)

end
