(* ===== verification/Json_Value.thy ===== *)
theory Json_Value
  imports Prelude "HOL-Library.List_Lexorder" "HOL-Library.Char_ord"
begin

text \<open>
  JSON values and the operations of class \<open>basic_json\<close> of \<open>src/json/json.hpp\<close> on them:
  construction, inspection, access, modification and comparison.

  A value is a tagged union; here its tag and content are one datatype.  An object, a
  \<open>std::map\<close>, is the list of its members in the order of the keys.  A \<open>reference\<close> returned by
  an operation is the pair of the changed container and the element.  What the code does with
  \<open>double\<close> is a parameter: a type \<open>'f\<close> with a record of its operations.
\<close>

section \<open>Values\<close>

datatype json_exn =
    Invalid_Argument_Error "char list"
  | Out_Of_Range_Error "char list"
  | Domain_Error "char list"

text \<open>What can be undefined (\<open>None\<close>: a failed assertion too), throw or give a value.\<close>

type_synonym 'a parse_result = "(json_exn + 'a) option"

definition and_then :: "'a parse_result \<Rightarrow> ('a \<Rightarrow> 'b parse_result) \<Rightarrow> 'b parse_result" where
  "and_then r f = (case r of None \<Rightarrow> None | Some (Inl e) \<Rightarrow> Some (Inl e) | Some (Inr x) \<Rightarrow> f x)"

lemma and_then_simps [simp]:
  "and_then None f = None" "and_then (Some (Inl e)) f = Some (Inl e)" "and_then (Some (Inr x)) f = f x"
  by (simp_all add: and_then_def)

datatype value_t =
    t_null | t_object | t_array | t_string | t_boolean | t_number_integer | t_number_unsigned
  | t_number_float | t_discarded

datatype 'f json =
    JNull
  | JObject "(char list \<times> 'f json) list"
  | JArray "'f json list"
  | JString "char list"
  | JBoolean bool
  | JInteger u64
  | JUnsigned u64
  | JFloat 'f
  | JDiscarded

record 'f float_ops =
  f_of_int :: "int \<Rightarrow> 'f"
  f_to_int :: "'f \<Rightarrow> int"
  f_eq :: "'f \<Rightarrow> 'f \<Rightarrow> bool"
  f_less :: "'f \<Rightarrow> 'f \<Rightarrow> bool"
  f_zero :: 'f
  f_is_whole :: "'f \<Rightarrow> bool"
  f_fixed :: "nat \<Rightarrow> 'f \<Rightarrow> char list"
  f_general :: "nat \<Rightarrow> 'f \<Rightarrow> char list"
  f_strtod :: "char list \<Rightarrow> 'f \<times> nat"

fun m_type :: "'f json \<Rightarrow> value_t" where
  "m_type JNull = t_null"
| "m_type (JObject _) = t_object"
| "m_type (JArray _) = t_array"
| "m_type (JString _) = t_string"
| "m_type (JBoolean _) = t_boolean"
| "m_type (JInteger _) = t_number_integer"
| "m_type (JUnsigned _) = t_number_unsigned"
| "m_type (JFloat _) = t_number_float"
| "m_type JDiscarded = t_discarded"

text \<open>The empty value of a type.\<close>

fun json_value :: "'f float_ops \<Rightarrow> value_t \<Rightarrow> 'f json" where
  "json_value F t_object = JObject []"
| "json_value F t_array = JArray []"
| "json_value F t_string = JString []"
| "json_value F t_boolean = JBoolean False"
| "json_value F t_number_integer = JInteger 0"
| "json_value F t_number_unsigned = JUnsigned 0"
| "json_value F t_number_float = JFloat (f_zero F)"
| "json_value F t_null = JNull"
| "json_value F t_discarded = JDiscarded"

fun type_name :: "'f json \<Rightarrow> char list" where
  "type_name JNull = ''null''"
| "type_name (JObject _) = ''object''"
| "type_name (JArray _) = ''array''"
| "type_name (JString _) = ''string''"
| "type_name (JBoolean _) = ''boolean''"
| "type_name JDiscarded = ''discarded''"
| "type_name (JInteger _) = ''number''"
| "type_name (JUnsigned _) = ''number''"
| "type_name (JFloat _) = ''number''"

section \<open>Inspection\<close>

definition is_null :: "'f json \<Rightarrow> bool" where
  "is_null j \<longleftrightarrow> m_type j = t_null"

definition is_boolean :: "'f json \<Rightarrow> bool" where
  "is_boolean j \<longleftrightarrow> m_type j = t_boolean"

definition is_number_integer :: "'f json \<Rightarrow> bool" where
  "is_number_integer j \<longleftrightarrow> m_type j = t_number_integer \<or> m_type j = t_number_unsigned"

definition is_number_unsigned :: "'f json \<Rightarrow> bool" where
  "is_number_unsigned j \<longleftrightarrow> m_type j = t_number_unsigned"

definition is_number_float :: "'f json \<Rightarrow> bool" where
  "is_number_float j \<longleftrightarrow> m_type j = t_number_float"

definition is_number :: "'f json \<Rightarrow> bool" where
  "is_number j \<longleftrightarrow> is_number_integer j \<or> is_number_float j"

definition is_object :: "'f json \<Rightarrow> bool" where
  "is_object j \<longleftrightarrow> m_type j = t_object"

definition is_array :: "'f json \<Rightarrow> bool" where
  "is_array j \<longleftrightarrow> m_type j = t_array"

definition is_string :: "'f json \<Rightarrow> bool" where
  "is_string j \<longleftrightarrow> m_type j = t_string"

definition is_discarded :: "'f json \<Rightarrow> bool" where
  "is_discarded j \<longleftrightarrow> m_type j = t_discarded"

definition is_primitive :: "'f json \<Rightarrow> bool" where
  "is_primitive j \<longleftrightarrow> is_null j \<or> is_string j \<or> is_boolean j \<or> is_number j"

definition is_structured :: "'f json \<Rightarrow> bool" where
  "is_structured j \<longleftrightarrow> is_array j \<or> is_object j"

lemmas inspection_defs = is_null_def is_boolean_def is_number_integer_def is_number_unsigned_def
  is_number_float_def is_number_def is_object_def is_array_def is_string_def is_discarded_def
  is_primitive_def is_structured_def

fun json_empty :: "'f json \<Rightarrow> bool" where
  "json_empty JNull = True"
| "json_empty (JArray xs) = (xs = [])"
| "json_empty (JObject kvs) = (kvs = [])"
| "json_empty _ = False"

fun json_size :: "'f json \<Rightarrow> nat" where
  "json_size JNull = 0"
| "json_size (JArray xs) = length xs"
| "json_size (JObject kvs) = length kvs"
| "json_size _ = 1"

section \<open>The map behind an object\<close>

text \<open>\<open>std::map\<close>: \<open>find\<close>, \<open>emplace\<close> or \<open>insert\<close> (which keep an old member), assignment, \<open>erase\<close>.\<close>

fun map_insert :: "char list \<Rightarrow> 'v \<Rightarrow> (char list \<times> 'v) list \<Rightarrow> (char list \<times> 'v) list" where
  "map_insert k v [] = [(k, v)]"
| "map_insert k v ((k', v') # kvs) =
     (if k < k' then (k, v) # (k', v') # kvs
      else if k = k' then (k', v') # kvs
      else (k', v') # map_insert k v kvs)"

fun map_assign :: "char list \<Rightarrow> 'v \<Rightarrow> (char list \<times> 'v) list \<Rightarrow> (char list \<times> 'v) list" where
  "map_assign k v [] = [(k, v)]"
| "map_assign k v ((k', v') # kvs) =
     (if k < k' then (k, v) # (k', v') # kvs
      else if k = k' then (k', v) # kvs
      else (k', v') # map_assign k v kvs)"

definition map_erase :: "char list \<Rightarrow> (char list \<times> 'v) list \<Rightarrow> (char list \<times> 'v) list" where
  "map_erase k kvs = filter (\<lambda>e. fst e \<noteq> k) kvs"

definition map_ok :: "(char list \<times> 'v) list \<Rightarrow> bool" where
  "map_ok kvs \<longleftrightarrow> sorted_wrt (<) (map fst kvs)"

section \<open>Construction from a list\<close>

text \<open>
  The constructor from an initializer list: a list of pairs of a string and a value is an
  object, any other list an array, unless the type is fixed by hand.
\<close>

definition is_pair :: "'f json \<Rightarrow> bool" where
  "is_pair e = (case e of
     JArray [JString k, v] \<Rightarrow> True
   | _ \<Rightarrow> False)"

fun emplace_pairs :: "'f json list \<Rightarrow> (char list \<times> 'f json) list \<Rightarrow> (char list \<times> 'f json) list" where
  "emplace_pairs [] kvs = kvs"
| "emplace_pairs (JArray [JString k, v] # es) kvs = emplace_pairs es (map_insert k v kvs)"
| "emplace_pairs (_ # es) kvs = emplace_pairs es kvs"

definition basic_json :: "'f json list \<Rightarrow> bool \<Rightarrow> value_t \<Rightarrow> json_exn + 'f json" where
  "basic_json init type_deduction manual_type = (
     let pairs = list_all is_pair init;
         is_an_object = (if \<not> type_deduction \<and> manual_type = t_array then False else pairs)
     in if \<not> type_deduction \<and> manual_type = t_object \<and> \<not> is_an_object
        then Inl (Domain_Error ''cannot create object from initializer list'')
        else if is_an_object then Inr (JObject (emplace_pairs init []))
        else Inr (JArray init))"

definition array :: "'f json list \<Rightarrow> json_exn + 'f json" where
  "array init = basic_json init False t_array"

definition object :: "'f json list \<Rightarrow> json_exn + 'f json" where
  "object init = basic_json init False t_object"

section \<open>Element access\<close>

definition cannot_use :: "char list \<Rightarrow> 'f json \<Rightarrow> json_exn" where
  "cannot_use what j = Domain_Error (''cannot use '' @ what @ '' with '' @ type_name j)"

fun show_nat :: "nat \<Rightarrow> char list" where
  "show_nat n = (if n < 10 then [char_of (48 + n)] else show_nat (n div 10) @ [char_of (48 + n mod 10)])"

declare show_nat.simps [simp del]

definition at_index :: "'f json \<Rightarrow> nat \<Rightarrow> json_exn + 'f json" where
  "at_index j idx = (case j of
     JArray xs \<Rightarrow>
       (if idx < length xs then Inr (xs ! idx)
        else Inl (Out_Of_Range_Error (''array index '' @ show_nat idx @ '' is out of range'')))
   | _ \<Rightarrow> Inl (cannot_use ''at()'' j))"

definition at_key :: "'f json \<Rightarrow> char list \<Rightarrow> json_exn + 'f json" where
  "at_key j k = (case j of
     JObject kvs \<Rightarrow> (case map_of kvs k of
         Some v \<Rightarrow> Inr v
       | None \<Rightarrow> Inl (Out_Of_Range_Error (''key '' @ [CHR 0x27] @ k @ [CHR 0x27] @ '' not found'')))
   | _ \<Rightarrow> Inl (cannot_use ''at()'' j))"

text \<open>\<open>operator[]\<close> on a non-const value makes room: missing elements become null.\<close>

definition subscript_index :: "'f json \<Rightarrow> nat \<Rightarrow> json_exn + 'f json \<times> 'f json" where
  "subscript_index j idx = (
     let j = (if is_null j then JArray [] else j) in
     case j of
       JArray xs \<Rightarrow> (
         let ys = xs @ replicate (Suc idx - length xs) JNull in Inr (JArray ys, ys ! idx))
     | _ \<Rightarrow> Inl (cannot_use ''operator[]'' j))"

definition subscript_key :: "'f json \<Rightarrow> char list \<Rightarrow> json_exn + 'f json \<times> 'f json" where
  "subscript_key j k = (
     let j = (if is_null j then JObject [] else j) in
     case j of
       JObject kvs \<Rightarrow> (
         let kvs' = map_insert k JNull kvs in Inr (JObject kvs', the (map_of kvs' k)))
     | _ \<Rightarrow> Inl (cannot_use ''operator[]'' j))"

text \<open>Subscripts with a key that is a C string do the same (the template for \<open>T * key\<close>).\<close>

definition subscript_cstr :: "'f json \<Rightarrow> char list \<Rightarrow> json_exn + 'f json \<times> 'f json" where
  "subscript_cstr j k = (
     let j = (if is_null j then JObject [] else j) in
     case j of
       JObject kvs \<Rightarrow> (
         let kvs' = map_insert k JNull kvs in Inr (JObject kvs', the (map_of kvs' k)))
     | _ \<Rightarrow> Inl (cannot_use ''operator[]'' j))"

text \<open>\<open>operator[]\<close> on a const value: a missing element violates an assertion or is undefined.\<close>

definition subscript_index_const :: "'f json \<Rightarrow> nat \<Rightarrow> (json_exn + 'f json) option" where
  "subscript_index_const j idx = (case j of
     JArray xs \<Rightarrow> (if idx < length xs then Some (Inr (xs ! idx)) else None)
   | _ \<Rightarrow> Some (Inl (cannot_use ''operator[]'' j)))"

definition subscript_key_const :: "'f json \<Rightarrow> char list \<Rightarrow> (json_exn + 'f json) option" where
  "subscript_key_const j k = (case j of
     JObject kvs \<Rightarrow> map_option Inr (map_of kvs k)
   | _ \<Rightarrow> Some (Inl (cannot_use ''operator[]'' j)))"

definition value_or :: "'f json \<Rightarrow> char list \<Rightarrow> 'f json \<Rightarrow> json_exn + 'f json" where
  "value_or j k default_value = (case j of
     JObject kvs \<Rightarrow> Inr (case map_of kvs k of Some v \<Rightarrow> v | None \<Rightarrow> default_value)
   | _ \<Rightarrow> Inl (cannot_use ''value()'' j))"

definition json_count :: "'f json \<Rightarrow> char list \<Rightarrow> nat" where
  "json_count j k = (case j of JObject kvs \<Rightarrow> length (filter (\<lambda>e. fst e = k) kvs) | _ \<Rightarrow> 0)"

section \<open>Conversion\<close>

definition must_be :: "char list \<Rightarrow> 'f json \<Rightarrow> json_exn" where
  "must_be t j = Domain_Error (''type must be '' @ t @ '', but is '' @ type_name j)"

definition get_object :: "'f json \<Rightarrow> json_exn + (char list \<times> 'f json) list" where
  "get_object j = (case j of JObject kvs \<Rightarrow> Inr kvs | _ \<Rightarrow> Inl (must_be ''object'' j))"

definition get_array :: "'f json \<Rightarrow> json_exn + 'f json list" where
  "get_array j = (case j of JArray xs \<Rightarrow> Inr xs | _ \<Rightarrow> Inl (must_be ''array'' j))"

definition get_impl_string :: "'f json \<Rightarrow> json_exn + char list" where
  "get_impl_string j = (case j of JString s \<Rightarrow> Inr s | _ \<Rightarrow> Inl (must_be ''string'' j))"

text \<open>Conversion to a 64-bit integer type; the result is its bits.\<close>

definition get_int64 :: "'f float_ops \<Rightarrow> 'f json \<Rightarrow> json_exn + u64" where
  "get_int64 F j = (case j of
     JInteger n \<Rightarrow> Inr n
   | JUnsigned n \<Rightarrow> Inr n
   | JFloat x \<Rightarrow> Inr (word_of_int (f_to_int F x))
   | _ \<Rightarrow> Inl (must_be ''number'' j))"

definition get_boolean :: "'f json \<Rightarrow> json_exn + bool" where
  "get_boolean j = (case j of JBoolean b \<Rightarrow> Inr b | _ \<Rightarrow> Inl (must_be ''boolean'' j))"

end
