(* ===== verification/Json_Lexer.thy ===== *)
theory Json_Lexer
  imports Json_Value
begin

unbundle bit_operations_syntax

text \<open>
  The lexer of \<open>src/json/json.hpp\<close> (class \<open>lexer\<close>), for a string as source: the scanner that
  cuts the text into tokens, and reading a string token.

  The text is the string with its NUL behind it; reading behind the NUL is \<open>None\<close>.  The scanner
  is a machine of labels and \<open>goto\<close>s.  Each label is a function, named after it; its arguments
  are \<open>m_marker\<close> where the label needs it, the position of \<open>m_cursor\<close> after the label's
  increment, and the text from there.  A choice among labels on the current byte \<open>yych\<close> is a
  function of the byte.
\<close>

section \<open>Tokens\<close>

datatype token_type =
    uninitialized | literal_true | literal_false | literal_null | value_string | value_number
  | begin_array | begin_object | end_array | end_object | name_separator | value_separator
  | parse_error | end_of_input

fun token_type_name :: "token_type \<Rightarrow> char list" where
  "token_type_name uninitialized = ''<uninitialized>''"
| "token_type_name literal_true = ''true literal''"
| "token_type_name literal_false = ''false literal''"
| "token_type_name literal_null = ''null literal''"
| "token_type_name value_string = ''string literal''"
| "token_type_name value_number = ''number literal''"
| "token_type_name begin_array = [CHR 0x27, CHR ''['', CHR 0x27]"
| "token_type_name begin_object = [CHR 0x27, CHR ''{'', CHR 0x27]"
| "token_type_name end_array = [CHR 0x27, CHR '']'', CHR 0x27]"
| "token_type_name end_object = [CHR 0x27, CHR ''}'', CHR 0x27]"
| "token_type_name name_separator = [CHR 0x27, CHR '':'', CHR 0x27]"
| "token_type_name value_separator = [CHR 0x27, CHR '','', CHR 0x27]"
| "token_type_name parse_error = ''<parse error>''"
| "token_type_name end_of_input = ''end of input''"

text \<open>
  The lexer's pointers as positions in the text; \<open>m_limit\<close> is the length of the string.
\<close>

record lexer =
  m_content :: "char list"
  m_start :: nat
  m_cursor :: nat

definition lexer_of :: "char list \<Rightarrow> lexer" where
  "lexer_of s = \<lparr>m_content = s, m_start = 0, m_cursor = 0\<rparr>"

abbreviation m_limit :: "lexer \<Rightarrow> nat" where
  "m_limit l \<equiv> length (m_content l)"

abbreviation code :: "char \<Rightarrow> nat" where
  "code c \<equiv> of_char c"

section \<open>The table and the first byte\<close>

definition yybm :: "nat list" where
  "yybm =
    [0,   0,   0,   0,   0,   0,   0,   0,
     0,  32,  32,   0,   0,  32,   0,   0] @
    replicate 16 128 @
    [160, 128,   0, 128, 128, 128, 128, 128,
     128, 128, 128, 128, 128, 128, 128, 128,
     192, 192, 192, 192, 192, 192, 192, 192,
     192, 192, 128, 128, 128, 128, 128, 128] @
    replicate 24 128 @
    [128, 128, 128, 128,   0, 128, 128, 128] @
    replicate 160 128"

definition yybm_bit :: "nat \<Rightarrow> nat \<Rightarrow> bool" where
  "yybm_bit yych b \<longleftrightarrow> (yybm ! yych) AND b \<noteq> 0"

datatype label =
    L2 | L4 | L6 | L9 | L10 | L12 | L13 | L15 | L17 | L19 | L21 | L23 | L24 | L25 | L26 | L28 | L30
  | L31 | L33 | L34 | L36 | L43 | L54 | L60 | L63

definition scan_first :: "nat \<Rightarrow> label" where
  "scan_first yych =
     (if yybm_bit yych 32 then L6
      else if yych \<le> 0x5C then
        (if yych \<le> 0x2D then
           (if yych \<le> 0x22 then
              (if yych \<le> 0x00 then L2 else if yych \<le> 0x21 then L4 else L9)
            else (if yych \<le> 0x2B then L4 else if yych \<le> 0x2C then L10 else L12))
         else
           (if yych \<le> 0x39 then
              (if yych \<le> 0x2F then L4 else if yych \<le> 0x30 then L13 else L15)
            else (if yych \<le> 0x3A then L17 else if yych = 0x5B then L19 else L4)))
      else
        (if yych \<le> 0x74 then
           (if yych \<le> 0x66 then
              (if yych \<le> 0x5D then L21 else if yych \<le> 0x65 then L4 else L23)
            else (if yych = 0x6E then L24 else if yych \<le> 0x73 then L4 else L25))
         else
           (if yych \<le> 0x7C then (if yych = 0x7B then L26 else L4)
            else (if yych \<le> 0x7D then L28 else if yych = 0xEF then L30 else L4))))"

section \<open>Strings\<close>

definition basic_json_parser_32 :: "nat \<Rightarrow> label" where
  "basic_json_parser_32 yych =
     (if yybm_bit yych 128 then L31
      else if yych \<le> 0x0F then L33
      else if yych \<le> 0x22 then L34
      else L36)"

definition basic_json_parser_36 :: "nat \<Rightarrow> label" where
  "basic_json_parser_36 yych =
     (if yych \<le> 0x65 then
        (if yych \<le> 0x2F then
           (if yych = 0x22 then L31 else if yych \<le> 0x2E then L33 else L31)
         else
           (if yych \<le> 0x5C then (if yych \<le> 0x5B then L33 else L31)
            else (if yych = 0x62 then L31 else L33)))
      else
        (if yych \<le> 0x71 then
           (if yych \<le> 0x66 then L31 else if yych = 0x6E then L31 else L33)
         else
           (if yych \<le> 0x73 then (if yych \<le> 0x72 then L31 else L33)
            else (if yych \<le> 0x74 then L31 else if yych \<le> 0x75 then L43 else L33))))"

definition basic_json_parser_43 :: "nat \<Rightarrow> label" where
  "basic_json_parser_43 yych =
     (if yych \<le> 0x40 then
        (if yych \<le> 0x2F then L33 else if yych \<le> 0x39 then L54 else L33)
      else
        (if yych \<le> 0x46 then L54 else if yych \<le> 0x60 then L33 else if yych \<le> 0x66 then L54 else L33))"

definition basic_json_parser_54 :: "nat \<Rightarrow> label" where
  "basic_json_parser_54 yych =
     (if yych \<le> 0x40 then
        (if yych \<le> 0x2F then L33 else if yych \<le> 0x39 then L60 else L33)
      else
        (if yych \<le> 0x46 then L60 else if yych \<le> 0x60 then L33 else if yych \<le> 0x66 then L60 else L33))"

definition basic_json_parser_60 :: "nat \<Rightarrow> label" where
  "basic_json_parser_60 yych =
     (if yych \<le> 0x40 then
        (if yych \<le> 0x2F then L33 else if yych \<le> 0x39 then L63 else L33)
      else
        (if yych \<le> 0x46 then L63 else if yych \<le> 0x60 then L33 else if yych \<le> 0x66 then L63 else L33))"

definition basic_json_parser_63 :: "nat \<Rightarrow> label" where
  "basic_json_parser_63 yych =
     (if yych \<le> 0x40 then
        (if yych \<le> 0x2F then L33 else if yych \<le> 0x39 then L31 else L33)
      else
        (if yych \<le> 0x46 then L31 else if yych \<le> 0x60 then L33 else if yych \<le> 0x66 then L31 else L33))"

text \<open>Where a label of a string goes on the byte behind its \<open>++m_cursor\<close>.\<close>

definition string_next :: "label \<Rightarrow> nat \<Rightarrow> label" where
  "string_next l yych = (case l of
     L31 \<Rightarrow> basic_json_parser_32 yych
   | L36 \<Rightarrow> basic_json_parser_36 yych
   | L43 \<Rightarrow> basic_json_parser_43 yych
   | L54 \<Rightarrow> basic_json_parser_54 yych
   | L60 \<Rightarrow> basic_json_parser_60 yych
   | L63 \<Rightarrow> basic_json_parser_63 yych
   | _ \<Rightarrow> L33)"

text \<open>
  The labels 31 to 36, 43, 54, 60 and 63.  Label 34 ends the string; label 33 goes back to the
  marker with \<open>yyaccept = 0\<close>, which is label 5.
\<close>

fun basic_json_parser_31 :: "label \<Rightarrow> nat \<Rightarrow> nat \<Rightarrow> char list \<Rightarrow> (token_type \<times> nat) option" where
  "basic_json_parser_31 l marker cursor [] = None"
| "basic_json_parser_31 l marker cursor (y # r) = (
     let l' = string_next l (code y) in
     if l' = L33 then Some (parse_error, marker)
     else if l' = L34 then Some (value_string, cursor + 1)
     else basic_json_parser_31 l' marker (cursor + 1) r)"

definition basic_json_parser_9 :: "nat \<Rightarrow> char list \<Rightarrow> (token_type \<times> nat) option" where
  "basic_json_parser_9 cursor r = (case r of
     [] \<Rightarrow> None
   | y # _ \<Rightarrow> (if code y \<le> 0x0F then Some (parse_error, cursor)
               else basic_json_parser_31 L31 cursor cursor r))"

section \<open>Numbers\<close>

fun basic_json_parser_47 :: "nat \<Rightarrow> char list \<Rightarrow> (token_type \<times> nat) option" where
  "basic_json_parser_47 cursor [] = None"
| "basic_json_parser_47 cursor (y # r) =
     (if code y \<le> 0x2F then Some (value_number, cursor)
      else if code y \<le> 0x39 then basic_json_parser_47 (cursor + 1) r
      else Some (value_number, cursor))"

definition basic_json_parser_46 :: "nat \<Rightarrow> nat \<Rightarrow> char list \<Rightarrow> (token_type \<times> nat) option" where
  "basic_json_parser_46 marker cursor r = (case r of
     [] \<Rightarrow> None
   | y # r' \<Rightarrow>
       (if code y \<le> 0x2F then Some (value_number, marker)
        else if code y \<ge> 0x3A then Some (value_number, marker)
        else basic_json_parser_47 (cursor + 1) r'))"

definition basic_json_parser_38 :: "nat \<Rightarrow> nat \<Rightarrow> char list \<Rightarrow> (token_type \<times> nat) option" where
  "basic_json_parser_38 marker cursor r = (case r of
     [] \<Rightarrow> None
   | y # r' \<Rightarrow>
       (if code y \<le> 0x2C then
          (if code y = 0x2B then basic_json_parser_46 marker (cursor + 1) r'
           else Some (value_number, marker))
        else
          (if code y \<le> 0x2D then basic_json_parser_46 marker (cursor + 1) r'
           else if code y \<le> 0x2F then Some (value_number, marker)
           else if code y \<le> 0x39 then basic_json_parser_47 (cursor + 1) r'
           else Some (value_number, marker))))"

text \<open>Labels 44, 15 and 13 set the marker to the cursor.\<close>

fun basic_json_parser_44 :: "nat \<Rightarrow> char list \<Rightarrow> (token_type \<times> nat) option" where
  "basic_json_parser_44 cursor [] = None"
| "basic_json_parser_44 cursor (y # r) =
     (if code y \<le> 0x44 then
        (if code y \<le> 0x2F then Some (value_number, cursor)
         else if code y \<le> 0x39 then basic_json_parser_44 (cursor + 1) r
         else Some (value_number, cursor))
      else
        (if code y \<le> 0x45 then basic_json_parser_38 cursor (cursor + 1) r
         else if code y = 0x65 then basic_json_parser_38 cursor (cursor + 1) r
         else Some (value_number, cursor)))"

definition basic_json_parser_37 :: "nat \<Rightarrow> nat \<Rightarrow> char list \<Rightarrow> (token_type \<times> nat) option" where
  "basic_json_parser_37 marker cursor r = (case r of
     [] \<Rightarrow> None
   | y # r' \<Rightarrow>
       (if code y \<le> 0x2F then Some (value_number, marker)
        else if code y \<le> 0x39 then basic_json_parser_44 (cursor + 1) r'
        else Some (value_number, marker)))"

fun basic_json_parser_15 :: "nat \<Rightarrow> char list \<Rightarrow> (token_type \<times> nat) option" where
  "basic_json_parser_15 cursor [] = None"
| "basic_json_parser_15 cursor (y # r) =
     (if yybm_bit (code y) 64 then basic_json_parser_15 (cursor + 1) r
      else if code y \<le> 0x44 then
        (if code y = 0x2E then basic_json_parser_37 cursor (cursor + 1) r
         else Some (value_number, cursor))
      else
        (if code y \<le> 0x45 then basic_json_parser_38 cursor (cursor + 1) r
         else if code y = 0x65 then basic_json_parser_38 cursor (cursor + 1) r
         else Some (value_number, cursor)))"

definition basic_json_parser_13 :: "nat \<Rightarrow> char list \<Rightarrow> (token_type \<times> nat) option" where
  "basic_json_parser_13 cursor r = (case r of
     [] \<Rightarrow> None
   | y # r' \<Rightarrow>
       (if code y \<le> 0x44 then
          (if code y = 0x2E then basic_json_parser_37 cursor (cursor + 1) r'
           else Some (value_number, cursor))
        else
          (if code y \<le> 0x45 then basic_json_parser_38 cursor (cursor + 1) r'
           else if code y = 0x65 then basic_json_parser_38 cursor (cursor + 1) r'
           else Some (value_number, cursor))))"

definition basic_json_parser_12 :: "nat \<Rightarrow> char list \<Rightarrow> (token_type \<times> nat) option" where
  "basic_json_parser_12 cursor r = (case r of
     [] \<Rightarrow> None
   | y # r' \<Rightarrow>
       (if code y \<le> 0x2F then Some (parse_error, cursor)
        else if code y \<le> 0x30 then basic_json_parser_13 (cursor + 1) r'
        else if code y \<le> 0x39 then basic_json_parser_15 (cursor + 1) r'
        else Some (parse_error, cursor)))"

section \<open>Literals\<close>

text \<open>Label 33 goes back to the marker with \<open>yyaccept = 0\<close>.  Labels 56, 58 and 61 end a literal.\<close>

definition basic_json_parser_55 :: "nat \<Rightarrow> nat \<Rightarrow> char list \<Rightarrow> (token_type \<times> nat) option" where
  "basic_json_parser_55 marker cursor r = (case r of
     [] \<Rightarrow> None
   | y # r' \<Rightarrow> (if code y = 0x65 then Some (literal_false, cursor + 1) else Some (parse_error, marker)))"

definition basic_json_parser_51 :: "nat \<Rightarrow> nat \<Rightarrow> char list \<Rightarrow> (token_type \<times> nat) option" where
  "basic_json_parser_51 marker cursor r = (case r of
     [] \<Rightarrow> None
   | y # r' \<Rightarrow> (if code y = 0x65 then Some (literal_true, cursor + 1) else Some (parse_error, marker)))"

definition basic_json_parser_50 :: "nat \<Rightarrow> nat \<Rightarrow> char list \<Rightarrow> (token_type \<times> nat) option" where
  "basic_json_parser_50 marker cursor r = (case r of
     [] \<Rightarrow> None
   | y # r' \<Rightarrow> (if code y = 0x6C then Some (literal_null, cursor + 1) else Some (parse_error, marker)))"

definition basic_json_parser_49 :: "nat \<Rightarrow> nat \<Rightarrow> char list \<Rightarrow> (token_type \<times> nat) option" where
  "basic_json_parser_49 marker cursor r = (case r of
     [] \<Rightarrow> None
   | y # r' \<Rightarrow> (if code y = 0x73 then basic_json_parser_55 marker (cursor + 1) r' else Some (parse_error, marker)))"

definition basic_json_parser_41 :: "nat \<Rightarrow> nat \<Rightarrow> char list \<Rightarrow> (token_type \<times> nat) option" where
  "basic_json_parser_41 marker cursor r = (case r of
     [] \<Rightarrow> None
   | y # r' \<Rightarrow> (if code y = 0x75 then basic_json_parser_51 marker (cursor + 1) r' else Some (parse_error, marker)))"

definition basic_json_parser_40 :: "nat \<Rightarrow> nat \<Rightarrow> char list \<Rightarrow> (token_type \<times> nat) option" where
  "basic_json_parser_40 marker cursor r = (case r of
     [] \<Rightarrow> None
   | y # r' \<Rightarrow> (if code y = 0x6C then basic_json_parser_50 marker (cursor + 1) r' else Some (parse_error, marker)))"

definition basic_json_parser_39 :: "nat \<Rightarrow> nat \<Rightarrow> char list \<Rightarrow> (token_type \<times> nat) option" where
  "basic_json_parser_39 marker cursor r = (case r of
     [] \<Rightarrow> None
   | y # r' \<Rightarrow> (if code y = 0x6C then basic_json_parser_49 marker (cursor + 1) r' else Some (parse_error, marker)))"

definition basic_json_parser_23 :: "nat \<Rightarrow> char list \<Rightarrow> (token_type \<times> nat) option" where
  "basic_json_parser_23 cursor r = (case r of
     [] \<Rightarrow> None
   | y # r' \<Rightarrow> (if code y = 0x61 then basic_json_parser_39 cursor (cursor + 1) r'
                else Some (parse_error, cursor)))"

definition basic_json_parser_24 :: "nat \<Rightarrow> char list \<Rightarrow> (token_type \<times> nat) option" where
  "basic_json_parser_24 cursor r = (case r of
     [] \<Rightarrow> None
   | y # r' \<Rightarrow> (if code y = 0x75 then basic_json_parser_40 cursor (cursor + 1) r'
                else Some (parse_error, cursor)))"

definition basic_json_parser_25 :: "nat \<Rightarrow> char list \<Rightarrow> (token_type \<times> nat) option" where
  "basic_json_parser_25 cursor r = (case r of
     [] \<Rightarrow> None
   | y # r' \<Rightarrow> (if code y = 0x72 then basic_json_parser_41 cursor (cursor + 1) r'
                else Some (parse_error, cursor)))"

section \<open>White space and the byte order mark\<close>

text \<open>
  A byte order mark, like white space, is skipped wherever a token may start.  The result is
  where the scan starts again, or the error.
\<close>

definition basic_json_parser_42 :: "nat \<Rightarrow> nat \<Rightarrow> char list \<Rightarrow> ((token_type \<times> nat) + nat) option" where
  "basic_json_parser_42 marker cursor r = (case r of
     [] \<Rightarrow> None
   | y # _ \<Rightarrow> (if code y = 0xBF then Some (Inr (cursor + 1)) else Some (Inl (parse_error, marker))))"

definition basic_json_parser_30 :: "nat \<Rightarrow> char list \<Rightarrow> ((token_type \<times> nat) + nat) option" where
  "basic_json_parser_30 cursor r = (case r of
     [] \<Rightarrow> None
   | y # r' \<Rightarrow> (if code y = 0xBB then basic_json_parser_42 cursor (cursor + 1) r'
                else Some (Inl (parse_error, cursor))))"

fun basic_json_parser_6 :: "nat \<Rightarrow> char list \<Rightarrow> nat option" where
  "basic_json_parser_6 cursor [] = None"
| "basic_json_parser_6 cursor (y # r) =
     (if yybm_bit (code y) 32 then basic_json_parser_6 (cursor + 1) r else Some cursor)"

section \<open>The scanner\<close>

text \<open>
  What the first byte \<open>y\<close> leads to: a token with the new \<open>m_cursor\<close>, or (\<open>Inr\<close>) a new scan
  from there.
\<close>

definition scan_token :: "nat \<Rightarrow> char \<Rightarrow> char list \<Rightarrow> ((token_type \<times> nat) + nat) option" where
  "scan_token cursor y r = (
     let p = cursor + 1 in
     case scan_first (code y) of
       L2 \<Rightarrow> Some (Inl (end_of_input, p))
     | L6 \<Rightarrow> map_option Inr (basic_json_parser_6 p r)
     | L9 \<Rightarrow> map_option Inl (basic_json_parser_9 p r)
     | L10 \<Rightarrow> Some (Inl (value_separator, p))
     | L12 \<Rightarrow> map_option Inl (basic_json_parser_12 p r)
     | L13 \<Rightarrow> map_option Inl (basic_json_parser_13 p r)
     | L15 \<Rightarrow> map_option Inl (basic_json_parser_15 p r)
     | L17 \<Rightarrow> Some (Inl (name_separator, p))
     | L19 \<Rightarrow> Some (Inl (begin_array, p))
     | L21 \<Rightarrow> Some (Inl (end_array, p))
     | L23 \<Rightarrow> map_option Inl (basic_json_parser_23 p r)
     | L24 \<Rightarrow> map_option Inl (basic_json_parser_24 p r)
     | L25 \<Rightarrow> map_option Inl (basic_json_parser_25 p r)
     | L26 \<Rightarrow> Some (Inl (begin_object, p))
     | L28 \<Rightarrow> Some (Inl (end_object, p))
     | L30 \<Rightarrow> basic_json_parser_30 p r
     | _ \<Rightarrow> Some (Inl (parse_error, p)))"

text \<open>
  \<open>scan\<close> calls itself after white space; the fuel is the length of the text, as every call
  starts behind the one before.
\<close>

fun scan_from :: "nat \<Rightarrow> char list \<Rightarrow> nat \<Rightarrow> (token_type \<times> nat \<times> nat) option" where
  "scan_from 0 text start = None"
| "scan_from (Suc fuel) text start = (case drop start text of
     [] \<Rightarrow> None
   | y # r \<Rightarrow> (case scan_token start y r of
       None \<Rightarrow> None
     | Some (Inl (t, cursor)) \<Rightarrow> Some (t, start, cursor)
     | Some (Inr cursor) \<Rightarrow> scan_from fuel text cursor))"

definition scan :: "lexer \<Rightarrow> (token_type \<times> lexer) option" where
  "scan l = (
     let text = m_content l @ [NUL] in
     case scan_from (Suc (length text)) text (m_cursor l) of
       None \<Rightarrow> None
     | Some (t, start, cursor) \<Rightarrow> Some (t, l\<lparr>m_start := start, m_cursor := cursor\<rparr>))"

definition get_token :: "lexer \<Rightarrow> char list" where
  "get_token l = take (m_cursor l - m_start l) (drop (m_start l) (m_content l @ [NUL]))"

section \<open>Reading a string token\<close>

text \<open>
  \<open>to_unicode\<close>: code points as \<open>size_t\<close>; the second one is used if the first is a high
  surrogate.
\<close>

definition byte :: "u64 \<Rightarrow> char" where
  "byte w = char_of (unat w)"

definition to_unicode :: "u64 \<Rightarrow> u64 \<Rightarrow> json_exn + char list" where
  "to_unicode codepoint1 codepoint2 = (
     let utf8 = (\<lambda>codepoint.
       if codepoint < 0x80 then Inr [byte codepoint]
       else if codepoint \<le> 0x7FF then
         Inr [byte (0xC0 OR (drop_bit 6 codepoint AND 0x1F)),
              byte (0x80 OR (codepoint AND 0x3F))]
       else if codepoint \<le> 0xFFFF then
         Inr [byte (0xE0 OR (drop_bit 12 codepoint AND 0x0F)),
              byte (0x80 OR (drop_bit 6 codepoint AND 0x3F)),
              byte (0x80 OR (codepoint AND 0x3F))]
       else if codepoint \<le> 0x10FFFF then
         Inr [byte (0xF0 OR (drop_bit 18 codepoint AND 0x07)),
              byte (0x80 OR (drop_bit 12 codepoint AND 0x3F)),
              byte (0x80 OR (drop_bit 6 codepoint AND 0x3F)),
              byte (0x80 OR (codepoint AND 0x3F))]
       else Inl (Out_Of_Range_Error ''code points above 0x10FFFF are invalid''))
     in if codepoint1 \<ge> 0xD800 \<and> codepoint1 \<le> 0xDBFF then
          (if codepoint2 \<ge> 0xDC00 \<and> codepoint2 \<le> 0xDFFF
           then utf8 (push_bit 10 codepoint1 + codepoint2 - 0x35FDC00)
           else Inl (Invalid_Argument_Error ''missing or wrong low surrogate''))
        else utf8 codepoint1)"

text \<open>\<open>strtoul(s, nullptr, 16)\<close> on four characters the scanner took for hexadecimal digits.\<close>

definition hex_value :: "char \<Rightarrow> u64" where
  "hex_value c =
     (if code c \<le> 0x39 then of_nat (code c - 0x30)
      else if code c \<le> 0x46 then of_nat (code c - 0x41 + 10)
      else of_nat (code c - 0x61 + 10))"

definition is_hex :: "char \<Rightarrow> bool" where
  "is_hex c \<longleftrightarrow> 0x30 \<le> code c \<and> code c \<le> 0x39 \<or> 0x41 \<le> code c \<and> code c \<le> 0x46 \<or>
     0x61 \<le> code c \<and> code c \<le> 0x66"

definition strtoul_hex :: "char list \<Rightarrow> u64" where
  "strtoul_hex s = foldl (\<lambda>n c. n * 16 + hex_value c) 0 (takeWhile is_hex s)"

text \<open>
  The simple escapes; any other character behind a backslash adds nothing (the scanner lets
  none pass).
\<close>

definition simple_escape :: "char \<Rightarrow> char list" where
  "simple_escape c =
     (if c = CHR ''t'' then [CHR 0x09] else if c = CHR ''b'' then [CHR 0x08]
      else if c = CHR ''f'' then [CHR 0x0C] else if c = CHR ''n'' then [CHR 0x0A]
      else if c = CHR ''r'' then [CHR 0x0D] else if c = CHR 0x5C then [CHR 0x5C]
      else if c = CHR ''/'' then [CHR ''/''] else if c = CHR 0x22 then [CHR 0x22] else [])"

text \<open>
  The loop of \<open>get_string\<close> with the iterator \<open>i\<close>, the end \<open>m_cursor - 1\<close> and \<open>m_limit\<close>; the
  text is read with \<open>None\<close> behind its NUL.
\<close>

definition at :: "char list \<Rightarrow> nat \<Rightarrow> char option" where
  "at text i = (if i < length text then Some (text ! i) else None)"

function get_string_loop ::
    "char list \<Rightarrow> nat \<Rightarrow> nat \<Rightarrow> nat \<Rightarrow> char list \<Rightarrow> (json_exn + char list) option" where
  "get_string_loop text limit stop i result =
     (if i < stop then
        (case at text i of
           None \<Rightarrow> None
         | Some c \<Rightarrow>
             if c = CHR 0x5C then
               (case at text (i + 1) of
                  None \<Rightarrow> None
                | Some d \<Rightarrow>
                    if d = CHR ''u'' then (
                      let j = i + 1;
                          codepoint = strtoul_hex (take 4 (drop (j + 1) text))
                      in if length text < j + 5 then None
                         else if codepoint \<ge> 0xD800 \<and> codepoint \<le> 0xDBFF then
                           (if j + 6 \<ge> limit \<or> at text (j + 5) \<noteq> Some (CHR 0x5C) \<or>
                                at text (j + 6) \<noteq> Some (CHR ''u'')
                            then Some (Inl (Invalid_Argument_Error ''missing low surrogate''))
                            else if length text < j + 11 then None
                            else (case to_unicode codepoint (strtoul_hex (take 4 (drop (j + 7) text))) of
                                Inl e \<Rightarrow> Some (Inl e)
                              | Inr u \<Rightarrow> get_string_loop text limit stop (j + 11) (result @ u)))
                         else (case to_unicode codepoint 0 of
                                Inl e \<Rightarrow> Some (Inl e)
                              | Inr u \<Rightarrow> get_string_loop text limit stop (j + 5) (result @ u)))
                    else get_string_loop text limit stop (i + 2) (result @ simple_escape d))
             else get_string_loop text limit stop (i + 1) (result @ [c]))
      else Some (Inr result))"
  by pat_completeness auto
termination by (relation "measure (\<lambda>(text, limit, stop, i, result). stop - i)") auto

declare get_string_loop.simps [simp del]

definition get_string :: "lexer \<Rightarrow> (json_exn + char list) option" where
  "get_string l =
     get_string_loop (m_content l @ [NUL]) (m_limit l) (m_cursor l - 1) (m_start l + 1) []"

end
