(* ===== verification/Json_Ops.thy ===== *)
theory Json_Ops
  imports Json_Value
begin

text \<open>
  Modifying and comparing values of class \<open>basic_json\<close>.  An operation on \<open>*this\<close> returns the
  value it leaves; an iterator into a container is the position it stands at.
\<close>

section \<open>Modifiers\<close>

fun clear :: "'f float_ops \<Rightarrow> 'f json \<Rightarrow> 'f json" where
  "clear F (JInteger _) = JInteger 0"
| "clear F (JUnsigned _) = JUnsigned 0"
| "clear F (JFloat _) = JFloat (f_zero F)"
| "clear F (JBoolean _) = JBoolean False"
| "clear F (JString _) = JString []"
| "clear F (JArray _) = JArray []"
| "clear F (JObject _) = JObject []"
| "clear F JNull = JNull"
| "clear F JDiscarded = JDiscarded"

definition push_back :: "'f json \<Rightarrow> 'f json \<Rightarrow> json_exn + 'f json" where
  "push_back j v =
     (if \<not> (is_null j \<or> is_array j) then Inl (cannot_use ''push_back()'' j)
      else let j = (if is_null j then JArray [] else j) in
        case j of JArray xs \<Rightarrow> Inr (JArray (xs @ [v])) | _ \<Rightarrow> Inl (cannot_use ''push_back()'' j))"

text \<open>The overload for an rvalue leaves null in its argument.\<close>

definition push_back_move :: "'f json \<Rightarrow> 'f json \<Rightarrow> json_exn + 'f json \<times> 'f json" where
  "push_back_move j v =
     (if \<not> (is_null j \<or> is_array j) then Inl (cannot_use ''push_back()'' j)
      else let j = (if is_null j then JArray [] else j) in
        case j of JArray xs \<Rightarrow> Inr (JArray (xs @ [v]), JNull) | _ \<Rightarrow> Inl (cannot_use ''push_back()'' j))"

definition push_back_member :: "'f json \<Rightarrow> char list \<times> 'f json \<Rightarrow> json_exn + 'f json" where
  "push_back_member j e =
     (if \<not> (is_null j \<or> is_object j) then Inl (cannot_use ''push_back()'' j)
      else let j = (if is_null j then JObject [] else j) in
        case j of JObject kvs \<Rightarrow> Inr (JObject (map_insert (fst e) (snd e) kvs))
        | _ \<Rightarrow> Inl (cannot_use ''push_back()'' j))"

definition erase_key :: "'f json \<Rightarrow> char list \<Rightarrow> json_exn + nat \<times> 'f json" where
  "erase_key j k = (case j of
     JObject kvs \<Rightarrow> Inr (length (filter (\<lambda>e. fst e = k) kvs), JObject (map_erase k kvs))
   | _ \<Rightarrow> Inl (cannot_use ''erase()'' j))"

definition erase_index :: "'f json \<Rightarrow> nat \<Rightarrow> json_exn + 'f json" where
  "erase_index j idx = (case j of
     JArray xs \<Rightarrow>
       (if idx \<ge> json_size j then Inl (Out_Of_Range_Error ''index out of range'')
        else Inr (JArray (take idx xs @ drop (Suc idx) xs)))
   | _ \<Rightarrow> Inl (cannot_use ''erase()'' j))"

definition swap_array :: "'f json \<Rightarrow> 'f json list \<Rightarrow> json_exn + 'f json \<times> 'f json list" where
  "swap_array j other = (case j of
     JArray xs \<Rightarrow> Inr (JArray other, xs) | _ \<Rightarrow> Inl (cannot_use ''swap()'' j))"

definition swap_object ::
    "'f json \<Rightarrow> (char list \<times> 'f json) list \<Rightarrow> json_exn + 'f json \<times> (char list \<times> 'f json) list" where
  "swap_object j other = (case j of
     JObject kvs \<Rightarrow> Inr (JObject other, kvs) | _ \<Rightarrow> Inl (cannot_use ''swap()'' j))"

definition swap_string :: "'f json \<Rightarrow> char list \<Rightarrow> json_exn + 'f json \<times> char list" where
  "swap_string j other = (case j of
     JString s \<Rightarrow> Inr (JString other, s) | _ \<Rightarrow> Inl (cannot_use ''swap()'' j))"

section \<open>Comparison\<close>

text \<open>The order of the types: null, boolean, number, object, array, string.\<close>

fun type_order :: "value_t \<Rightarrow> nat" where
  "type_order t_null = 0"
| "type_order t_object = 3"
| "type_order t_array = 4"
| "type_order t_string = 5"
| "type_order t_boolean = 1"
| "type_order t_number_integer = 2"
| "type_order t_number_unsigned = 2"
| "type_order t_number_float = 2"
| "type_order t_discarded = 0"

definition less_value_t :: "value_t \<Rightarrow> value_t \<Rightarrow> bool" where
  "less_value_t lhs rhs =
     (if lhs = t_discarded \<or> rhs = t_discarded then False else type_order lhs < type_order rhs)"

lemma list_all2_fundef_cong [fundef_cong]:
  "xs = xs' \<Longrightarrow> ys = ys' \<Longrightarrow> (\<And>x y. x \<in> set xs' \<Longrightarrow> y \<in> set ys' \<Longrightarrow> P x y = Q x y) \<Longrightarrow>
   list_all2 P xs ys = list_all2 Q xs' ys'"
  by (auto simp: list_all2_conv_all_nth)

text \<open>Numbers of different types: \<open>static_cast\<close> to \<open>double\<close>, or from unsigned to signed.\<close>

fun json_eq :: "'f float_ops \<Rightarrow> 'f json \<Rightarrow> 'f json \<Rightarrow> bool" where
  "json_eq F (JArray xs) (JArray ys) = list_all2 (json_eq F) xs ys"
| "json_eq F (JObject ms) (JObject ns) =
     list_all2 (\<lambda>m n. fst m = fst n \<and> json_eq F (snd m) (snd n)) ms ns"
| "json_eq F JNull JNull = True"
| "json_eq F (JString s) (JString t) = (s = t)"
| "json_eq F (JBoolean a) (JBoolean b) = (a = b)"
| "json_eq F (JInteger m) (JInteger n) = (m = n)"
| "json_eq F (JUnsigned m) (JUnsigned n) = (m = n)"
| "json_eq F (JFloat x) (JFloat y) = f_eq F x y"
| "json_eq F (JInteger m) (JFloat y) = f_eq F (f_of_int F (sint m)) y"
| "json_eq F (JFloat x) (JInteger n) = f_eq F x (f_of_int F (sint n))"
| "json_eq F (JUnsigned m) (JFloat y) = f_eq F (f_of_int F (uint m)) y"
| "json_eq F (JFloat x) (JUnsigned n) = f_eq F x (f_of_int F (uint n))"
| "json_eq F (JUnsigned m) (JInteger n) = (m = n)"
| "json_eq F (JInteger m) (JUnsigned n) = (m = n)"
| "json_eq F _ _ = False"

text \<open>\<open>std::lexicographical_compare\<close>.\<close>

fun lex_less :: "('a \<Rightarrow> 'a \<Rightarrow> bool) \<Rightarrow> 'a list \<Rightarrow> 'a list \<Rightarrow> bool" where
  "lex_less lt xs [] = False"
| "lex_less lt [] (y # ys) = True"
| "lex_less lt (x # xs) (y # ys) =
     (if lt x y then True else if lt y x then False else lex_less lt xs ys)"


lemma lex_less_cong [fundef_cong]:
  assumes "xs = xs'" and "ys = ys'"
    and "\<And>x y. x \<in> set xs' \<Longrightarrow> y \<in> set ys' \<Longrightarrow> P x y = Q x y"
    and "\<And>x y. x \<in> set xs' \<Longrightarrow> y \<in> set ys' \<Longrightarrow> P y x = Q y x"
  shows "lex_less P xs ys = lex_less Q xs' ys'"
proof -
  have "(\<forall>x \<in> set xs. \<forall>y \<in> set ys. P x y = Q x y \<and> P y x = Q y x) \<Longrightarrow>
      lex_less P xs ys = lex_less Q xs ys" for xs ys
    by (induction P xs ys rule: lex_less.induct) auto
  with assms show ?thesis by blast
qed

lemma json_member_size: "e \<in> set ms \<Longrightarrow> size (snd e) < size (JObject ms)"
  by (induction ms) auto

lemma json_element_size: "x \<in> set xs \<Longrightarrow> size x < size (JArray xs)"
  by (induction xs) auto

text \<open>
  \<open>std::pair\<close> compares the keys and then the values.  Values of two types that are not both
  numbers compare as their types do.
\<close>

function (sequential) json_less :: "'f float_ops \<Rightarrow> 'f json \<Rightarrow> 'f json \<Rightarrow> bool" where
  "json_less F (JArray xs) (JArray ys) = lex_less (json_less F) xs ys"
| "json_less F (JObject ms) (JObject ns) =
     lex_less (\<lambda>m n. fst m < fst n \<or> \<not> fst n < fst m \<and> json_less F (snd m) (snd n)) ms ns"
| "json_less F JNull JNull = False"
| "json_less F (JString s) (JString t) = (s < t)"
| "json_less F (JBoolean a) (JBoolean b) = (\<not> a \<and> b)"
| "json_less F (JInteger m) (JInteger n) = (sint m < sint n)"
| "json_less F (JUnsigned m) (JUnsigned n) = (m < n)"
| "json_less F (JFloat x) (JFloat y) = f_less F x y"
| "json_less F (JInteger m) (JFloat y) = f_less F (f_of_int F (sint m)) y"
| "json_less F (JFloat x) (JInteger n) = f_less F x (f_of_int F (sint n))"
| "json_less F (JUnsigned m) (JFloat y) = f_less F (f_of_int F (uint m)) y"
| "json_less F (JFloat x) (JUnsigned n) = f_less F x (f_of_int F (uint n))"
| "json_less F (JInteger m) (JUnsigned n) = (sint m < sint n)"
| "json_less F (JUnsigned m) (JInteger n) = (sint m < sint n)"
| "json_less F lhs rhs = less_value_t (m_type lhs) (m_type rhs)"
  by pat_completeness auto

termination
  by (relation "measure (\<lambda>(F, lhs, rhs). size lhs + size rhs)")
    (auto dest!: json_member_size json_element_size)

definition json_le :: "'f float_ops \<Rightarrow> 'f json \<Rightarrow> 'f json \<Rightarrow> bool" where
  "json_le F lhs rhs \<longleftrightarrow> \<not> json_less F rhs lhs"

definition json_gt :: "'f float_ops \<Rightarrow> 'f json \<Rightarrow> 'f json \<Rightarrow> bool" where
  "json_gt F lhs rhs \<longleftrightarrow> \<not> json_le F lhs rhs"

definition json_ge :: "'f float_ops \<Rightarrow> 'f json \<Rightarrow> 'f json \<Rightarrow> bool" where
  "json_ge F lhs rhs \<longleftrightarrow> \<not> json_less F lhs rhs"

end
