(* ===== verification/Json_Parser.thy ===== *)
theory Json_Parser
  imports Json_Lexer Json_Ops
begin

text \<open>
  Number tokens and the recursive descent parser of \<open>src/json/json.hpp\<close> (class \<open>parser\<close>), with
  its callback.  The result of a step is undefined (\<open>None\<close>), an exception, or a value with the
  parser state behind it.  The recursion has fuel; \<open>Json_Safe\<close> shows it is enough.
\<close>

section \<open>Numbers\<close>

text \<open>
  \<open>strtoull\<close> and \<open>strtoll\<close> on a text that starts as a number token does: the value, the number
  of characters read and whether \<open>errno\<close> becomes \<open>ERANGE\<close>.
\<close>

definition strtoull :: "char list \<Rightarrow> int \<times> nat \<times> bool" where
  "strtoull s = (
     let ds = takeWhile is_digit s; n = digits_value ds in
     if n \<ge> 2 ^ 64 then (2 ^ 64 - 1, length ds, True) else (n, length ds, False))"

definition strtoll :: "char list \<Rightarrow> int \<times> nat \<times> bool" where
  "strtoll s = (
     let ds = takeWhile is_digit (tl s); n = - digits_value ds in
     if ds = [] then (0, 0, False)
     else if n < - (2 ^ 63) then (- (2 ^ 63), Suc (length ds), True)
     else (n, Suc (length ds), False))"

text \<open>A cast to a 64-bit type and whether casting back gives the source again.\<close>

definition attempt_cast :: "bool \<Rightarrow> int \<Rightarrow> u64 \<times> bool" where
  "attempt_cast is_signed source = (
     let dest = word_of_int source in
     (dest, source = (if is_signed then sint dest else uint dest)))"

definition get_number :: "'f float_ops \<Rightarrow> lexer \<Rightarrow> json_exn + 'f json" where
  "get_number F l = (
     let text = drop (m_start l) (m_content l @ [NUL]);
         (result, used, erange) =
           (if hd text \<noteq> CHR ''-'' then
              let (n, used, erange) = strtoull text; (w, ok) = attempt_cast False n
              in (if ok then JUnsigned w else JFloat (f_zero F), used, erange)
            else
              let (n, used, erange) = strtoll text; (w, ok) = attempt_cast True n
              in (if ok then JInteger w else JFloat (f_zero F), used, erange))
     in if m_start l + used \<noteq> m_cursor l \<or> erange \<or> is_number_float result then
          (let (x, used) = f_strtod F text in
           if m_start l + used \<noteq> m_cursor l
           then Inl (Invalid_Argument_Error (''parse error - '' @ get_token l @ '' is not a number''))
           else Inr (JFloat x))
        else Inr result)"

section \<open>The parser's state\<close>

datatype parse_event_t = object_start | object_end | array_start | array_end | key_event | value_event

text \<open>
  A callback sees the depth, the event and the value, and returns whether to keep it and the
  value it leaves in its reference argument.
\<close>

type_synonym 'f parser_callback_t = "int \<Rightarrow> parse_event_t \<Rightarrow> 'f json \<Rightarrow> bool \<times> 'f json"

record 'f json_parser =
  depth :: int
  callback :: "'f parser_callback_t option"
  last_token :: token_type
  m_lexer :: lexer

definition next_token :: "'f json_parser \<Rightarrow> 'f json_parser parse_result" where
  "next_token p = map_option (\<lambda>(t, l). Inr (p\<lparr>last_token := t, m_lexer := l\<rparr>)) (scan (m_lexer p))"

definition unexpected_msg :: "'f json_parser \<Rightarrow> char list" where
  "unexpected_msg p = ''parse error - unexpected '' @
     (if last_token p = parse_error then [CHR 0x27] @ get_token (m_lexer p) @ [CHR 0x27]
      else token_type_name (last_token p))"

definition expect :: "token_type \<Rightarrow> 'f json_parser \<Rightarrow> unit parse_result" where
  "expect t p =
     (if t \<noteq> last_token p
      then Some (Inl (Invalid_Argument_Error (unexpected_msg p @ ''; expected '' @ token_type_name t)))
      else Some (Inr ()))"

definition unexpect :: "token_type \<Rightarrow> 'f json_parser \<Rightarrow> unit parse_result" where
  "unexpect t p =
     (if t = last_token p then Some (Inl (Invalid_Argument_Error (unexpected_msg p)))
      else Some (Inr ()))"

section \<open>Parsing\<close>

text \<open>
  \<open>keep and (not callback or (keep = callback(depth++, event, result)))\<close>: the start of an
  object or an array, which becomes \<open>initial\<close> if it is kept.
\<close>

definition parse_start ::
    "parse_event_t \<Rightarrow> 'f json \<Rightarrow> bool \<Rightarrow> 'f json_parser \<Rightarrow> bool \<times> 'f json \<times> 'f json_parser" where
  "parse_start event initial keep p =
     (if \<not> keep then (False, JDiscarded, p)
      else case callback p of
        None \<Rightarrow> (True, initial, p)
      | Some cb \<Rightarrow> (let (kept, result) = cb (depth p) event JDiscarded; p = p\<lparr>depth := depth p + 1\<rparr>
                   in (kept, if kept then initial else result, p)))"

text \<open>\<open>if (keep and callback and not callback(--depth, event, result)) result = discarded\<close>.\<close>

definition parse_end ::
    "parse_event_t \<Rightarrow> bool \<Rightarrow> 'f json \<Rightarrow> 'f json_parser \<Rightarrow> 'f json \<times> 'f json_parser" where
  "parse_end event keep result p =
     (if \<not> keep then (result, p)
      else case callback p of
        None \<Rightarrow> (result, p)
      | Some cb \<Rightarrow> (let p = p\<lparr>depth := depth p - 1\<rparr>; (kept, result) = cb (depth p) event result
                   in (if kept then result else JDiscarded, p)))"

definition set_key :: "'f json \<Rightarrow> char list \<Rightarrow> 'f json \<Rightarrow> json_exn + 'f json" where
  "set_key j k v = (case subscript_key j k of
     Inl e \<Rightarrow> Inl e
   | Inr (JObject kvs, _) \<Rightarrow> Inr (JObject (map_assign k v kvs))
   | Inr (j, _) \<Rightarrow> Inr j)"

text \<open>The loop over the members of an object; \<open>rec\<close> parses a value.\<close>

fun parse_members ::
    "(bool \<Rightarrow> 'f json_parser \<Rightarrow> ('f json \<times> 'f json_parser) parse_result) \<Rightarrow> nat \<Rightarrow> bool \<Rightarrow> 'f json \<Rightarrow>
     'f json_parser \<Rightarrow> ('f json \<times> 'f json_parser) parse_result" where
  "parse_members rec 0 keep result p = None"
| "parse_members rec (Suc fuel) keep result p =
     and_then (if last_token p = value_separator then next_token p else Some (Inr p)) (\<lambda>p.
     and_then (expect value_string p) (\<lambda>_.
     and_then (get_string (m_lexer p)) (\<lambda>k.
       let keep_tag = (if keep then
             (case callback p of None \<Rightarrow> True | Some cb \<Rightarrow> fst (cb (depth p) key_event (JString k)))
             else False) in
     and_then (next_token p) (\<lambda>p.
     and_then (expect name_separator p) (\<lambda>_.
     and_then (next_token p) (\<lambda>p.
     and_then (rec keep p) (\<lambda>(v, p).
     and_then (Some (if keep \<and> keep_tag \<and> \<not> is_discarded v then set_key result k v else Inr result)) (\<lambda>result.
       if last_token p = value_separator then parse_members rec fuel keep result p
       else Some (Inr (result, p))))))))))"

fun parse_elements ::
    "(bool \<Rightarrow> 'f json_parser \<Rightarrow> ('f json \<times> 'f json_parser) parse_result) \<Rightarrow> nat \<Rightarrow> bool \<Rightarrow> 'f json \<Rightarrow>
     'f json_parser \<Rightarrow> ('f json \<times> 'f json_parser) parse_result" where
  "parse_elements rec 0 keep result p = None"
| "parse_elements rec (Suc fuel) keep result p =
     and_then (if last_token p = value_separator then next_token p else Some (Inr p)) (\<lambda>p.
     and_then (rec keep p) (\<lambda>(v, p).
     and_then (Some (if keep \<and> \<not> is_discarded v then push_back result v else Inr result)) (\<lambda>result.
       if last_token p = value_separator then parse_elements rec fuel keep result p
       else Some (Inr (result, p)))))"

definition parse_object ::
    "(bool \<Rightarrow> 'f json_parser \<Rightarrow> ('f json \<times> 'f json_parser) parse_result) \<Rightarrow> nat \<Rightarrow> bool \<Rightarrow>
     'f json_parser \<Rightarrow> ('f json \<times> 'f json_parser) parse_result" where
  "parse_object rec fuel keep p = (
     let (keep, result, p) = parse_start object_start (JObject []) keep p in
     and_then (next_token p) (\<lambda>p.
       if last_token p = end_object then
         and_then (next_token p) (\<lambda>p. Some (Inr (parse_end object_end keep result p)))
       else
         and_then (unexpect value_separator p) (\<lambda>_.
         and_then (parse_members rec fuel keep result p) (\<lambda>(result, p).
         and_then (expect end_object p) (\<lambda>_.
         and_then (next_token p) (\<lambda>p. Some (Inr (parse_end object_end keep result p))))))))"

text \<open>At the end of an empty array the callback is called even when the array is not kept.\<close>

definition parse_array ::
    "(bool \<Rightarrow> 'f json_parser \<Rightarrow> ('f json \<times> 'f json_parser) parse_result) \<Rightarrow> nat \<Rightarrow> bool \<Rightarrow>
     'f json_parser \<Rightarrow> ('f json \<times> 'f json_parser) parse_result" where
  "parse_array rec fuel keep p = (
     let (keep, result, p) = parse_start array_start (JArray []) keep p in
     and_then (next_token p) (\<lambda>p.
       if last_token p = end_array then
         and_then (next_token p) (\<lambda>p. Some (Inr (parse_end array_end True result p)))
       else
         and_then (unexpect value_separator p) (\<lambda>_.
         and_then (parse_elements rec fuel keep result p) (\<lambda>(result, p).
         and_then (expect end_array p) (\<lambda>_.
         and_then (next_token p) (\<lambda>p. Some (Inr (parse_end array_end keep result p))))))))"

text \<open>The primitive values, up to the callback of the value event.\<close>

definition parse_value ::
    "'f float_ops \<Rightarrow> 'f json_parser \<Rightarrow> ('f json \<times> 'f json_parser) parse_result" where
  "parse_value F p = (case last_token p of
     literal_null \<Rightarrow> and_then (next_token p) (\<lambda>p. Some (Inr (JNull, p)))
   | value_string \<Rightarrow>
       and_then (get_string (m_lexer p)) (\<lambda>s. and_then (next_token p) (\<lambda>p. Some (Inr (JString s, p))))
   | literal_true \<Rightarrow> and_then (next_token p) (\<lambda>p. Some (Inr (JBoolean True, p)))
   | literal_false \<Rightarrow> and_then (next_token p) (\<lambda>p. Some (Inr (JBoolean False, p)))
   | value_number \<Rightarrow>
       and_then (Some (get_number F (m_lexer p))) (\<lambda>n. and_then (next_token p) (\<lambda>p. Some (Inr (n, p))))
   | _ \<Rightarrow> and_then (unexpect (last_token p) p) (\<lambda>_. Some (Inr (JDiscarded, p))))"

fun parse_internal ::
    "'f float_ops \<Rightarrow> nat \<Rightarrow> bool \<Rightarrow> 'f json_parser \<Rightarrow> ('f json \<times> 'f json_parser) parse_result" where
  "parse_internal F 0 keep p = None"
| "parse_internal F (Suc fuel) keep p = (case last_token p of
     begin_object \<Rightarrow> parse_object (parse_internal F fuel) fuel keep p
   | begin_array \<Rightarrow> parse_array (parse_internal F fuel) fuel keep p
   | _ \<Rightarrow> and_then (parse_value F p) (\<lambda>(result, p).
       if keep then (case callback p of
           None \<Rightarrow> Some (Inr (result, p))
         | Some cb \<Rightarrow> (let (kept, result) = cb (depth p) value_event result
                      in Some (Inr (if kept then result else JDiscarded, p))))
       else Some (Inr (result, p))))"

text \<open>The constructor reads the first token.\<close>

definition parser_of :: "char list \<Rightarrow> 'f parser_callback_t option \<Rightarrow> 'f json_parser parse_result" where
  "parser_of s cb =
     next_token \<lparr>depth = 0, callback = cb, last_token = uninitialized, m_lexer = lexer_of s\<rparr>"

definition parser_parse :: "'f float_ops \<Rightarrow> 'f json_parser \<Rightarrow> 'f json parse_result" where
  "parser_parse F p =
     and_then (parse_internal F (length (m_content (m_lexer p)) + 2) True p) (\<lambda>(result, p).
     and_then (expect end_of_input p) (\<lambda>_.
       Some (Inr (if is_discarded result then JNull else result))))"

definition parse :: "'f float_ops \<Rightarrow> char list \<Rightarrow> 'f parser_callback_t option \<Rightarrow> 'f json parse_result" where
  "parse F s cb = and_then (parser_of s cb) (parser_parse F)"

end
