(* ===== verification/Client.thy ===== *)
theory Client
  imports Json_Parser Server
begin

text \<open>
  The client library, \<open>src/client.cpp\<close>, which implements the interface of \<open>src/cache.h\<close> by
  messages to the server.  What asio does is an argument: what a read gives and whether it
  fails.  An operation returns the bytes it sends together with its outcome.
\<close>

section \<open>Connections\<close>

datatype client_exn = System_Error | Json_Error json_exn

datatype asio_error = No_Error | Eof | Other_Error

text \<open>
  \<open>tcp_connection::get_message\<close>: what \<open>read_some\<close> put into the buffer and its error code.  A
  full buffer counts as an error and gives the empty string.
\<close>

definition tcp_get_message :: "char list \<Rightarrow> asio_error \<Rightarrow> client_exn + char list" where
  "tcp_get_message received error =
     (if error \<noteq> Eof \<and> error \<noteq> No_Error then Inl System_Error
      else if length received = bufsize then Inr []
      else Inr received)"

definition tcp_connection_write_message :: "char list \<Rightarrow> char list" where
  "tcp_connection_write_message st = st @ [NUL]"

text \<open>
  \<open>udp_connection::get_message\<close>: \<open>receive\<close> throws (\<open>None\<close>; for one, when the 50 ms are over) or
  puts a datagram into the buffer, which holds anything before.
\<close>

definition udp_get_message :: "char list option \<Rightarrow> char list \<Rightarrow> client_exn + char list" where
  "udp_get_message datagram buf = (case datagram of
     None \<Rightarrow> Inl System_Error
   | Some d \<Rightarrow> (
       let buf = receive_into d buf; loc = find_in_buf buf NUL
       in if loc = npos then Inr errstr else Inr (take (unat loc) buf)))"

text \<open>\<open>s.size()+1\<close> characters from \<open>s.c_str()\<close>.\<close>

definition udp_connection_write_message :: "char list \<Rightarrow> char list" where
  "udp_connection_write_message s = s @ [NUL]"

section \<open>Messages\<close>

definition finstr :: "char list \<Rightarrow> char list \<Rightarrow> char list \<Rightarrow> char list" where
  "finstr verb word1 word2 =
     verb @ '' /'' @ word1 @ (if length word2 = 0 then '''' else ''/'' @ word2)"

definition send_message_tcp ::
    "bool \<Rightarrow> char list \<Rightarrow> char list \<Rightarrow> char list \<Rightarrow> char list \<times> asio_error \<Rightarrow>
     char list \<times> (client_exn + char list)" where
  "send_message_tcp getmes verb word1 word2 answer =
     (tcp_connection_write_message (finstr verb word1 word2),
      if getmes then tcp_get_message (fst answer) (snd answer) else Inr [])"

definition send_message_udp ::
    "bool \<Rightarrow> char list \<Rightarrow> char list \<Rightarrow> char list \<Rightarrow> char list option \<Rightarrow> char list \<Rightarrow>
     char list \<times> (client_exn + char list)" where
  "send_message_udp getmes verb word1 word2 answer buf =
     (udp_connection_write_message (finstr verb word1 word2),
      if getmes then udp_get_message answer buf else Inr [])"

text \<open>The non-const \<open>operator[]\<close> adds a missing member as null, whose conversion then throws.\<close>

definition unpack_json :: "'f float_ops \<Rightarrow> char list \<Rightarrow> (char list \<times> char list) parse_result" where
  "unpack_json F json_str =
     and_then (parse F json_str None) (\<lambda>j.
     and_then (Some (subscript_cstr j ''key'')) (\<lambda>(j, e).
     and_then (Some (get_impl_string e)) (\<lambda>k.
     and_then (Some (subscript_cstr j ''value'')) (\<lambda>(j, e).
     and_then (Some (get_impl_string e)) (\<lambda>v.
     Some (Inr (k, v)))))))"

section \<open>The operations\<close>

text \<open>
  The operations of \<open>cache.h\<close>; \<open>None\<close> is undefined behaviour.  Those over TCP wait for no
  answer: what they send is their whole effect.
\<close>

definition client_create_cache :: "u64 \<Rightarrow> char list" where
  "client_create_cache max_mem =
     fst (send_message_tcp False ''POST'' ''memsize'' (show_nat (unat max_mem)) ([], No_Error))"

definition client_cache_set :: "char list \<Rightarrow> char list \<Rightarrow> u32 \<Rightarrow> char list option option" where
  "client_cache_set k v v_size =
     (if unat v_size > bufsize then Some None
      else do {
        word1 \<leftarrow> c_string k;
        if unat v_size > length v then None
        else Some (Some (fst (send_message_tcp False ''PUT'' word1 (take (unat v_size) v) ([], No_Error))))
      })"

text \<open>
  \<open>cache_get\<close>: the datagram, and a NULL or the new buffer with \<open>*val_size\<close>.  \<open>new char[n]\<close>
  holds anything (\<open>mem\<close>) before \<open>strcpy\<close> fills it up to the first NUL of the value.
\<close>

definition strcpy :: "char list \<Rightarrow> char list \<Rightarrow> char list" where
  "strcpy mem s = (let t = takeWhile (\<lambda>c. c \<noteq> NUL) s @ [NUL] in t @ drop (length t) mem)"

definition client_cache_get ::
    "'f float_ops \<Rightarrow> char list \<Rightarrow> char list option \<Rightarrow> char list \<Rightarrow> (nat \<Rightarrow> char list) \<Rightarrow>
     (char list \<times> (client_exn + char list option \<times> u32)) option" where
  "client_cache_get F k answer buf mem = do {
     keystr \<leftarrow> c_string k;
     let (datagram, retval) = send_message_udp True ''GET'' keystr [] answer buf;
     case retval of
       Inl e \<Rightarrow> Some (datagram, Inl e)
     | Inr retval \<Rightarrow>
         if retval = errstr then Some (datagram, Inr (None, 0))
         else (case unpack_json F retval of
             None \<Rightarrow> None
           | Some (Inl e) \<Rightarrow> Some (datagram, Inl (Json_Error e))
           | Some (Inr (retkeystr, valstr)) \<Rightarrow>
               if keystr \<noteq> retkeystr then Some (datagram, Inr (None, 0))
               else Some (datagram, Inr (Some (strcpy (mem (length valstr + 1)) valstr), of_nat (length valstr))))
   }"

definition client_cache_delete :: "char list \<Rightarrow> char list option" where
  "client_cache_delete k = do {
     word1 \<leftarrow> c_string k;
     Some (fst (send_message_tcp False ''DELETE'' word1 [] ([], No_Error)))
   }"

definition client_cache_space_used :: u64 where
  "client_cache_space_used = 0"

definition client_destroy_cache :: "char list" where
  "client_destroy_cache = fst (send_message_tcp False ''POST'' ''shutdown'' [] ([], No_Error))"

end
