(* ===== verification/Json_Dump.thy ===== *)
theory Json_Dump
  imports Json_Ops
begin

text \<open>
  Serialization, \<open>dump\<close> of class \<open>basic_json\<close>, with the escaping of strings; \<open>escape_string\<close>
  fills a buffer of the right size and is shown to be the plain concatenation of escapes.
\<close>

section \<open>Escaping\<close>

text \<open>How many characters an escape adds; \<open>char\<close> is signed, so bytes from 0x80 on are kept.\<close>

fun extra_space :: "char list \<Rightarrow> nat" where
  "extra_space [] = 0"
| "extra_space (c # s) =
     (if c \<in> {CHR 0x22, CHR 0x5C, CHR 0x08, CHR 0x0C, CHR 0x0A, CHR 0x0D, CHR 0x09} then 1
      else if (of_char c :: nat) \<le> 0x1F then 5 else 0) + extra_space s"

definition hexify :: "nat \<Rightarrow> char" where
  "hexify v = (if v < 10 then char_of (0x30 + v) else char_of (0x61 + v - 10))"

text \<open>
  The loop of \<open>escape_string\<close>: the buffer is full of backslashes, so an escape writes only
  what follows its backslash, from \<open>pos + 1\<close> on.
\<close>

fun escape_loop :: "char list \<Rightarrow> char list \<Rightarrow> nat \<Rightarrow> char list" where
  "escape_loop [] result pos = result"
| "escape_loop (c # s) result pos =
     (if c = CHR 0x22 then escape_loop s (result[pos + 1 := CHR 0x22]) (pos + 2)
      else if c = CHR 0x5C then escape_loop s result (pos + 2)
      else if c = CHR 0x08 then escape_loop s (result[pos + 1 := CHR ''b'']) (pos + 2)
      else if c = CHR 0x0C then escape_loop s (result[pos + 1 := CHR ''f'']) (pos + 2)
      else if c = CHR 0x0A then escape_loop s (result[pos + 1 := CHR ''n'']) (pos + 2)
      else if c = CHR 0x0D then escape_loop s (result[pos + 1 := CHR ''r'']) (pos + 2)
      else if c = CHR 0x09 then escape_loop s (result[pos + 1 := CHR ''t'']) (pos + 2)
      else if (of_char c :: nat) \<le> 0x1F then
        escape_loop s (result[pos + 1 := CHR ''u'', pos + 2 := CHR ''0'', pos + 3 := CHR ''0'',
          pos + 4 := hexify (of_char c div 16), pos + 5 := hexify (of_char c mod 16)]) (pos + 6)
      else escape_loop s (result[pos := c]) (pos + 1))"

definition escape_string :: "char list \<Rightarrow> char list" where
  "escape_string s = (
     let space = extra_space s in
     if space = 0 then s
     else escape_loop s (replicate (length s + space) (CHR 0x5C)) 0)"

section \<open>Dumping\<close>

fun separated :: "char list \<Rightarrow> char list list \<Rightarrow> char list" where
  "separated sep [] = []"
| "separated sep [x] = x"
| "separated sep (x # y # xs) = x @ sep @ separated sep (y # xs)"

definition show_int :: "int \<Rightarrow> char list" where
  "show_int n = (if n < 0 then ''-'' @ show_nat (nat (- n)) else show_nat (nat n))"

text \<open>Whole numbers in the place of \<open>double\<close>, an instance of the parameter.\<close>

definition int_floats :: "int float_ops" where
  "int_floats = \<lparr>f_of_int = id, f_to_int = id, f_eq = (=), f_less = (<), f_zero = 0,
     f_is_whole = (\<lambda>_. True), f_fixed = (\<lambda>_ x. show_int x @ ''.0''), f_general = (\<lambda>_ x. show_int x),
     f_strtod = (\<lambda>s. let ds = takeWhile is_digit s in (digits_value ds, length ds))\<rparr>"

definition spaces :: "u32 \<Rightarrow> char list" where
  "spaces n = replicate (unat n) (CHR '' '')"

text \<open>
  \<open>dump\<close> into a stream, as the characters it writes.  A whole \<open>double\<close> is written with one
  decimal, any other one with the 15 digits of \<open>digits10\<close>.
\<close>

fun dump_to :: "'f float_ops \<Rightarrow> bool \<Rightarrow> u32 \<Rightarrow> u32 \<Rightarrow> 'f json \<Rightarrow> char list" where
  "dump_to F pretty_print indent_step current_indent (JObject kvs) =
     (if kvs = [] then ''{}''
      else
        let new_indent = (if pretty_print then current_indent + indent_step else current_indent) in
        ''{'' @ (if pretty_print then [CHR 0x0A] else []) @
        separated (if pretty_print then [CHR '','', CHR 0x0A] else '','')
          (map (\<lambda>e. spaces new_indent @ [CHR 0x22] @ escape_string (fst e) @ [CHR 0x22, CHR '':''] @
              (if pretty_print then '' '' else []) @
              dump_to F pretty_print indent_step new_indent (snd e)) kvs) @
        (if pretty_print then [CHR 0x0A] else []) @
        spaces (if pretty_print then new_indent - indent_step else new_indent) @ ''}'')"
| "dump_to F pretty_print indent_step current_indent (JArray xs) =
     (if xs = [] then ''[]''
      else
        let new_indent = (if pretty_print then current_indent + indent_step else current_indent) in
        ''['' @ (if pretty_print then [CHR 0x0A] else []) @
        separated (if pretty_print then [CHR '','', CHR 0x0A] else '','')
          (map (\<lambda>x. spaces new_indent @ dump_to F pretty_print indent_step new_indent x) xs) @
        (if pretty_print then [CHR 0x0A] else []) @
        spaces (if pretty_print then new_indent - indent_step else new_indent) @ '']'')"
| "dump_to F pretty_print indent_step current_indent (JString s) =
     [CHR 0x22] @ escape_string s @ [CHR 0x22]"
| "dump_to F pretty_print indent_step current_indent (JBoolean b) = (if b then ''true'' else ''false'')"
| "dump_to F pretty_print indent_step current_indent (JInteger n) = show_int (sint n)"
| "dump_to F pretty_print indent_step current_indent (JUnsigned n) = show_nat (unat n)"
| "dump_to F pretty_print indent_step current_indent (JFloat x) =
     (if f_is_whole F x then f_fixed F 1 x else f_general F 15 x)"
| "dump_to F pretty_print indent_step current_indent JDiscarded = ''<discarded>''"
| "dump_to F pretty_print indent_step current_indent JNull = ''null''"

definition dump :: "'f float_ops \<Rightarrow> int \<Rightarrow> 'f json \<Rightarrow> char list" where
  "dump F indent j =
     (if indent \<ge> 0 then dump_to F True (word_of_int indent) 0 j else dump_to F False 0 0 j)"

section \<open>Escaping as concatenation\<close>

definition escape_char :: "char \<Rightarrow> char list" where
  "escape_char c =
     (if c = CHR 0x22 then [CHR 0x5C, CHR 0x22]
      else if c = CHR 0x5C then [CHR 0x5C, CHR 0x5C]
      else if c = CHR 0x08 then [CHR 0x5C, CHR ''b'']
      else if c = CHR 0x0C then [CHR 0x5C, CHR ''f'']
      else if c = CHR 0x0A then [CHR 0x5C, CHR ''n'']
      else if c = CHR 0x0D then [CHR 0x5C, CHR ''r'']
      else if c = CHR 0x09 then [CHR 0x5C, CHR ''t'']
      else if (of_char c :: nat) \<le> 0x1F then
        [CHR 0x5C, CHR ''u'', CHR ''0'', CHR ''0'', hexify (of_char c div 16), hexify (of_char c mod 16)]
      else [c])"

lemma extra_space_length: "length (concat (map escape_char s)) = length s + extra_space s"
  by (induction s) (auto simp: escape_char_def)

lemma extra_space_zero: "extra_space s = 0 \<Longrightarrow> concat (map escape_char s) = s"
  by (induction s) (auto simp: escape_char_def split: if_splits)

text \<open>Overwriting the buffer behind what is done.\<close>

lemma fill_two: "(as @ replicate (Suc (Suc n)) x)[Suc (length as) := y] = (as @ [x, y]) @ replicate n x"
  by (simp add: list_update_append)

lemma fill_two_same: "as @ replicate (Suc (Suc n)) x = (as @ [x, x]) @ replicate n x"
  by simp

lemma fill_six:
  "(as @ replicate (Suc (Suc (Suc (Suc (Suc (Suc n)))))) x)[length as + 1 := b, length as + 2 := c,
     length as + 3 := d, length as + 4 := e, length as + 5 := f] =
   (as @ [x, b, c, d, e, f]) @ replicate n x"
  by (simp add: list_update_append list_update.simps(2) split: nat.split)

lemma escape_step:
  "escape_loop (c # s) (as @ replicate (length (escape_char c) + n) (CHR 0x5C)) (length as) =
   escape_loop s ((as @ escape_char c) @ replicate n (CHR 0x5C)) (length (as @ escape_char c))"
proof -
  consider "c \<in> {CHR 0x22, CHR 0x5C, CHR 0x08, CHR 0x0C, CHR 0x0A, CHR 0x0D, CHR 0x09}"
    | "c \<notin> {CHR 0x22, CHR 0x5C, CHR 0x08, CHR 0x0C, CHR 0x0A, CHR 0x0D, CHR 0x09}"
      "(of_char c :: nat) \<le> 0x1F"
    | "c \<notin> {CHR 0x22, CHR 0x5C, CHR 0x08, CHR 0x0C, CHR 0x0A, CHR 0x0D, CHR 0x09}"
      "\<not> (of_char c :: nat) \<le> 0x1F" by blast
  then show ?thesis
  proof cases
    case 1
    then show ?thesis using fill_two [of as n "CHR 0x5C"] fill_two_same [of as n "CHR 0x5C"]
      by (auto simp: escape_char_def)
  next
    case 2
    have six: "length as + 6 = Suc (Suc (Suc (Suc (Suc (Suc (length as))))))" by simp
    from 2 show ?thesis
      using fill_six [of as n "CHR 0x5C" "CHR ''u''" "CHR ''0''" "CHR ''0''"
          "hexify (of_char c div 16)" "hexify (of_char c mod 16)"]
      by (simp add: escape_char_def) (simp add: six)
  next
    case 3
    then show ?thesis by (simp add: escape_char_def)
  qed
qed

lemma escape_loop_concat:
  "escape_loop s (as @ replicate (length (concat (map escape_char s))) (CHR 0x5C)) (length as) =
   as @ concat (map escape_char s)"
proof (induction s arbitrary: as)
  case Nil
  then show ?case by simp
next
  case (Cons c s)
  then show ?case
    using escape_step [of c s as "length (concat (map escape_char s))"] Cons.IH [of "as @ escape_char c"]
    by (simp del: escape_loop.simps)
qed

lemma escape_string_concat: "escape_string s = concat (map escape_char s)"
  using escape_loop_concat [of s "[]"] extra_space_zero [of s]
  by (simp add: escape_string_def extra_space_length Let_def)

end
