(* ===== verification/Json_Lexer_Correct.thy ===== *)
theory Json_Lexer_Correct
  imports Json_Lexer Json_Dump
begin

text \<open>
  The scanner reads the tokens the serializer writes: punctuation, literals, strings (and
  \<open>get_string\<close> undoes \<open>escape_string\<close>) and integers.
\<close>

section \<open>The table\<close>

lemma code_less [simp]: "code c < 256"
  by (metis of_char_mod_256 mod_less_divisor zero_less_numeral)

definition yybm_spec :: "nat \<Rightarrow> nat" where
  "yybm_spec y =
     (if y \<in> {0x09, 0x0A, 0x0D} then 32
      else if y < 0x10 then 0
      else if y = 0x20 then 160
      else if y = 0x22 \<or> y = 0x5C then 0
      else if 0x30 \<le> y \<and> y \<le> 0x39 then 192
      else 128)"

lemma block_a:
  "list_all (\<lambda>i. [0, 0, 0, 0, 0, 0, 0, 0, 0, 32, 32, 0, 0, 32, 0, 0] ! i = yybm_spec i)
    [0, 1, 2, 3, 4, 5, 6, 7, 8, 9, 10, 11, 12, 13, 14, 15]"
  by (simp add: yybm_spec_def)

lemma block_b:
  "list_all (\<lambda>i. [160, 128, 0, 128, 128, 128, 128, 128, 128, 128, 128, 128, 128, 128, 128, 128,
      192, 192, 192, 192, 192, 192, 192, 192, 192, 192, 128, 128, 128, 128, 128, 128] ! i =
      yybm_spec (32 + i))
    [0, 1, 2, 3, 4, 5, 6, 7, 8, 9, 10, 11, 12, 13, 14, 15, 16, 17, 18, 19, 20, 21, 22, 23, 24, 25,
      26, 27, 28, 29, 30, 31]"
  by (simp add: yybm_spec_def)

lemma block_c:
  "list_all (\<lambda>i. [128, 128, 128, 128, 0, 128, 128, 128] ! i = yybm_spec (88 + i))
    [0, 1, 2, 3, 4, 5, 6, 7]"
  by (simp add: yybm_spec_def)

lemma upto_small:
  "set [0, 1, 2, 3, 4, 5, 6, 7] = {0..<8 :: nat}"
  "set [0, 1, 2, 3, 4, 5, 6, 7, 8, 9, 10, 11, 12, 13, 14, 15] = {0..<16 :: nat}"
  "set [0, 1, 2, 3, 4, 5, 6, 7, 8, 9, 10, 11, 12, 13, 14, 15, 16, 17, 18, 19, 20, 21, 22, 23, 24, 25,
      26, 27, 28, 29, 30, 31] = {0..<32 :: nat}"
  by (simp_all add: atLeastLessThan_nat_numeral eval_nat_numeral atLeast0_lessThan_Suc) auto

lemma nth_blocks:
  fixes x :: nat
  assumes "length a = 16" and "length c = 32" and "length e = 8"
  shows "(a @ replicate 16 x @ c @ replicate 24 x @ e @ replicate 160 x) ! y =
    (if y < 16 then a ! y else if y < 32 then x else if y < 64 then c ! (y - 32)
     else if y < 88 then x else if y < 96 then e ! (y - 88)
     else replicate 160 x ! (y - 96))"
  using assms by (auto simp: nth_append)

lemma yybm_lookup:
  assumes "y < 256"
  shows "yybm ! y = yybm_spec y"
proof -
  have a: "[0, 0, 0, 0, 0, 0, 0, 0, 0, 32, 32, 0, 0, 32, 0, 0] ! i = yybm_spec i" if "i < 16" for i
    using block_a that unfolding list_all_iff upto_small by simp
  have b: "[160, 128, 0, 128, 128, 128, 128, 128, 128, 128, 128, 128, 128, 128, 128, 128,
      192, 192, 192, 192, 192, 192, 192, 192, 192, 192, 128, 128, 128, 128, 128, 128] ! i =
      yybm_spec (32 + i)" if "i < 32" for i
    using block_b that unfolding list_all_iff upto_small by simp
  have c: "[128, 128, 128, 128, 0, 128, 128, 128] ! i = yybm_spec (88 + i)" if "i < 8" for i
    using block_c that unfolding list_all_iff upto_small by simp
  have "yybm ! y = (if y < 16 then yybm_spec y else if y < 32 then 128
      else if y < 64 then yybm_spec (32 + (y - 32)) else if y < 88 then 128
      else if y < 96 then yybm_spec (88 + (y - 88)) else replicate 160 128 ! (y - 96))"
    unfolding yybm_def by (subst nth_blocks) (simp_all only: a b c length_Cons list.size(3), auto simp: a b c)
  then show ?thesis using assms by (auto simp: yybm_spec_def)
qed

lemma white_bit [simp]: "yybm_bit (code c) 32 \<longleftrightarrow> code c \<in> {0x09, 0x0A, 0x0D, 0x20}"
  by (simp add: yybm_bit_def yybm_lookup yybm_spec_def)

lemma digit_bit [simp]: "yybm_bit (code c) 64 \<longleftrightarrow> is_digit c"
  by (simp add: yybm_bit_def yybm_lookup yybm_spec_def is_digit_def)

text \<open>Control characters from 0x10 on count as plain characters of a string.\<close>

lemma plain_bit [simp]:
  "yybm_bit (code c) 128 \<longleftrightarrow> 0x10 \<le> code c \<and> code c \<noteq> 0x22 \<and> code c \<noteq> 0x5C"
  by (simp add: yybm_bit_def yybm_lookup yybm_spec_def)

section \<open>Strings\<close>

lemma code_hexify: "v < 16 \<Longrightarrow> code (hexify v) = (if v < 10 then 0x30 + v else 0x57 + v)"
  by (simp add: hexify_def)

lemma string_next_hex:
  "v < 16 \<Longrightarrow> string_next L43 (code (hexify v)) = L54"
  "v < 16 \<Longrightarrow> string_next L54 (code (hexify v)) = L60"
  "v < 16 \<Longrightarrow> string_next L60 (code (hexify v)) = L63"
  "v < 16 \<Longrightarrow> string_next L63 (code (hexify v)) = L31"
  by (simp_all add: code_hexify string_next_def basic_json_parser_43_def basic_json_parser_54_def
      basic_json_parser_60_def basic_json_parser_63_def)

lemma string_next_plain:
  "0x10 \<le> code c \<Longrightarrow> c \<noteq> CHR 0x22 \<Longrightarrow> c \<noteq> CHR 0x5C \<Longrightarrow> string_next L31 (code c) = L31"
proof -
  assume c: "0x10 \<le> code c" "c \<noteq> CHR 0x22" "c \<noteq> CHR 0x5C"
  have "code (CHR 0x22) = 0x22" "code (CHR 0x5C) = 0x5C" by simp_all
  then have "code c \<noteq> 0x22" "code c \<noteq> 0x5C" using c(2,3) by (metis of_char_eqI)+
  then show ?thesis using c(1) by (simp add: string_next_def basic_json_parser_32_def)
qed

lemma string_next_backslash: "string_next L31 (code (CHR 0x5C)) = L36"
  using plain_bit [of "CHR 0x5C"] by (simp add: string_next_def basic_json_parser_32_def)

lemma string_next_quote: "string_next L31 (code (CHR 0x22)) = L34"
  using plain_bit [of "CHR 0x22"] by (simp add: string_next_def basic_json_parser_32_def)

lemma string_next_escape:
  "c \<in> {CHR 0x22, CHR 0x5C, CHR ''b'', CHR ''f'', CHR ''n'', CHR ''r'', CHR ''t''} \<Longrightarrow>
   string_next L36 (code c) = L31"
  "string_next L36 (code (CHR ''u'')) = L43"
  by (auto simp: string_next_def basic_json_parser_36_def)

lemma string_next_zero: "string_next L43 (code (CHR ''0'')) = L54" "string_next L54 (code (CHR ''0'')) = L60"
  by (simp_all add: string_next_def basic_json_parser_43_def basic_json_parser_54_def)

lemma scan_escape_char:
  "basic_json_parser_31 L31 m cur (escape_char c @ r) =
   basic_json_parser_31 L31 m (cur + length (escape_char c)) r"
proof -
  let ?E = "{CHR 0x22, CHR 0x5C, CHR 0x08, CHR 0x0C, CHR 0x0A, CHR 0x0D, CHR 0x09}"
  consider "c \<in> ?E" | "c \<notin> ?E" "code c \<le> 0x1F" | "c \<notin> ?E" "\<not> code c \<le> 0x1F" by blast
  then show ?thesis
  proof cases
    case 1
    then obtain d where d: "escape_char c = [CHR 0x5C, d]"
        "d \<in> {CHR 0x22, CHR 0x5C, CHR ''b'', CHR ''f'', CHR ''n'', CHR ''r'', CHR ''t''}"
      by (auto simp: escape_char_def)
    then show ?thesis using string_next_escape(1) [OF d(2)] string_next_backslash by simp
  next
    case 2
    then have h: "code c div 16 < 16" "code c mod 16 < 16" by auto
    have e: "escape_char c = [CHR 0x5C, CHR ''u'', CHR ''0'', CHR ''0'', hexify (code c div 16),
        hexify (code c mod 16)]" using 2 by (simp add: escape_char_def)
    show ?thesis
      unfolding e using string_next_backslash string_next_escape(2) string_next_zero
        string_next_hex(3) [OF h(1)] string_next_hex(4) [OF h(2)]
      by (simp add: add.commute)
  next
    case 3
    then have "escape_char c = [c]" by (simp add: escape_char_def)
    then show ?thesis using string_next_plain [of c] 3 by simp
  qed
qed

lemma scan_escaped:
  "basic_json_parser_31 L31 m cur (escape_string s @ CHR 0x22 # r) =
   Some (value_string, cur + length (escape_string s) + 1)"
  unfolding escape_string_concat
proof (induction s arbitrary: cur)
  case Nil
  then show ?case using string_next_quote by simp
next
  case (Cons c s)
  then show ?case by (simp add: scan_escape_char add.assoc)
qed

text \<open>What \<open>get_string\<close> makes of one escape.\<close>

lemma at_append [simp]:
  "at (as @ c # r) (length as) = Some c"
  by (simp add: at_def)

lemma to_unicode_low: "w < 0x80 \<Longrightarrow> to_unicode w 0 = Inr [byte w]"
  by (auto simp: to_unicode_def word_less_nat_alt word_le_nat_alt)

lemma hex_value_hexify: "v < 16 \<Longrightarrow> hex_value (hexify v) = of_nat v"
  by (simp add: hex_value_def code_hexify)

lemma is_hex_hexify: "v < 16 \<Longrightarrow> is_hex (hexify v)"
  by (auto simp: is_hex_def code_hexify)

lemma strtoul_escape:
  assumes "n \<le> 0x1F"
  shows "strtoul_hex [CHR ''0'', CHR ''0'', hexify (n div 16), hexify (n mod 16)] = of_nat n"
proof -
  have h: "n div 16 < 16" "n mod 16 < 16" using assms by auto
  have z: "is_hex (CHR ''0'')" "hex_value (CHR ''0'') = 0" by (simp_all add: is_hex_def hex_value_def)
  have "strtoul_hex [CHR ''0'', CHR ''0'', hexify (n div 16), hexify (n mod 16)] =
      of_nat (n div 16) * 16 + of_nat (n mod 16)"
    using h z by (simp add: strtoul_hex_def is_hex_hexify hex_value_hexify)
  also have "\<dots> = of_nat (n div 16 * 16 + n mod 16)"
    by (simp only: of_nat_add of_nat_mult of_nat_numeral)
  also have "\<dots> = of_nat n" by (simp only: div_mult_mod_eq)
  finally show ?thesis .
qed

lemma escape_unicode:
  assumes "code c \<le> 0x1F"
  shows "to_unicode (of_nat (code c)) 0 = Inr [c]" and "\<not> (of_nat (code c) :: u64) \<ge> 0xD800"
proof -
  have u: "unat (of_nat (code c) :: u64) = code c"
    using assms by (simp add: unat_of_nat take_bit_nat_eq_self)
  then have "(of_nat (code c) :: u64) < 0x80" using assms by (simp add: word_less_nat_alt)
  from to_unicode_low [OF this] show "to_unicode (of_nat (code c)) 0 = Inr [c]"
    by (simp add: byte_def u)
  show "\<not> (of_nat (code c) :: u64) \<ge> 0xD800" using assms u by (simp add: word_le_nat_alt)
qed

lemma at_split: "at (as @ bs) (length as) = at bs 0"
  by (simp add: at_def nth_append)

lemma at_split_Suc: "at (as @ bs) (Suc (length as)) = at bs 1"
  by (simp add: at_def nth_append)

lemma get_string_escape_char:
  assumes t: "text = pre @ escape_char c @ post" and stop: "length pre + length (escape_char c) \<le> stop"
  shows "get_string_loop text limit stop (length pre) res =
    get_string_loop text limit stop (length (pre @ escape_char c)) (res @ [c])"
proof -
  let ?E = "{CHR 0x22, CHR 0x5C, CHR 0x08, CHR 0x0C, CHR 0x0A, CHR 0x0D, CHR 0x09}"
  consider "c \<in> ?E" | "c \<notin> ?E" "code c \<le> 0x1F" | "c \<notin> ?E" "\<not> code c \<le> 0x1F" by blast
  then show ?thesis
  proof cases
    case 1
    then obtain d where d: "escape_char c = [CHR 0x5C, d]" "simple_escape d = [c]" "d \<noteq> CHR ''u''"
      by (auto simp: escape_char_def simple_escape_def)
    have a: "at text (length pre) = Some (CHR 0x5C)" "at text (Suc (length pre)) = Some d"
      by (simp_all add: t d(1) at_def nth_append)
    show ?thesis
      using a d stop by (subst get_string_loop.simps) simp
  next
    case 2
    have e: "escape_char c = [CHR 0x5C, CHR ''u'', CHR ''0'', CHR ''0'', hexify (code c div 16),
        hexify (code c mod 16)]" using 2 by (simp add: escape_char_def)
    have a: "at text (length pre) = Some (CHR 0x5C)" "at text (Suc (length pre)) = Some (CHR ''u'')"
      by (simp_all add: t e at_def nth_append)
    have d: "take 4 (drop (Suc (Suc (length pre))) text) =
        [CHR ''0'', CHR ''0'', hexify (code c div 16), hexify (code c mod 16)]"
      by (simp add: t e)
    have l: "\<not> length text < length pre + 6" by (simp add: t e)
    have six: "Suc (Suc (Suc (Suc (Suc (Suc n))))) = 6 + n" for n by simp
    show ?thesis
      using a d l stop strtoul_escape [OF 2(2)] escape_unicode [OF 2(2)]
      by (subst get_string_loop.simps, simp add: e Let_def six, simp add: add.commute)
  next
    case 3
    then have e: "escape_char c = [c]" by (simp add: escape_char_def)
    have "at text (length pre) = Some c" by (simp add: t e at_def nth_append)
    then show ?thesis
      using 3 stop e by (subst get_string_loop.simps) simp
  qed
qed

lemma get_string_escaped:
  assumes "text = pre @ escape_string s @ post"
  shows "get_string_loop text limit (length pre + length (escape_string s)) (length pre) res =
    Some (Inr (res @ s))"
  using assms unfolding escape_string_concat
proof (induction s arbitrary: pre res)
  case Nil
  then show ?case by (subst get_string_loop.simps) simp
next
  case (Cons c s)
  have t: "text = pre @ escape_char c @ (concat (map escape_char s) @ post)" using Cons.prems by simp
  let ?stop = "length pre + length (concat (map escape_char (c # s)))"
  have "get_string_loop text limit ?stop (length pre) res =
      get_string_loop text limit ?stop (length (pre @ escape_char c)) (res @ [c])"
    by (rule get_string_escape_char [OF t]) simp
  moreover have "?stop = length (pre @ escape_char c) + length (concat (map escape_char s))" by simp
  ultimately show ?case using Cons.IH [of "pre @ escape_char c" "res @ [c]"] t
    by (simp add: add.assoc)
qed

section \<open>Tokens\<close>

lemma yybm_white [simp]: "y < 256 \<Longrightarrow> yybm_bit y 32 \<longleftrightarrow> y \<in> {0x09, 0x0A, 0x0D, 0x20}"
  by (simp add: yybm_bit_def yybm_lookup yybm_spec_def)

definition is_white :: "char \<Rightarrow> bool" where
  "is_white c \<longleftrightarrow> code c \<in> {0x09, 0x0A, 0x0D, 0x20}"

definition tok :: "char list \<Rightarrow> nat \<Rightarrow> (token_type \<times> nat \<times> nat) option" where
  "tok text q = scan_from (Suc (length text)) text q"

lemma scan_tok:
  "scan l = map_option (\<lambda>(t, start, cursor). (t, l\<lparr>m_start := start, m_cursor := cursor\<rparr>))
    (tok (m_content l @ [NUL]) (m_cursor l))"
  by (cases "scan_from (Suc (length (m_content l @ [NUL]))) (m_content l @ [NUL]) (m_cursor l)")
    (auto simp: scan_def tok_def Let_def simp del: scan_from.simps)

lemma tok_here:
  "drop q text = y # r \<Longrightarrow> scan_token q y r = Some (Inl (t, c)) \<Longrightarrow> tok text q = Some (t, q, c)"
  by (simp add: tok_def)

lemma skip_white:
  assumes "\<forall>c \<in> set ws. is_white c" and "\<not> is_white y"
  shows "basic_json_parser_6 cur (ws @ y # r) = Some (cur + length ws)"
  using assms by (induction ws arbitrary: cur) (auto simp: is_white_def)

text \<open>White space before a token is skipped.\<close>

lemma tok_white:
  assumes d: "drop q text = ws @ y # r" and w: "\<forall>c \<in> set ws. is_white c" and y: "\<not> is_white y"
    and t: "scan_token (q + length ws) y r = Some (Inl (t, c))"
  shows "tok text q = Some (t, q + length ws, c)"
proof (cases ws)
  case Nil
  then show ?thesis using d t by (simp add: tok_here)
next
  case (Cons v vs)
  have d2: "drop (q + length ws) text = y # r"
    using d by (metis add.commute append_eq_conv_conj drop_drop)
  have "scan_first (code v) = L6" using w Cons by (simp add: scan_first_def is_white_def)
  moreover have "basic_json_parser_6 (q + 1) (vs @ y # r) = Some (q + 1 + length vs)"
    using w Cons by (intro skip_white [OF _ y]) simp
  ultimately have "scan_token q v (vs @ y # r) = Some (Inr (q + length ws))"
    using Cons by (simp add: scan_token_def)
  moreover obtain n where "length text = Suc n"
    using d Cons by (cases "text") auto
  ultimately show ?thesis using d d2 t Cons by (simp add: tok_def)
qed

lemma scan_punctuation [simp]:
  "scan_token q NUL r = Some (Inl (end_of_input, q + 1))"
  "scan_token q (CHR '','') r = Some (Inl (value_separator, q + 1))"
  "scan_token q (CHR '':'') r = Some (Inl (name_separator, q + 1))"
  "scan_token q (CHR ''['') r = Some (Inl (begin_array, q + 1))"
  "scan_token q (CHR '']'') r = Some (Inl (end_array, q + 1))"
  "scan_token q (CHR ''{'') r = Some (Inl (begin_object, q + 1))"
  "scan_token q (CHR ''}'') r = Some (Inl (end_object, q + 1))"
  by (simp_all add: scan_token_def scan_first_def)

lemma scan_literals:
  "scan_token q (CHR ''t'') (''rue'' @ r) = Some (Inl (literal_true, q + 4))"
  "scan_token q (CHR ''f'') (''alse'' @ r) = Some (Inl (literal_false, q + 5))"
  "scan_token q (CHR ''n'') (''ull'' @ r) = Some (Inl (literal_null, q + 4))"
  by (simp_all add: scan_token_def scan_first_def basic_json_parser_23_def basic_json_parser_24_def
      basic_json_parser_25_def basic_json_parser_39_def basic_json_parser_40_def
      basic_json_parser_41_def basic_json_parser_49_def basic_json_parser_50_def
      basic_json_parser_51_def basic_json_parser_55_def)

lemma escape_char_first: "\<exists>y r. escape_char c = y # r \<and> (code c \<ge> 0x20 \<or> y = CHR 0x5C)"
  by (auto simp: escape_char_def)

lemma scan_string_token:
  "scan_token q (CHR 0x22) (escape_string s @ CHR 0x22 # r) =
   Some (Inl (value_string, q + length (escape_string s) + 2))"
proof -
  have "\<exists>y r'. escape_string s @ CHR 0x22 # r = y # r' \<and> \<not> code y \<le> 0x0F"
  proof (cases s)
    case Nil
    then show ?thesis by (simp add: escape_string_concat)
  next
    case (Cons c s')
    then show ?thesis
      by (auto simp: escape_string_concat escape_char_def)
  qed
  then have "basic_json_parser_9 (q + 1) (escape_string s @ CHR 0x22 # r) =
      basic_json_parser_31 L31 (q + 1) (q + 1) (escape_string s @ CHR 0x22 # r)"
    by (auto simp: basic_json_parser_9_def)
  then show ?thesis by (simp add: scan_token_def scan_first_def scan_escaped)
qed

section \<open>Integers\<close>

lemma show_nat_digits: "\<forall>c \<in> set (show_nat n). is_digit c"
proof (induction n rule: show_nat.induct)
  case (1 n)
  then show ?case by (subst show_nat.simps) (auto simp: is_digit_def)
qed

lemma show_nat_first: "show_nat n = y # r \<Longrightarrow> 0 < n \<Longrightarrow> 0x31 \<le> code y \<and> code y \<le> 0x39"
proof (induction n arbitrary: y r rule: show_nat.induct)
  case (1 n)
  show ?case
  proof (cases "n < 10")
    case True
    then show ?thesis using 1(2,3) by (subst (asm) show_nat.simps) auto
  next
    case False
    then obtain z zs where z: "show_nat (n div 10) = z # zs"
      by (cases "show_nat (n div 10)") (subst (asm) show_nat.simps, simp split: if_splits)+
    then have "y = z" using 1(2) False by (subst (asm) show_nat.simps) simp
    moreover have "0 < n div 10" using False by simp
    ultimately show ?thesis using 1(1) [OF False z] by simp
  qed
qed

lemma show_nat_nonempty: "show_nat n \<noteq> []"
  by (subst show_nat.simps) simp

lemma digit_value: "n < 10 \<Longrightarrow> of_char (char_of (48 + n) :: char) - 48 = int n"
proof -
  assume n: "n < 10"
  have "(of_char (char_of (48 + n) :: char) :: int) = int (code (char_of (48 + n)))"
    by (simp only: of_nat_of_char)
  also have "code (char_of (48 + n)) = 48 + n" using n by simp
  finally show ?thesis by simp
qed

lemma digits_value_append: "digits_value (ds @ [d]) = 10 * digits_value ds + (of_char d - 48)"
  by (simp add: digits_value_def)

lemma digits_value_show_nat: "digits_value (show_nat n) = int n"
proof (induction n rule: show_nat.induct)
  case (1 n)
  show ?case
  proof (cases "n < 10")
    case True
    then show ?thesis by (subst show_nat.simps) (simp add: digits_value_def digit_value)
  next
    case False
    then have "digits_value (show_nat n) = 10 * int (n div 10) + int (n mod 10)"
      using 1 by (subst show_nat.simps) (simp add: digits_value_append digit_value)
    then show ?thesis by (simp add: zdiv_int zmod_int)
  qed
qed

text \<open>A character that ends a number.\<close>

definition ends_number :: "char \<Rightarrow> bool" where
  "ends_number y \<longleftrightarrow> \<not> is_digit y \<and> code y \<notin> {0x2E, 0x45, 0x65}"

lemma scan_digits:
  assumes "\<forall>c \<in> set ds. is_digit c" and "ends_number y"
  shows "basic_json_parser_15 cur (ds @ y # r) = Some (value_number, cur + length ds)"
  using assms by (induction ds arbitrary: cur) (auto simp: ends_number_def)

lemma scan_zero:
  "ends_number y \<Longrightarrow> basic_json_parser_13 cur (y # r) = Some (value_number, cur)"
  by (auto simp: ends_number_def basic_json_parser_13_def)

lemma scan_number:
  assumes n: "show_nat n = d # ds" and y: "ends_number y"
  shows "scan_token q d (ds @ y # r) = Some (Inl (value_number, q + length (show_nat n)))"
    and "basic_json_parser_12 q (show_nat n @ y # r) = Some (value_number, q + length (show_nat n))"
proof -
  have dg: "\<forall>c \<in> set ds. is_digit c" using show_nat_digits [of n] n by simp
  have "scan_token q d (ds @ y # r) = Some (Inl (value_number, q + length (show_nat n))) \<and>
    basic_json_parser_12 q (show_nat n @ y # r) = Some (value_number, q + length (show_nat n))"
  proof (cases "n = 0")
    case True
    have "code (CHR ''0'') = 48" by simp
    then have "(char_of (48 :: nat) :: char) = CHR ''0''" by (metis char_of_char)
    with True have "d = CHR ''0''" "ds = []" using n by (simp_all add: show_nat.simps)
    then show ?thesis
      using scan_zero [OF y] n
      by (simp add: scan_token_def scan_first_def basic_json_parser_12_def)
  next
    case False
    then have c: "0x31 \<le> code d" "code d \<le> 0x39" using show_nat_first [OF n] by simp_all
    then have "scan_first (code d) = L15" by (simp add: scan_first_def)
    then show ?thesis
      using scan_digits [OF dg y] n c
      by (simp add: scan_token_def basic_json_parser_12_def)
  qed
  then show "scan_token q d (ds @ y # r) = Some (Inl (value_number, q + length (show_nat n)))"
    "basic_json_parser_12 q (show_nat n @ y # r) = Some (value_number, q + length (show_nat n))"
    by simp_all
qed

end
