(* ===== verification/Json_Correct.thy ===== *)
theory Json_Correct
  imports Json_Parser Json_Lexer_Correct
begin

text \<open>
  The parser reads back what \<open>dump\<close> writes: every value without floating-point numbers (and
  without discarded values, which have no JSON text) comes back equal in the sense of
  \<open>operator==\<close>.
\<close>

section \<open>Values with a JSON text of their own\<close>

fun textual :: "'f json \<Rightarrow> bool" where
  "textual (JObject kvs) \<longleftrightarrow> map_ok kvs \<and> list_all (\<lambda>e. textual (snd e)) kvs"
| "textual (JArray xs) \<longleftrightarrow> list_all textual xs"
| "textual (JFloat x) \<longleftrightarrow> False"
| "textual JDiscarded \<longleftrightarrow> False"
| "textual _ \<longleftrightarrow> True"

text \<open>What comes back: an integer that is not negative has become unsigned.\<close>

fun reread :: "'f json \<Rightarrow> 'f json" where
  "reread (JObject kvs) = JObject (map (\<lambda>e. (fst e, reread (snd e))) kvs)"
| "reread (JArray xs) = JArray (map reread xs)"
| "reread (JInteger n) = (if 0 \<le> sint n then JUnsigned n else JInteger n)"
| "reread j = j"

lemma json_eq_reread: "textual j \<Longrightarrow> json_eq F j (reread j)"
proof (induction j)
  case (JObject kvs)
  then have "\<forall>e \<in> set kvs. json_eq F (snd e) (reread (snd e))"
    by (auto simp: list_all_iff)
  then show ?case by (auto simp: list_all2_conv_all_nth)
next
  case (JArray xs)
  then have "\<forall>x \<in> set xs. json_eq F x (reread x)" by (auto simp: list_all_iff)
  then show ?case by (auto simp: list_all2_conv_all_nth)
qed auto

abbreviation compact :: "'f float_ops \<Rightarrow> 'f json \<Rightarrow> char list" where
  "compact F \<equiv> dump_to F False 0 0"

definition member_text :: "'f float_ops \<Rightarrow> char list \<times> 'f json \<Rightarrow> char list" where
  "member_text F e = [CHR 0x22] @ escape_string (fst e) @ [CHR 0x22, CHR '':''] @ compact F (snd e)"

lemma compact_object:
  "compact F (JObject kvs) = ''{'' @ separated '','' (map (member_text F) kvs) @ ''}''"
  by (simp add: spaces_def member_text_def [abs_def])

lemma compact_array:
  "compact F (JArray xs) = ''['' @ separated '','' (map (compact F) xs) @ '']''"
  by (simp add: spaces_def)

lemma separated_Cons: "separated sep (x # xs) = x @ (if xs = [] then [] else sep @ separated sep xs)"
  by (cases xs) auto

section \<open>The parser at a place of the text\<close>

definition parser_at :: "char list \<Rightarrow> nat \<Rightarrow> 'f json_parser \<Rightarrow> bool" where
  "parser_at inp q p \<longleftrightarrow> m_content (m_lexer p) @ [NUL] = inp \<and> callback p = None \<and>
     tok inp q = Some (last_token p, m_start (m_lexer p), m_cursor (m_lexer p))"

lemma next_token_at:
  assumes "parser_at inp q p" and "tok inp (m_cursor (m_lexer p)) = Some (t, s, c)"
  shows "\<exists>p'. next_token p = Some (Inr p') \<and> parser_at inp (m_cursor (m_lexer p)) p' \<and>
    last_token p' = t \<and> m_start (m_lexer p') = s \<and> m_cursor (m_lexer p') = c"
  using assms by (auto simp: next_token_def scan_tok parser_at_def)

definition delimiter :: "char \<Rightarrow> token_type option" where
  "delimiter y =
     (if y = CHR '','' then Some value_separator
      else if y = CHR '']'' then Some end_array
      else if y = CHR ''}'' then Some end_object
      else if y = NUL then Some end_of_input else None)"

lemma delimiter_tok:
  assumes "delimiter y = Some t" and "inp = pre @ y # post"
  shows "tok inp (length pre) = Some (t, length pre, length pre + 1)"
  using assms by (intro tok_here) (auto simp: delimiter_def split: if_splits)

lemma delimiter_ends: "delimiter y \<noteq> None \<Longrightarrow> ends_number y"
  by (auto simp: delimiter_def ends_number_def is_digit_def split: if_splits)

lemma tok_at: "inp = pre @ y # r \<Longrightarrow> scan_token (length pre) y r = Some (Inl (t, c)) \<Longrightarrow>
    tok inp (length pre) = Some (t, length pre, c)"
  by (rule tok_here) simp_all

lemma tok_string:
  assumes "inp = pre @ CHR 0x22 # escape_string s @ CHR 0x22 # r"
  shows "tok inp (length pre) =
    Some (value_string, length pre, length pre + length (escape_string s) + 2)"
  using assms by (rule tok_at) (rule scan_string_token)

lemma get_string_at:
  assumes "parser_at inp (length pre) p" and "inp = pre @ CHR 0x22 # escape_string s @ CHR 0x22 # r"
  shows "get_string (m_lexer p) = Some (Inr s)"
proof -
  have l: "get_string_loop inp limit (length (pre @ [CHR 0x22]) + length (escape_string s))
      (length (pre @ [CHR 0x22])) [] = Some (Inr ([] @ s))" for limit
    by (rule get_string_escaped [where post = "CHR 0x22 # r"]) (simp add: assms(2))
  have "m_content (m_lexer p) @ [NUL] = inp" "m_start (m_lexer p) = length pre"
      "m_cursor (m_lexer p) = length pre + length (escape_string s) + 2"
    using assms(1) tok_string [OF assms(2)] by (auto simp: parser_at_def)
  then show ?thesis using l [of "m_limit (m_lexer p)"] by (simp add: get_string_def)
qed

lemma tok_number:
  assumes y: "ends_number y" and inp: "inp = pre @ show_int n @ y # r"
  shows "tok inp (length pre) = Some (value_number, length pre, length pre + length (show_int n))"
proof -
  obtain d ds where ds: "show_nat (nat \<bar>n\<bar>) = d # ds" using show_nat_nonempty by (meson neq_Nil_conv)
  show ?thesis
  proof (cases "n < 0")
    case True
    then have "scan_token (length pre) (CHR ''-'') (show_nat (nat \<bar>n\<bar>) @ y # r) =
        Some (Inl (value_number, length pre + 1 + length (show_nat (nat \<bar>n\<bar>))))"
      using scan_number(2) [OF ds y, of "Suc (length pre)" r] by (simp add: scan_token_def scan_first_def)
    then show ?thesis using True inp by (intro tok_at) (simp_all add: show_int_def)
  next
    case False
    then have "show_int n = d # ds" using ds by (simp add: show_int_def)
    then show ?thesis using scan_number(1) [OF ds y, of "length pre" r] inp ds by (intro tok_at) simp_all
  qed
qed

lemma take_digits:
  assumes "ends_number y"
  shows "takeWhile is_digit (show_nat n @ y # r) = show_nat n"
  using assms show_nat_digits [of n] by (simp add: ends_number_def takeWhile_append)

lemma show_nat_not_minus: "show_nat n = d # ds \<Longrightarrow> d \<noteq> CHR ''-''"
  using show_nat_digits [of n] by (auto simp: is_digit_def)

lemma get_number_at:
  fixes p :: "'f json_parser" and F :: "'f float_ops"
  assumes p: "parser_at inp (length pre) p" and y: "ends_number y"
    and inp: "inp = pre @ show_int n @ y # r" and n: "- (2 ^ 63) \<le> n" "n < 2 ^ 64"
  shows "get_number F (m_lexer p) =
    Inr (if n < 0 then JInteger (word_of_int n) else JUnsigned (word_of_int n))"
proof -
  have l: "m_content (m_lexer p) @ [NUL] = inp" "m_start (m_lexer p) = length pre"
      "m_cursor (m_lexer p) = length pre + length (show_int n)"
    using p tok_number [OF y inp] by (auto simp: parser_at_def)
  obtain d ds where ds: "show_nat (nat \<bar>n\<bar>) = d # ds" using show_nat_nonempty by (meson neq_Nil_conv)
  have dv: "digits_value (show_nat (nat \<bar>n\<bar>)) = \<bar>n\<bar>" by (simp add: digits_value_show_nat)
  show ?thesis
  proof (cases "n < 0")
    case True
    then have t: "drop (length pre) inp = CHR ''-'' # show_nat (nat \<bar>n\<bar>) @ y # r"
      using inp by (simp add: show_int_def)
    have "strtoll (CHR ''-'' # show_nat (nat \<bar>n\<bar>) @ y # r) = (n, length (show_int n), False)"
      using True n(1) dv show_nat_nonempty
      by (simp add: strtoll_def take_digits [OF y] show_int_def Let_def)
    moreover have "attempt_cast True n = (word_of_int n, True)"
      using True n(1) by (simp add: attempt_cast_def Let_def signed_of_int signed_take_bit_int_eq_self)
    ultimately show ?thesis using True by (simp add: get_number_def l t is_number_float_def)
  next
    case False
    then have t: "drop (length pre) inp = show_nat (nat \<bar>n\<bar>) @ y # r"
      using inp by (simp add: show_int_def)
    have "strtoull (show_nat (nat \<bar>n\<bar>) @ y # r) = (n, length (show_int n), False)"
      using False n(2) dv
      by (simp add: strtoull_def take_digits [OF y] show_int_def Let_def)
    moreover have "attempt_cast False n = (word_of_int n, True)"
      using False n(2) by (simp add: attempt_cast_def Let_def unsigned_of_int take_bit_int_eq_self)
    moreover have "hd (show_nat (nat \<bar>n\<bar>) @ y # r) \<noteq> CHR ''-''"
      using ds show_nat_not_minus [OF ds] by simp
    ultimately show ?thesis using False by (simp add: get_number_def l t is_number_float_def)
  qed
qed

text \<open>The first token of a value, and that it is none of the separators.\<close>

lemma dump_unsigned: "compact F (JUnsigned n) = show_int (uint n)"
  by (simp add: show_int_def unsigned_eq_0_iff)

lemma compact_first:
  assumes "textual j" and "inp = pre @ compact F j @ y # post" and "delimiter y \<noteq> None"
  shows "\<exists>t c. tok inp (length pre) = Some (t, length pre, c) \<and>
    t \<notin> {value_separator, end_array, end_object}"
proof (cases j)
  case (JObject kvs)
  then show ?thesis using assms tok_at [OF _ scan_punctuation(6)]
    by (auto simp: compact_object simp del: dump_to.simps)
next
  case (JArray xs)
  then show ?thesis using assms tok_at [OF _ scan_punctuation(4)]
    by (auto simp: compact_array simp del: dump_to.simps)
next
  case (JString s)
  then show ?thesis using assms tok_string [of inp pre s "y # post"] by auto
next
  case (JBoolean b)
  then show ?thesis using assms tok_at [OF _ scan_literals(1)] tok_at [OF _ scan_literals(2)]
    by (cases b) auto
next
  case (JInteger n)
  then show ?thesis using tok_number [OF delimiter_ends [OF assms(3)]] assms(2) by auto
next
  case (JUnsigned n)
  then show ?thesis
    using tok_number [OF delimiter_ends [OF assms(3)], of inp pre "uint n"] assms(2) dump_unsigned [of F n]
    by auto
next
  case JNull
  then show ?thesis using assms tok_at [OF _ scan_literals(3)] by auto
qed (use assms in auto)

section \<open>Parsing a value\<close>

lemma parser_at_tok:
  assumes "parser_at inp q p" and "tok inp q = Some (t, s, c)"
  shows "last_token p = t" and "m_start (m_lexer p) = s" and "m_cursor (m_lexer p) = c"
  using assms by (auto simp: parser_at_def)

lemma next_token_to:
  assumes "parser_at inp q p" and "m_cursor (m_lexer p) = q'" and "tok inp q' \<noteq> None"
  shows "\<exists>p'. next_token p = Some (Inr p') \<and> parser_at inp q' p'"
  using assms by (auto simp: next_token_def scan_tok parser_at_def)

lemma callback_at: "parser_at inp q p \<Longrightarrow> callback p = None"
  by (simp add: parser_at_def)

definition reads :: "'f float_ops \<Rightarrow> 'f json \<Rightarrow> bool" where
  "reads F j \<longleftrightarrow> (\<forall>inp pre y post p fuel.
     inp = pre @ compact F j @ y # post \<longrightarrow> delimiter y \<noteq> None \<longrightarrow> parser_at inp (length pre) p \<longrightarrow>
     length (compact F j) < fuel \<longrightarrow>
     (\<exists>p'. parse_internal F fuel True p = Some (Inr (reread j, p')) \<and>
       parser_at inp (length pre + length (compact F j)) p'))"

lemma readsD:
  assumes "reads F j" and "inp = pre @ compact F j @ y # post" and "delimiter y \<noteq> None"
    and "parser_at inp (length pre) p" and "length (compact F j) < fuel"
  obtains p' where "parse_internal F fuel True p = Some (Inr (reread j, p'))"
    and "parser_at inp (length pre + length (compact F j)) p'"
  using assms unfolding reads_def by blast

lemma readsI:
  fixes F :: "'f float_ops"
  assumes "\<And>inp pre y post (p :: 'f json_parser) fuel. inp = pre @ compact F j @ y # post \<Longrightarrow> delimiter y \<noteq> None \<Longrightarrow>
     parser_at inp (length pre) p \<Longrightarrow> length (compact F j) \<le> fuel \<Longrightarrow>
     \<exists>p'. parse_internal F (Suc fuel) True p = Some (Inr (reread j, p')) \<and>
       parser_at inp (length pre + length (compact F j)) p'"
  shows "reads F j"
  unfolding reads_def
proof (intro allI impI)
  fix inp pre y post and p :: "'f json_parser" and fuel
  assume a: "inp = pre @ compact F j @ y # post" "delimiter y \<noteq> None" "parser_at inp (length pre) p"
    "length (compact F j) < fuel"
  then obtain fuel' where "fuel = Suc fuel'" by (cases fuel) auto
  with assms [OF a(1-3), of fuel'] a(4) show
    "\<exists>p'. parse_internal F fuel True p = Some (Inr (reread j, p')) \<and>
       parser_at inp (length pre + length (compact F j)) p'" by simp
qed

text \<open>A primitive value is one token.\<close>

lemma reads_primitive:
  fixes F :: "'f float_ops"
  assumes tok: "\<And>inp pre y post. inp = pre @ compact F j @ y # post \<Longrightarrow> delimiter y \<noteq> None \<Longrightarrow>
      tok inp (length pre) = Some (t, length pre, length pre + length (compact F j))"
    and t: "t \<in> {literal_null, literal_true, literal_false, value_string, value_number}"
    and val: "\<And>inp pre y post (p :: 'f json_parser). inp = pre @ compact F j @ y # post \<Longrightarrow> delimiter y \<noteq> None \<Longrightarrow>
      parser_at inp (length pre) p \<Longrightarrow>
      parse_value F p = and_then (next_token p) (\<lambda>p. Some (Inr (reread j, p)))"
  shows "reads F j"
proof (rule readsI)
  fix inp pre y post and p :: "'f json_parser" and fuel
  assume a: "inp = pre @ compact F j @ y # post" "delimiter y \<noteq> None" "parser_at inp (length pre) p"
  note p = parser_at_tok [OF a(3) tok [OF a(1,2)]]
  obtain d where d: "delimiter y = Some d" using a(2) by auto
  have "tok inp (length pre + length (compact F j)) \<noteq> None"
    using delimiter_tok [OF d, of inp "pre @ compact F j" post] a(1) by simp
  then obtain p' where p': "next_token p = Some (Inr p')"
      "parser_at inp (length pre + length (compact F j)) p'"
    using next_token_to [OF a(3) p(3)] by metis
  have "parse_internal F (Suc fuel) True p = Some (Inr (reread j, p'))"
    using t p(1) val [OF a] p'(1) callback_at [OF p'(2)] by auto
  with p'(2) show "\<exists>p'. parse_internal F (Suc fuel) True p = Some (Inr (reread j, p')) \<and>
      parser_at inp (length pre + length (compact F j)) p'" by blast
qed

lemma uint_bounds: "0 \<le> uint (n :: u64)" "uint n < 2 ^ 64"
  using uint_lt2p [of n] by simp_all

lemma sint_bounds: "- (2 ^ 63) \<le> sint (n :: u64)" "sint n < 2 ^ 64"
  using sint_ge [of n] sint_lt [of n] by simp_all

lemma reads_null: "reads F JNull"
proof (rule reads_primitive [where t = literal_null])
  fix inp :: string and pre y post
  assume "inp = pre @ compact F JNull @ y # post"
  then show t: "tok inp (length pre) = Some (literal_null, length pre, length pre + length (compact F JNull))"
    using tok_at [OF _ scan_literals(3)] by auto
  fix p :: "'a json_parser" assume "parser_at inp (length pre) p"
  from parser_at_tok [OF this t]
  show "parse_value F p = and_then (next_token p) (\<lambda>p. Some (Inr (reread JNull, p)))"
    by (simp add: parse_value_def)
qed simp

lemma reads_boolean: "reads F (JBoolean b)"
proof (rule reads_primitive [where t = "if b then literal_true else literal_false"])
  fix inp :: string and pre y post
  assume "inp = pre @ compact F (JBoolean b) @ y # post"
  then show t: "tok inp (length pre) = Some (if b then literal_true else literal_false, length pre,
      length pre + length (compact F (JBoolean b)))"
    using tok_at [OF _ scan_literals(1)] tok_at [OF _ scan_literals(2)] by (cases b) auto
  fix p :: "'a json_parser" assume "parser_at inp (length pre) p"
  from parser_at_tok [OF this t]
  show "parse_value F p = and_then (next_token p) (\<lambda>p. Some (Inr (reread (JBoolean b), p)))"
    by (cases b) (simp_all add: parse_value_def)
qed simp

lemma reads_string: "reads F (JString s)"
proof (rule reads_primitive [where t = value_string])
  fix inp :: string and pre y post
  assume "inp = pre @ compact F (JString s) @ y # post"
  then have i: "inp = pre @ CHR 0x22 # escape_string s @ CHR 0x22 # y # post" by simp
  show t: "tok inp (length pre) = Some (value_string, length pre, length pre + length (compact F (JString s)))"
    using tok_string [OF i] by simp
  fix p :: "'a json_parser" assume p: "parser_at inp (length pre) p"
  from parser_at_tok [OF this t] get_string_at [OF p i]
  show "parse_value F p = and_then (next_token p) (\<lambda>p. Some (Inr (reread (JString s), p)))"
    by (simp add: parse_value_def)
qed simp

lemma reads_number:
  assumes c: "compact F j = show_int n" and n: "- (2 ^ 63) \<le> n" "n < 2 ^ 64"
    and r: "reread j = (if n < 0 then JInteger (word_of_int n) else JUnsigned (word_of_int n))"
  shows "reads F j"
proof (rule reads_primitive [where t = value_number])
  fix inp :: string and pre y post
  assume i: "inp = pre @ compact F j @ y # post" and "delimiter y \<noteq> None"
  then have y: "ends_number y" by (simp add: delimiter_ends)
  note i = i [unfolded c]
  show t: "tok inp (length pre) = Some (value_number, length pre, length pre + length (compact F j))"
    using tok_number [OF y i] c by simp
  fix p :: "'a json_parser" assume p: "parser_at inp (length pre) p"
  from parser_at_tok [OF this t] get_number_at [OF p y i n, of F]
  show "parse_value F p = and_then (next_token p) (\<lambda>p. Some (Inr (reread j, p)))"
    by (simp add: parse_value_def r)
qed simp

section \<open>Arrays and objects\<close>

lemma compact_nonempty: "textual j \<Longrightarrow> compact F j \<noteq> []"
  by (cases j) (auto simp: show_int_def show_nat_nonempty)

text \<open>The text behind an item: the separators with the items that follow, and what closes them.\<close>

fun tail_text :: "('a \<Rightarrow> char list) \<Rightarrow> 'a list \<Rightarrow> char list \<Rightarrow> char list" where
  "tail_text g [] close = close"
| "tail_text g (x # xs) close = CHR '','' # g x @ tail_text g xs close"

lemma separated_tail: "separated '','' (map g (x # xs)) @ close = g x @ tail_text g xs close"
  by (induction xs arbitrary: x) auto

lemma tail_first:
  assumes "delimiter c = Some t"
  obtains y r where "tail_text g xs (c # post) = y # r"
    and "delimiter y = Some (if xs = [] then t else value_separator)"
    and "xs \<noteq> [] \<Longrightarrow> y = CHR '',''"
  using assms by (cases xs) (auto simp: delimiter_def)

lemma length_separated:
  "length (separated '','' (map g xs)) + 1 = (\<Sum>x \<leftarrow> xs. Suc (length (g x))) + (if xs = [] then 1 else 0)"
proof (cases xs)
  case (Cons z zs)
  have "length (tail_text g zs []) = (\<Sum>x \<leftarrow> zs. Suc (length (g x)))" by (induction zs) auto
  then show ?thesis using separated_tail [of g z zs "[]"] Cons by simp
qed simp

lemma item_length:
  assumes "x \<in> set xs"
  shows "length (g x) < length (separated '','' (map g xs)) + 1"
proof -
  have "Suc (length (g x)) \<le> (\<Sum>x \<leftarrow> xs. Suc (length (g x)))"
    using assms by (intro member_le_sum_list) auto
  then show ?thesis using length_separated [of g xs] assms by (auto split: if_splits)
qed

lemma items_count: "length xs \<le> length (separated '','' (map g xs)) + 1"
proof -
  have "length xs \<le> (\<Sum>x \<leftarrow> xs. Suc (length (g x)))" by (induction xs) auto
  then show ?thesis using length_separated [of g xs] by linarith
qed

lemma next_separator:
  assumes p: "parser_at inp (length pre) p" and inp: "inp = pre @ CHR '','' # rest"
    and t: "tok inp (Suc (length pre)) = Some (t, s, c)"
  shows "last_token p = value_separator \<and> (\<exists>p'. next_token p = Some (Inr p') \<and>
    parser_at inp (Suc (length pre)) p' \<and> last_token p' = t)"
proof -
  note tk = parser_at_tok [OF p delimiter_tok [OF _ inp, of value_separator]]
  have l: "last_token p = value_separator" "m_cursor (m_lexer p) = Suc (length pre)"
    using tk(1,3) by (simp_all add: delimiter_def)
  obtain p' where "next_token p = Some (Inr p')" "parser_at inp (Suc (length pre)) p'"
    using next_token_to [OF p l(2)] t by auto
  with l(1) parser_at_tok(1) [OF _ t] show ?thesis by blast
qed

lemma not_discarded: "textual j \<Longrightarrow> \<not> is_discarded (reread j)"
  by (cases j) (auto simp: is_discarded_def)

lemma parse_members_separator:
  "last_token p = value_separator \<Longrightarrow> next_token p = Some (Inr p') \<Longrightarrow>
   last_token p' \<noteq> value_separator \<Longrightarrow>
   parse_members rec (Suc n) keep result p = parse_members rec (Suc n) keep result p'"
  by simp

lemma parse_elements_reads:
  fixes F :: "'f float_ops"
  assumes "\<forall>x \<in> set (x # xs). textual x \<and> reads F x \<and> length (compact F x) < fuel"
    and "inp = pre @ compact F x @ tail_text (compact F) xs (CHR '']'' # post)"
    and "parser_at inp (length pre) p" and "length xs < n"
  shows "\<exists>p'. parse_elements (parse_internal F fuel) n True (JArray acc) p =
      Some (Inr (JArray (acc @ map reread (x # xs)), p')) \<and>
      parser_at inp (length inp - length (CHR '']'' # post)) p'"
  using assms
proof (induction xs arbitrary: x pre p acc n)
  case Nil
  then have d: "delimiter (CHR '']'') \<noteq> None" "textual x" "reads F x" "length (compact F x) < fuel"
    "inp = pre @ compact F x @ CHR '']'' # post" by (auto simp: delimiter_def)
  obtain n' where n': "n = Suc n'" using Nil by (cases n) auto
  obtain p' where p': "parse_internal F fuel True p = Some (Inr (reread x, p'))"
      "parser_at inp (length pre + length (compact F x)) p'"
    using readsD [OF d(3,5,1) Nil.prems(3) d(4)] .
  have "last_token p \<noteq> value_separator"
    using compact_first [OF d(2,5,1)] parser_at_tok(1) [OF Nil.prems(3)] by fastforce
  moreover have "tok inp (length pre + length (compact F x)) =
      Some (end_array, length pre + length (compact F x), length pre + length (compact F x) + 1)"
    using delimiter_tok [of "CHR '']''" end_array inp "pre @ compact F x" post] d(5)
    by (simp add: delimiter_def)
  note parser_at_tok(1) [OF p'(2) this]
  moreover have "length inp - length (CHR '']'' # post) = length pre + length (compact F x)"
    using d(5) by simp
  ultimately show ?case using p' n' not_discarded [OF d(2)]
    by (simp add: push_back_def is_null_def is_array_def)
next
  case (Cons z xs)
  let ?g = "compact F" and ?close = "CHR '']'' # post"
  obtain n' where n': "n = Suc n'" using Cons.prems by (cases n) auto
  have x: "textual x" "reads F x" "length (?g x) < fuel" "textual z" using Cons.prems(1) by auto
  have inp: "inp = pre @ ?g x @ CHR '','' # ?g z @ tail_text ?g xs ?close" using Cons.prems(2) by simp
  then have inp': "inp = (pre @ ?g x) @ CHR '','' # ?g z @ tail_text ?g xs ?close" by simp
  have inp2: "inp = (pre @ ?g x @ '','') @ ?g z @ tail_text ?g xs ?close" using inp by simp
  have comma: "delimiter (CHR '','') \<noteq> None" by (simp add: delimiter_def)
  obtain p' where p': "parse_internal F fuel True p = Some (Inr (reread x, p'))"
      "parser_at inp (length pre + length (?g x)) p'"
    using readsD [OF x(2) inp comma Cons.prems(3) x(3)] .
  have l: "last_token p \<noteq> value_separator"
    using compact_first [OF x(1) inp comma] parser_at_tok(1) [OF Cons.prems(3)] by fastforce
  obtain y r where y: "tail_text ?g xs ?close = y # r" "delimiter y \<noteq> None"
    by (rule tail_first [of "CHR '']''" end_array ?g xs post]) (auto simp: delimiter_def)
  obtain t c where t: "tok inp (length (pre @ ?g x @ '','')) = Some (t, length (pre @ ?g x @ '',''), c)"
      "t \<noteq> value_separator"
    using compact_first [OF x(4) inp2 [unfolded y(1)] y(2)] by auto
  obtain p3 where p3: "last_token p' = value_separator" "next_token p' = Some (Inr p3)"
      "parser_at inp (length (pre @ ?g x @ '','')) p3" "last_token p3 = t"
    using next_separator [of inp "pre @ ?g x" p', OF _ inp'] p'(2) t(1) by auto
  obtain n2 where n2: "n' = Suc n2" using Cons.prems(4) n' by (cases n') auto
  have "parse_elements (parse_internal F fuel) n True (JArray acc) p =
      parse_elements (parse_internal F fuel) n' True (JArray (acc @ [reread x])) p'"
    using l p'(1) p3(1) n' not_discarded [OF x(1)] by (simp add: push_back_def is_null_def is_array_def)
  also have "\<dots> = parse_elements (parse_internal F fuel) n' True (JArray (acc @ [reread x])) p3"
    using p3 t(2) n2 by simp
  finally show ?case
    using Cons.IH [OF _ inp2 p3(3), of n' "acc @ [reread x]"] Cons.prems(1,4) n' by simp
qed

text \<open>Members come in the order of their keys, so each is added behind the others.\<close>

lemma map_insert_last: "\<forall>e \<in> set kvs. fst e < k \<Longrightarrow> map_insert k v kvs = kvs @ [(k, v)]"
  by (induction k v kvs rule: map_insert.induct) auto

lemma map_assign_last: "\<forall>e \<in> set kvs. fst e < k \<Longrightarrow> map_assign k v (kvs @ [(k, u)]) = kvs @ [(k, v)]"
  by (induction kvs) auto

lemma set_key_last:
  "\<forall>e \<in> set kvs. fst e < k \<Longrightarrow> set_key (JObject kvs) k v = Inr (JObject (kvs @ [(k, v)]))"
  by (simp add: set_key_def subscript_key_def is_null_def map_insert_last map_assign_last Let_def)

lemma parse_member_reads:
  fixes F :: "'f float_ops"
  assumes inp: "inp = pre @ member_text F (k, v) @ y # r" and y: "delimiter y \<noteq> None"
    and v: "textual v" "reads F v" "length (compact F v) < fuel"
    and p: "parser_at inp (length pre) p" and acc: "\<forall>e \<in> set acc. fst e < k"
  shows "last_token p = value_string \<and>
    (\<exists>p'. parser_at inp (length pre + length (member_text F (k, v))) p' \<and>
      parse_members (parse_internal F fuel) (Suc n) True (JObject acc) p =
        (if last_token p' = value_separator
         then parse_members (parse_internal F fuel) n True (JObject (acc @ [(k, reread v)])) p'
         else Some (Inr (JObject (acc @ [(k, reread v)]), p'))))"
proof -
  let ?q = "length pre + length (escape_string k) + 2"
  have i1: "inp = pre @ CHR 0x22 # escape_string k @ CHR 0x22 # CHR '':'' # compact F v @ y # r"
    using inp by (simp add: member_text_def)
  have i2: "inp = (pre @ [CHR 0x22] @ escape_string k @ [CHR 0x22]) @ CHR '':'' # compact F v @ y # r"
    using i1 by simp
  have i3: "inp = (pre @ [CHR 0x22] @ escape_string k @ [CHR 0x22, CHR '':'']) @ compact F v @ y # r"
    using i1 by simp
  have t2: "tok inp ?q = Some (name_separator, ?q, Suc ?q)" using tok_at [OF i2 scan_punctuation(3)] by simp
  obtain t c where t3: "tok inp (Suc ?q) = Some (t, Suc ?q, c)" using compact_first [OF v(1) i3 y] by auto
  note p1 = parser_at_tok [OF p tok_string [OF i1]] get_string_at [OF p i1]
  obtain p2 where p2: "next_token p = Some (Inr p2)" "parser_at inp ?q p2"
    using next_token_to [OF p p1(3)] t2 by auto
  obtain p3 where p3: "next_token p2 = Some (Inr p3)" "parser_at inp (Suc ?q) p3"
    using next_token_to [OF p2(2) parser_at_tok(3) [OF p2(2) t2]] t3 by auto
  obtain p' where p': "parse_internal F fuel True p3 = Some (Inr (reread v, p'))"
      "parser_at inp (length pre + length (member_text F (k, v))) p'"
    using readsD [OF v(2) i3 y _ v(3), of p3] p3(2) by (auto simp: member_text_def add_ac)
  have "parse_members (parse_internal F fuel) (Suc n) True (JObject acc) p =
        (if last_token p' = value_separator
         then parse_members (parse_internal F fuel) n True (JObject (acc @ [(k, reread v)])) p'
         else Some (Inr (JObject (acc @ [(k, reread v)]), p')))"
    using p1 p2(1) parser_at_tok(1) [OF p2(2) t2] p3(1) p'(1) callback_at [OF p] not_discarded [OF v(1)]
    by (simp add: expect_def set_key_last [OF acc])
  with p1(1) p'(2) show ?thesis by blast
qed

lemma parse_members_reads:
  fixes F :: "'f float_ops"
  assumes "\<forall>e \<in> set (x # xs). textual (snd e) \<and> reads F (snd e) \<and> length (compact F (snd e)) < fuel"
    and "inp = pre @ member_text F x @ tail_text (member_text F) xs (CHR ''}'' # post)"
    and "parser_at inp (length pre) p" and "length xs < n" and "map_ok (acc @ x # xs)"
  shows "\<exists>p'. parse_members (parse_internal F fuel) n True (JObject acc) p =
      Some (Inr (JObject (acc @ map (\<lambda>e. (fst e, reread (snd e))) (x # xs)), p')) \<and>
      parser_at inp (length inp - length (CHR ''}'' # post)) p'"
  using assms
proof (induction xs arbitrary: x pre p acc n)
  case Nil
  obtain k v where x: "x = (k, v)" by (cases x)
  have d: "inp = pre @ member_text F (k, v) @ CHR ''}'' # post" "delimiter (CHR ''}'') \<noteq> None"
    "textual v" "reads F v" "length (compact F v) < fuel" "\<forall>e \<in> set acc. fst e < k"
    using Nil x by (auto simp: delimiter_def map_ok_def sorted_wrt_append)
  obtain n' where n': "n = Suc n'" using Nil by (cases n) auto
  let ?q = "length pre + length (member_text F (k, v))"
  obtain p' where p': "parser_at inp ?q p'"
      "parse_members (parse_internal F fuel) (Suc n') True (JObject acc) p =
        (if last_token p' = value_separator
         then parse_members (parse_internal F fuel) n' True (JObject (acc @ [(k, reread v)])) p'
         else Some (Inr (JObject (acc @ [(k, reread v)]), p')))"
    using parse_member_reads [OF d(1-5) Nil.prems(3) d(6)] by blast
  have "tok inp ?q = Some (end_object, ?q, Suc ?q)"
    using delimiter_tok [of "CHR ''}''" end_object inp "pre @ member_text F (k, v)" post] d(1)
    by (simp add: delimiter_def)
  moreover have "length inp - length (CHR ''}'' # post) = ?q" using d(1) by simp
  ultimately show ?case using p' n' x parser_at_tok(1) [OF p'(1)] by auto
next
  case (Cons z xs)
  let ?g = "member_text F" and ?close = "CHR ''}'' # post"
  obtain k v kz vz where x: "x = (k, v)" "z = (kz, vz)" by (cases x, cases z)
  obtain n' where n': "n = Suc n'" using Cons.prems by (cases n) auto
  have d: "inp = pre @ ?g (k, v) @ CHR '','' # ?g z @ tail_text ?g xs ?close"
    "delimiter (CHR '','') \<noteq> None" "textual v" "reads F v" "length (compact F v) < fuel"
    "\<forall>e \<in> set acc. fst e < k"
    using Cons.prems x by (auto simp: delimiter_def map_ok_def sorted_wrt_append)
  have inp': "inp = (pre @ ?g x) @ CHR '','' # ?g z @ tail_text ?g xs ?close" using d(1) x by simp
  have inp2: "inp = (pre @ ?g x @ '','') @ ?g z @ tail_text ?g xs ?close" using d(1) x by simp
  obtain p' where p': "parser_at inp (length pre + length (?g x)) p'"
      "parse_members (parse_internal F fuel) (Suc n') True (JObject acc) p =
        (if last_token p' = value_separator
         then parse_members (parse_internal F fuel) n' True (JObject (acc @ [(k, reread v)])) p'
         else Some (Inr (JObject (acc @ [(k, reread v)]), p')))"
    using parse_member_reads [OF d(1-5) Cons.prems(3) d(6)] x by blast
  obtain r where "inp = (pre @ ?g x @ '','') @ CHR 0x22 # escape_string kz @ CHR 0x22 # r"
    using inp2 x(2) by (auto simp: member_text_def)
  note t = tok_string [OF this]
  obtain p3 where p3: "last_token p' = value_separator" "next_token p' = Some (Inr p3)"
      "parser_at inp (length (pre @ ?g x @ '','')) p3" "last_token p3 = value_string"
    using next_separator [of inp "pre @ ?g x" p', OF _ inp'] p'(1) t by auto
  obtain n2 where n2: "n' = Suc n2" using Cons.prems(4) n' by (cases n') auto
  have "parse_members (parse_internal F fuel) n True (JObject acc) p =
      parse_members (parse_internal F fuel) n' True (JObject (acc @ [(k, reread v)])) p'"
    using p' p3(1) n' by simp
  also have "\<dots> = parse_members (parse_internal F fuel) n' True (JObject (acc @ [(k, reread v)])) p3"
    unfolding n2 by (rule parse_members_separator [OF p3(1,2)]) (simp add: p3(4))
  finally show ?case
    using Cons.IH [OF _ inp2 p3(3), of n' "acc @ [(k, reread v)]"] Cons.prems(1,4,5) n' x
    by (simp add: map_ok_def sorted_wrt_append)
qed

lemma reads_array:
  assumes xs: "\<forall>x \<in> set xs. textual x \<and> reads F x"
  shows "reads F (JArray xs)"
proof (rule readsI)
  fix inp pre y post and p :: "'a json_parser" and fuel
  assume i: "inp = pre @ compact F (JArray xs) @ y # post" and y: "delimiter y \<noteq> None"
    and p: "parser_at inp (length pre) p" and fuel: "length (compact F (JArray xs)) \<le> fuel"
  let ?q = "length pre + length (compact F (JArray xs))" and ?body = "separated '','' (map (compact F) xs)"
  have inp: "inp = pre @ CHR ''['' # ?body @ CHR '']'' # y # post" using i compact_array [of F xs] by simp
  have inp1: "inp = (pre @ ''['') @ ?body @ CHR '']'' # y # post" using inp by simp
  have len: "length (compact F (JArray xs)) = length ?body + 2" using compact_array [of F xs] by simp
  note p1 = parser_at_tok [OF p tok_at [OF inp scan_punctuation(4)]]
  obtain d where d: "delimiter y = Some d" using y by auto
  have last: "tok inp ?q \<noteq> None"
    using delimiter_tok [OF d, of inp "pre @ compact F (JArray xs)" post] i by simp
  have close: "tok inp (Suc (length pre) + length ?body) =
      Some (end_array, Suc (length pre) + length ?body, ?q)"
    using delimiter_tok [of "CHR '']''" end_array inp "pre @ ''['' @ ?body" "y # post"] inp len
    by (simp add: delimiter_def)
  have first: "parse_internal F (Suc fuel) True p = parse_array (parse_internal F fuel) fuel True p"
    using p1(1) by simp
  show "\<exists>p'. parse_internal F (Suc fuel) True p = Some (Inr (reread (JArray xs), p')) \<and>
      parser_at inp ?q p'"
  proof (cases xs)
    case Nil
    obtain p2 where p2: "next_token p = Some (Inr p2)" "parser_at inp (Suc (length pre)) p2"
      using next_token_to [OF p, of "Suc (length pre)"] p1(3) close Nil by auto
    note l2 = parser_at_tok [OF p2(2), of end_array]
    obtain p3 where p3: "next_token p2 = Some (Inr p3)" "parser_at inp ?q p3"
      using next_token_to [OF p2(2) _ last] l2(3) close Nil by auto
    show ?thesis
      unfolding first using p2(1) p3 l2(1) close Nil callback_at [OF p] callback_at [OF p3(2)]
      by (simp add: parse_array_def parse_start_def parse_end_def)
  next
    case (Cons z zs)
    have body: "inp = (pre @ ''['') @ compact F z @ tail_text (compact F) zs (CHR '']'' # y # post)"
      using inp1 separated_tail [of "compact F" z zs "CHR '']'' # y # post"] Cons by simp
    obtain y1 r1 where y1: "tail_text (compact F) zs (CHR '']'' # y # post) = y1 # r1" "delimiter y1 \<noteq> None"
      by (rule tail_first [of "CHR '']''" end_array "compact F" zs "y # post"]) (auto simp: delimiter_def)
    have z: "textual z" using xs Cons by simp
    obtain t c where t: "tok inp (Suc (length pre)) = Some (t, Suc (length pre), c)"
        "t \<noteq> value_separator" "t \<noteq> end_array"
      using compact_first [OF z body [unfolded y1(1)] y1(2)] by auto
    obtain p2 where p2: "next_token p = Some (Inr p2)" "parser_at inp (Suc (length pre)) p2"
      using next_token_to [OF p, of "Suc (length pre)"] p1(3) t by auto
    have "\<forall>x \<in> set (z # zs). length (compact F x) < fuel"
      using item_length [of _ xs "compact F"] Cons fuel len by fastforce
    then have all: "\<forall>x \<in> set (z # zs). textual x \<and> reads F x \<and> length (compact F x) < fuel"
      using xs Cons by auto
    have n: "length zs < fuel" using items_count [of xs "compact F"] Cons fuel len by simp
    obtain p3 where p3: "parse_elements (parse_internal F fuel) fuel True (JArray []) p2 =
        Some (Inr (JArray (map reread xs), p3))"
        "parser_at inp (length inp - length (CHR '']'' # y # post)) p3"
      using parse_elements_reads [OF all body _ n, of p2 "[]"] p2(2) Cons by auto
    have "length inp - length (CHR '']'' # y # post) = Suc (length pre) + length ?body"
      using inp by simp
    then have p3': "parser_at inp (Suc (length pre) + length ?body) p3" using p3(2) by simp
    note l3 = parser_at_tok [OF p3' close]
    obtain p4 where p4: "next_token p3 = Some (Inr p4)" "parser_at inp ?q p4"
      using next_token_to [OF p3' l3(3) last] by auto
    show ?thesis
      unfolding first using p2(1) parser_at_tok(1) [OF p2(2) t(1)] t p3(1) l3(1) p4 callback_at [OF p] callback_at [OF p4(2)]
      by (simp add: parse_array_def parse_start_def parse_end_def expect_def unexpect_def)
  qed
qed

lemma reads_object:
  assumes kvs: "\<forall>e \<in> set kvs. textual (snd e) \<and> reads F (snd e)" and ok: "map_ok kvs"
  shows "reads F (JObject kvs)"
proof (rule readsI)
  fix inp pre y post and p :: "'a json_parser" and fuel
  assume i: "inp = pre @ compact F (JObject kvs) @ y # post" and y: "delimiter y \<noteq> None"
    and p: "parser_at inp (length pre) p" and fuel: "length (compact F (JObject kvs)) \<le> fuel"
  let ?q = "length pre + length (compact F (JObject kvs))"
    and ?body = "separated '','' (map (member_text F) kvs)"
  have inp: "inp = pre @ CHR ''{'' # ?body @ CHR ''}'' # y # post" using i compact_object [of F kvs] by simp
  have inp1: "inp = (pre @ ''{'') @ ?body @ CHR ''}'' # y # post" using inp by simp
  have len: "length (compact F (JObject kvs)) = length ?body + 2" using compact_object [of F kvs] by simp
  note p1 = parser_at_tok [OF p tok_at [OF inp scan_punctuation(6)]]
  obtain d where d: "delimiter y = Some d" using y by auto
  have last: "tok inp ?q \<noteq> None"
    using delimiter_tok [OF d, of inp "pre @ compact F (JObject kvs)" post] i by simp
  have close: "tok inp (Suc (length pre) + length ?body) =
      Some (end_object, Suc (length pre) + length ?body, ?q)"
    using delimiter_tok [of "CHR ''}''" end_object inp "pre @ ''{'' @ ?body" "y # post"] inp len
    by (simp add: delimiter_def)
  have first: "parse_internal F (Suc fuel) True p = parse_object (parse_internal F fuel) fuel True p"
    using p1(1) by simp
  show "\<exists>p'. parse_internal F (Suc fuel) True p = Some (Inr (reread (JObject kvs), p')) \<and>
      parser_at inp ?q p'"
  proof (cases kvs)
    case Nil
    obtain p2 where p2: "next_token p = Some (Inr p2)" "parser_at inp (Suc (length pre)) p2"
      using next_token_to [OF p, of "Suc (length pre)"] p1(3) close Nil by auto
    note l2 = parser_at_tok [OF p2(2), of end_object]
    obtain p3 where p3: "next_token p2 = Some (Inr p3)" "parser_at inp ?q p3"
      using next_token_to [OF p2(2) _ last] l2(3) close Nil by auto
    show ?thesis
      unfolding first using p2(1) p3 l2(1) close Nil callback_at [OF p] callback_at [OF p3(2)]
      by (simp add: parse_object_def parse_start_def parse_end_def)
  next
    case (Cons z zs)
    have body: "inp = (pre @ ''{'') @ member_text F z @ tail_text (member_text F) zs (CHR ''}'' # y # post)"
      using inp1 separated_tail [of "member_text F" z zs "CHR ''}'' # y # post"] Cons by simp
    then obtain r where "inp = (pre @ ''{'') @ CHR 0x22 # escape_string (fst z) @ CHR 0x22 # r"
      by (auto simp: member_text_def)
    note t = tok_string [OF this]
    obtain p2 where p2: "next_token p = Some (Inr p2)" "parser_at inp (Suc (length pre)) p2"
      using next_token_to [OF p, of "Suc (length pre)"] p1(3) t by auto
    have "\<forall>e \<in> set (z # zs). length (compact F (snd e)) < fuel"
    proof
      fix e assume "e \<in> set (z # zs)"
      then have "length (member_text F e) < length ?body + 1"
        using item_length [of e kvs "member_text F"] Cons by simp
      moreover have "length (compact F (snd e)) \<le> length (member_text F e)" by (simp add: member_text_def)
      ultimately show "length (compact F (snd e)) < fuel" using fuel len by simp
    qed
    then have all: "\<forall>e \<in> set (z # zs). textual (snd e) \<and> reads F (snd e) \<and> length (compact F (snd e)) < fuel"
      using kvs Cons by auto
    have n: "length zs < fuel" using items_count [of kvs "member_text F"] Cons fuel len by simp
    obtain p3 where p3: "parse_members (parse_internal F fuel) fuel True (JObject []) p2 =
        Some (Inr (JObject (map (\<lambda>e. (fst e, reread (snd e))) kvs), p3))"
        "parser_at inp (length inp - length (CHR ''}'' # y # post)) p3"
      using parse_members_reads [OF all body _ n, of p2 "[]"] p2(2) Cons ok by auto
    have "length inp - length (CHR ''}'' # y # post) = Suc (length pre) + length ?body"
      using inp by simp
    then have p3': "parser_at inp (Suc (length pre) + length ?body) p3" using p3(2) by simp
    note l3 = parser_at_tok [OF p3' close]
    obtain p4 where p4: "next_token p3 = Some (Inr p4)" "parser_at inp ?q p4"
      using next_token_to [OF p3' l3(3) last] by auto
    show ?thesis
      unfolding first using p2(1) parser_at_tok(1) [OF p2(2), of value_string] t p3(1) l3(1) p4 callback_at [OF p]
        callback_at [OF p4(2)]
      by (simp add: parse_object_def parse_start_def parse_end_def expect_def unexpect_def)
  qed
qed

lemma textual_reads: "textual j \<Longrightarrow> reads F j"
proof (induction j)
  case (JObject kvs)
  then show ?case by (intro reads_object) (auto simp: list_all_iff)
next
  case (JArray xs)
  then show ?case by (intro reads_array) (auto simp: list_all_iff)
next
  case (JInteger n)
  show ?case using sint_bounds [of n] by (intro reads_number [of F _ "sint n"]) auto
next
  case (JUnsigned n)
  show ?case using uint_bounds [of n] dump_unsigned [of F n]
    by (intro reads_number [of F _ "uint n"]) (auto intro: order_trans [OF _ uint_ge_0])
qed (auto intro: reads_null reads_boolean reads_string)

section \<open>The round trip\<close>

lemma parse_compact:
  assumes "textual j"
  shows "parse F (compact F j) None = Some (Inr (reread j))"
proof -
  let ?s = "compact F j" 
  have i: "?s @ [NUL] = [] @ compact F j @ NUL # []" by simp
  have y: "delimiter NUL \<noteq> None" by (simp add: delimiter_def)
  obtain t c where "tok (?s @ [NUL]) 0 = Some (t, 0, c)" using compact_first [OF assms i y] by auto
  then have "\<exists>p :: 'a json_parser. parser_of ?s None = Some (Inr p) \<and> parser_at (?s @ [NUL]) (length ([] :: string)) p"
    by (simp add: parser_of_def next_token_def scan_tok lexer_of_def parser_at_def)
  then obtain p :: "'a json_parser" where
    p: "parser_of ?s None = Some (Inr p)" "parser_at (?s @ [NUL]) (length ([] :: string)) p" by blast
  have l: "m_content (m_lexer p) = ?s" using p(2) by (simp add: parser_at_def)
  obtain p' where p': "parse_internal F (length ?s + 2) True p = Some (Inr (reread j, p'))"
      "parser_at (?s @ [NUL]) (length ([] :: string) + length ?s) p'"
    using readsD [OF textual_reads [OF assms] i y p(2), of "length ?s + 2"] by auto
  have "tok (?s @ [NUL]) (length ?s) = Some (end_of_input, length ?s, Suc (length ?s))"
    using delimiter_tok [of NUL end_of_input "?s @ [NUL]" ?s "[]"] by (simp add: delimiter_def)
  then have "last_token p' = end_of_input" using p'(2) parser_at_tok(1) by auto
  then show ?thesis
    using p(1) p'(1) not_discarded [OF assms]
    by (simp add: parse_def parser_parse_def l expect_def del: parse_internal.simps)
qed

text \<open>
  C1: Parsing what \<open>dump\<close> writes for a value gives the value back, for every value without
  floating-point numbers and discarded values, with keys and strings of any bytes.  The only
  difference is that integers that are not negative come back as unsigned ones, and \<open>operator==\<close>
  sees none.
\<close>

theorem parse_dump:
  assumes "textual j"
  shows "parse F (dump F (- 1) j) None = Some (Inr (reread j)) \<and> json_eq F j (reread j)"
  using parse_compact [OF assms] json_eq_reread [OF assms] by (simp add: dump_def)

definition sample :: "'f json" where
  "sample = JObject [(''a'', JArray [JInteger (- 5), JUnsigned 7, JNull]), (''b'', JString [CHR 0x22, CHR 0x0A])]"

lemma textual_sample: "textual sample"
  by (simp add: sample_def map_ok_def)

lemma parse_dump_witness:
  "parse int_floats (dump int_floats (- 1) sample) None = Some (Inr sample) \<and>
   json_eq int_floats sample sample"
  using parse_dump [OF textual_sample, of int_floats] by (simp add: sample_def)

end
