(* ===== verification/Client_Correct.thy ===== *)
theory Client_Correct
  imports Client Server_Correct Json_Correct
begin

text \<open>
  The client against the server: the server's answer is the JSON the client takes apart, and
  what the client stores it gets back.
\<close>

section \<open>Parsing the answer\<close>

text \<open>What the parser has not yet read.\<close>

definition remaining :: "'f json_parser \<Rightarrow> char list \<Rightarrow> bool" where
  "remaining p rest \<longleftrightarrow> callback p = None \<and>
     drop (m_cursor (m_lexer p)) (m_content (m_lexer p) @ [NUL]) = rest"

lemma next_remaining:
  assumes p: "remaining p (ws @ y # r)" and ws: "\<forall>c \<in> set ws. is_white c" "\<not> is_white y"
    and t: "\<And>q. scan_token q y r = Some (Inl (t, q + n))"
  shows "\<exists>p'. next_token p = Some (Inr p') \<and> last_token p' = t \<and> remaining p' (drop n (y # r)) \<and>
    m_start (m_lexer p') = m_cursor (m_lexer p) + length ws \<and>
    m_cursor (m_lexer p') = m_start (m_lexer p') + n \<and> m_content (m_lexer p') = m_content (m_lexer p)"
proof -
  let ?i = "m_content (m_lexer p) @ [NUL]" and ?q = "m_cursor (m_lexer p)"
  have d: "drop ?q ?i = ws @ y # r" using p by (simp add: remaining_def)
  have tk: "tok ?i ?q = Some (t, ?q + length ws, ?q + length ws + n)" by (rule tok_white [OF d ws t])
  have "drop (?q + length ws + n) ?i = drop n (y # r)"
    using d by (metis add.assoc append_eq_conv_conj drop_drop add.commute)
  with tk p show ?thesis by (simp add: next_token_def scan_tok remaining_def)
qed

lemma next_punctuation:
  assumes p: "remaining p (ws @ y # r)" and ws: "\<forall>c \<in> set ws. is_white c"
    and y: "(y, t) \<in> {(NUL, end_of_input), (CHR '','', value_separator), (CHR '':'', name_separator),
      (CHR ''{'', begin_object), (CHR ''}'', end_object)}"
  shows "\<exists>p'. next_token p = Some (Inr p') \<and> last_token p' = t \<and> remaining p' r"
proof -
  have "\<not> is_white y" using y by (auto simp: is_white_def)
  moreover have "scan_token q y r = Some (Inl (t, q + 1))" for q using y by auto
  ultimately show ?thesis using next_remaining [OF p ws, of t 1] by auto
qed

text \<open>A string without characters to escape stands for itself.\<close>

lemma escape_unchanged: "extra_space s = 0 \<Longrightarrow> escape_string s = s"
  by (simp add: escape_string_def)

lemma next_string:
  assumes p: "remaining p (ws @ CHR 0x22 # s @ CHR 0x22 # r)" and ws: "\<forall>c \<in> set ws. is_white c"
    and s: "extra_space s = 0"
  shows "\<exists>p'. next_token p = Some (Inr p') \<and> last_token p' = value_string \<and>
    get_string (m_lexer p') = Some (Inr s) \<and> remaining p' r"
proof -
  let ?i = "m_content (m_lexer p) @ [NUL]" and ?q = "m_cursor (m_lexer p)"
  have t: "scan_token q (CHR 0x22) (s @ CHR 0x22 # r) = Some (Inl (value_string, q + (length s + 2)))" for q
    using scan_string_token [of q s] by (simp add: escape_unchanged [OF s])
  obtain p' where p': "next_token p = Some (Inr p')" "last_token p' = value_string" "remaining p' r"
      "m_start (m_lexer p') = ?q + length ws" "m_cursor (m_lexer p') = m_start (m_lexer p') + (length s + 2)"
      "m_content (m_lexer p') = m_content (m_lexer p)"
    using next_remaining [OF p ws _ t] by (auto simp: is_white_def)
  have d: "drop ?q ?i = ws @ CHR 0x22 # s @ CHR 0x22 # r" using p by (simp add: remaining_def)
  then have "?q < length ?i" by (metis Nil_is_append_conv drop_eq_Nil leI list.distinct(1))
  then obtain pre where pre: "length pre = ?q" "?i = pre @ ws @ CHR 0x22 # s @ CHR 0x22 # r"
    using d append_take_drop_id [of ?q ?i] by (metis length_take min.absorb2 order_less_imp_le)
  have i: "?i = (pre @ ws @ [CHR 0x22]) @ escape_string s @ CHR 0x22 # r"
    using pre(2) by (simp add: escape_unchanged [OF s])
  have "get_string_loop ?i limit (length (pre @ ws @ [CHR 0x22]) + length (escape_string s))
      (length (pre @ ws @ [CHR 0x22])) [] = Some (Inr ([] @ s))" for limit
    by (rule get_string_escaped [OF i])
  then have "get_string_loop ?i limit (Suc (?q + length ws) + length s) (Suc (?q + length ws)) [] =
      Some (Inr s)" for limit
    by (simp add: escape_unchanged [OF s] pre(1))
  then have "get_string (m_lexer p') = Some (Inr s)"
    using p'(4-6) by (simp add: get_string_def add.assoc)
  with p'(1-3) show ?thesis by blast
qed

lemma remaining_callback: "remaining p r \<Longrightarrow> callback p = None"
  by (simp add: remaining_def)

lemma next_token_content:
  "next_token p = Some (Inr p') \<Longrightarrow> m_content (m_lexer p') = m_content (m_lexer p)"
  by (auto simp: next_token_def scan_tok)

lemma parse_string_value:
  "last_token p = value_string \<Longrightarrow> callback p' = None \<Longrightarrow> get_string (m_lexer p) = Some (Inr s) \<Longrightarrow>
   next_token p = Some (Inr p') \<Longrightarrow> parse_internal F (Suc n) keep p = Some (Inr (JString s, p'))"
  by (simp add: parse_value_def)

definition answer_json :: "char list \<Rightarrow> char list \<Rightarrow> 'f json" where
  "answer_json k v = JObject [(''key'', JString k), (''value'', JString v)]"

text \<open>Up to the end of the value, what \<open>make_json\<close> writes is parsed whatever follows.\<close>

lemma parse_answer_start:
  fixes F :: "'f float_ops"
  assumes k: "extra_space k = 0" and v: "extra_space v = 0"
    and s: "s = ''{ \"key\": \"'' @ k @ ''\" , \"value\": \"'' @ v @ CHR 0x22 # rest"
  shows "\<exists>(p0 :: 'f json_parser) p1 p7. parser_of s None = Some (Inr p0) \<and> m_content (m_lexer p0) = s \<and>
    last_token p0 = begin_object \<and> callback p0 = None \<and>
    next_token p0 = Some (Inr p1) \<and> last_token p1 = value_string \<and> callback p1 = None \<and>
    remaining p7 (rest @ [NUL]) \<and>
    (\<forall>p8 n m. next_token p7 = Some (Inr p8) \<and> last_token p8 \<noteq> value_separator \<and> callback p8 = None \<longrightarrow>
      parse_members (parse_internal F (Suc n)) (Suc (Suc m)) True (JObject []) p1 =
        Some (Inr (answer_json k v, p8)))"
proof -
  let ?p = "\<lparr>depth = 0, callback = None, last_token = uninitialized, m_lexer = lexer_of s\<rparr> :: 'f json_parser"
  have w: "\<forall>c \<in> set ''''. is_white c" "\<forall>c \<in> set '' ''. is_white c" by (simp_all add: is_white_def)
  have e: "extra_space ''key'' = 0" "extra_space ''value'' = 0" by simp_all
  have "remaining ?p (s @ [NUL])" by (simp add: remaining_def lexer_of_def)
  then obtain p0 where p0: "next_token ?p = Some (Inr p0)" "last_token p0 = begin_object"
      "remaining p0 (tl s @ [NUL])"
    using next_punctuation [OF _ w(1), of ?p "CHR ''{''" "tl s @ [NUL]" begin_object] s by auto
  obtain p1 where p1: "next_token p0 = Some (Inr p1)" "last_token p1 = value_string"
      "get_string (m_lexer p1) = Some (Inr ''key'')"
      "remaining p1 ('': \"'' @ k @ ''\" , \"value\": \"'' @ v @ CHR 0x22 # rest @ [NUL])"
    using next_string [OF _ w(2) e(1), of p0] p0(3) s by auto
  obtain p2 where p2: "next_token p1 = Some (Inr p2)" "last_token p2 = name_separator"
      "remaining p2 ('' \"'' @ k @ ''\" , \"value\": \"'' @ v @ CHR 0x22 # rest @ [NUL])"
    using next_punctuation [OF _ w(1), of p1 "CHR '':''" _ name_separator] p1(4) by auto
  obtain p3 where p3: "next_token p2 = Some (Inr p3)" "last_token p3 = value_string"
      "get_string (m_lexer p3) = Some (Inr k)"
      "remaining p3 ('' , \"value\": \"'' @ v @ CHR 0x22 # rest @ [NUL])"
    using next_string [OF _ w(2) k, of p2] p2(3) by auto
  obtain p4 where p4: "next_token p3 = Some (Inr p4)" "last_token p4 = value_separator"
      "remaining p4 ('' \"value\": \"'' @ v @ CHR 0x22 # rest @ [NUL])"
    using next_punctuation [OF _ w(2), of p3 "CHR '',''" _ value_separator] p3(4) by auto
  obtain p5 where p5: "next_token p4 = Some (Inr p5)" "last_token p5 = value_string"
      "get_string (m_lexer p5) = Some (Inr ''value'')"
      "remaining p5 ('': \"'' @ v @ CHR 0x22 # rest @ [NUL])"
    using next_string [OF _ w(2) e(2), of p4] p4(3) by auto
  obtain p6 where p6: "next_token p5 = Some (Inr p6)" "last_token p6 = name_separator"
      "remaining p6 ('' \"'' @ v @ CHR 0x22 # rest @ [NUL])"
    using next_punctuation [OF _ w(1), of p5 "CHR '':''" _ name_separator] p5(4) by auto
  obtain p7 where p7: "next_token p6 = Some (Inr p7)" "last_token p7 = value_string"
      "get_string (m_lexer p7) = Some (Inr v)" "remaining p7 (rest @ [NUL])"
    using next_string [OF _ w(2) v, of p6] p6(3) by auto
  have v1: "parse_internal F (Suc m) True p3 = Some (Inr (JString k, p4))" for m
    by (rule parse_string_value [OF p3(2) _ p3(3) p4(1)]) (rule remaining_callback [OF p4(3)])
  note cb = remaining_callback [OF p1(4)] remaining_callback [OF p5(4)] remaining_callback [OF p0(3)]
  have keys: "set_key (JObject []) ''key'' (JString k) = Inr (JObject [(''key'', JString k :: 'f json)])"
    "set_key (JObject [(''key'', JString k :: 'f json)]) ''value'' (JString v) = Inr (answer_json k v)"
    by (simp_all add: set_key_last answer_json_def)
  have m: "parse_members (parse_internal F (Suc n)) (Suc (Suc m)) True (JObject []) p1 =
      Some (Inr (answer_json k v, p8))"
    if p8: "next_token p7 = Some (Inr p8)" "last_token p8 \<noteq> value_separator" "callback p8 = None" for p8 n m
    using p1 p2 p3 p4 p5 p6 p7 p8 v1 parse_string_value [OF p7(2) p8(3) p7(3) p8(1)] cb keys
    by (simp add: expect_def is_discarded_def del: parse_internal.simps)
  have "m_content (m_lexer p0) = s" using next_token_content [OF p0(1)] by (simp add: lexer_of_def)
  moreover have "parser_of s None = Some (Inr p0)" using p0(1) by (simp add: parser_of_def)
  ultimately show ?thesis using p0(2) p1(1,2) p7(4) cb m by blast
qed

lemma parse_answer:
  assumes "extra_space k = 0" and "extra_space v = 0"
  shows "parse F (''{ \"key\": \"'' @ k @ ''\" , \"value\": \"'' @ v @ ''\" } '') None =
    Some (Inr (answer_json k v))"
proof -
  let ?s = "''{ \"key\": \"'' @ k @ ''\" , \"value\": \"'' @ v @ ''\" } ''"
  have w: "\<forall>c \<in> set '' ''. is_white c" by (simp add: is_white_def)
  obtain p0 p1 p7 where p: "parser_of ?s None = Some (Inr p0)" "m_content (m_lexer p0) = ?s"
      "last_token p0 = begin_object" "callback p0 = None" "next_token p0 = Some (Inr p1)"
      "last_token p1 = value_string" "callback p1 = None" "remaining p7 ('' } '' @ [NUL])"
    and m: "\<And>p8 n m. next_token p7 = Some (Inr p8) \<Longrightarrow> last_token p8 \<noteq> value_separator \<Longrightarrow> callback p8 = None \<Longrightarrow>
      parse_members (parse_internal F (Suc n)) (Suc (Suc m)) True (JObject []) p1 =
        Some (Inr (answer_json k v, p8))"
    using parse_answer_start [OF assms, of ?s "'' } ''" F] by auto
  obtain p8 where p8: "next_token p7 = Some (Inr p8)" "last_token p8 = end_object"
      "remaining p8 ('' '' @ [NUL])"
    using next_punctuation [OF _ w, of p7 "CHR ''}''" _ end_object] p(8) by auto
  obtain p9 where p9: "next_token p8 = Some (Inr p9)" "last_token p9 = end_of_input" "remaining p9 []"
    using next_punctuation [OF _ w, of p8 NUL "[]" end_of_input] p8(3) by auto
  note cb = remaining_callback [OF p8(3)] remaining_callback [OF p9(3)]
  obtain n where n: "length ?s = Suc n" by simp
  have "parse_internal F (length ?s + 2) True p0 = Some (Inr (answer_json k v, p9))"
    using p m [OF p8(1)] p8(2) p9(1) cb unfolding n
    by (simp add: parse_object_def parse_start_def parse_end_def unexpect_def expect_def)
  then show ?thesis
    using p(1,2) p9(2)
    by (simp add: parse_def parser_parse_def expect_def is_discarded_def answer_json_def
        del: parse_internal.simps)
qed

text \<open>A quotation mark at the end of the value: the parser takes the next one for a start.\<close>

lemma scan_token_unclosed:
  "scan_token q (CHR 0x22) ('' } '' @ [NUL]) = Some (Inl (parse_error, q + 1))"
  using plain_bit [of "CHR '' ''"] plain_bit [of "CHR ''}''"] plain_bit [of NUL]
  by (simp add: scan_token_def scan_first_def basic_json_parser_9_def string_next_def basic_json_parser_32_def)

lemma parse_answer_quote:
  assumes "extra_space k = 0" and "extra_space v = 0"
  shows "\<exists>msg. parse F (''{ \"key\": \"'' @ k @ ''\" , \"value\": \"'' @ (v @ [CHR 0x22]) @ ''\" } '') None =
    Some (Inl (Invalid_Argument_Error msg))"
proof -
  let ?s = "''{ \"key\": \"'' @ k @ ''\" , \"value\": \"'' @ (v @ [CHR 0x22]) @ ''\" } ''"
  obtain p0 p1 p7 where p: "parser_of ?s None = Some (Inr p0)" "m_content (m_lexer p0) = ?s"
      "last_token p0 = begin_object" "callback p0 = None" "next_token p0 = Some (Inr p1)"
      "last_token p1 = value_string" "callback p1 = None" "remaining p7 (''\" } '' @ [NUL])"
    and m: "\<And>p8 n m. next_token p7 = Some (Inr p8) \<Longrightarrow> last_token p8 \<noteq> value_separator \<Longrightarrow> callback p8 = None \<Longrightarrow>
      parse_members (parse_internal F (Suc n)) (Suc (Suc m)) True (JObject []) p1 =
        Some (Inr (answer_json k v, p8))"
    using parse_answer_start [OF assms, of ?s "''\" } ''" F] by auto
  obtain p8 where p8: "next_token p7 = Some (Inr p8)" "last_token p8 = parse_error" "callback p8 = None"
    using next_remaining [of p7 "[]" "CHR 0x22" "'' } '' @ [NUL]" parse_error 1] p(8) scan_token_unclosed
    by (auto simp: is_white_def remaining_def)
  obtain n where n: "length ?s = Suc n" by simp
  have "\<exists>msg. parse_internal F (length ?s + 2) True p0 = Some (Inl (Invalid_Argument_Error msg))"
    using p m [OF p8(1)] p8(2,3) unfolding n
    by (simp add: parse_object_def parse_start_def unexpect_def expect_def)
  then show ?thesis
    using p(1,2) by (auto simp: parse_def parser_parse_def simp del: parse_internal.simps)
qed

lemma unpack_answer:
  assumes "parse F s None = Some (Inr (answer_json k v))"
  shows "unpack_json F s = Some (Inr (k, v))"
  using assms
  by (simp add: unpack_json_def answer_json_def subscript_cstr_def is_null_def get_impl_string_def Let_def)

section \<open>Properties\<close>

text \<open>
  the server's \<open>make_json\<close> and the client's \<open>unpack_json\<close> fit together: for a key and a
  value without characters JSON escapes, the client gets back exactly the key (without the NUL
  the server found behind it) and the value.
\<close>

theorem unpack_make_json:
  assumes "extra_space k = 0" and "extra_space v = 0"
  shows "\<exists>answer. make_json (k @ [NUL]) v = Some answer \<and> unpack_json F answer = Some (Inr (k, v))"
  using unpack_answer [OF parse_answer [OF assms]] by (simp add: make_json_def)

lemma unpack_make_json_witness:
  "\<exists>answer. make_json (''a/b'' @ [NUL]) ''x y'' = Some answer \<and>
    unpack_json int_floats answer = Some (Inr (''a/b'', ''x y''))"
  by (rule unpack_make_json) simp_all

lemma udp_get_message_whole:
  assumes "NUL \<notin> set s" and "length s < length buf" and "length s < 2 ^ 32"
  shows "udp_get_message (Some (s @ [NUL])) buf = Inr s"
proof -
  have r: "receive_into (s @ [NUL]) buf = s @ NUL # drop (Suc (length s)) buf"
    using assms(2) by (simp add: receive_into_def)
  have "find_in_buf (receive_into (s @ [NUL]) buf) NUL = of_nat (length s)"
    unfolding r find_in_buf_def using find_in_buf_from_found [OF assms(1), of _ 0] by simp
  moreover have "(of_nat (length s) :: u64) \<noteq> npos" using assms(3) by (intro of_nat_npos) simp
  moreover have "unat (of_nat (length s) :: u64) = length s" using assms(3) by (intro unat_of_nat_64) simp
  ultimately show ?thesis by (simp add: udp_get_message_def Let_def r)
qed

lemma takeWhile_no_nul: "NUL \<notin> set s \<Longrightarrow> takeWhile (\<lambda>c. c \<noteq> NUL) s = s"
  by (auto simp: takeWhile_eq_all_conv)

lemma strcpy_string: "NUL \<notin> set s \<Longrightarrow> length mem = length s + 1 \<Longrightarrow> strcpy mem s = s @ [NUL]"
  by (simp add: strcpy_def takeWhile_no_nul)

lemma client_get_unpacks:
  assumes k: "NUL \<notin> set k" and s: "NUL \<notin> set s" "extra_space k = 0" "extra_space s = 0"
    and buf: "length buf = bufsize" and len: "length k + length s < 2 ^ 15"
    and mem: "length (mem (length s + 1)) = length s + 1"
  shows "client_cache_get F (k @ [NUL])
      (Some ((''{ \"key\": \"'' @ k @ ''\" , \"value\": \"'' @ s @ ''\" } '') @ [NUL])) buf mem =
    Some (''GET /'' @ k @ [NUL], Inr (Some (s @ [NUL]), of_nat (length s)))"
proof -
  let ?a = "''{ \"key\": \"'' @ k @ ''\" , \"value\": \"'' @ s @ ''\" } ''"
  have "udp_get_message (Some (?a @ [NUL])) buf = Inr ?a"
    by (rule udp_get_message_whole) (use k s buf len in \<open>auto simp: bufsize_def\<close>)
  moreover have "?a \<noteq> errstr" by (simp add: errstr_def)
  ultimately show ?thesis
    using k s strcpy_string [OF s(1) mem] unpack_answer [OF parse_answer [OF s(2,3)], of F]
    by (simp add: client_cache_get_def send_message_udp_def udp_connection_write_message_def finstr_def)
qed

text \<open>
  C5: over the client, the wire and the server, \<open>cache_get\<close> returns what \<open>cache_set\<close> stored.  The
  client's \<open>PUT\<close> message, received on any connection, stores the value; its \<open>GET\<close> datagram,
  received whatever was in the server's buffer, is answered with one datagram; and from that one
  the client's \<open>cache_get\<close> makes a buffer with the value and its length.  The value is a C string
  passed with or without its NUL; key and value have no characters the protocol or JSON gives
  a meaning to, and fit into one datagram and the cache.
\<close>

theorem client_set_then_get:
  assumes w: "cache_holds (port_cache w) es" "unat (table_size (port_cache w)) < 2 ^ 60"
      "length (recbuf w) = bufsize"
    and k: "NUL \<notin> set k" "CHR ''/'' \<notin> set k" "plain k" "extra_space k = 0"
      "k \<noteq> [] \<longrightarrow> \<not> is_white_space (last k)"
    and v: "NUL \<notin> set v" "plain v" "extra_space v = 0" "v \<noteq> []" "\<not> is_white_space (last v)"
    and len: "length v + 1 \<le> unat (maxmem (port_cache w))" "length k + length v < 2 ^ 14"
    and n: "n = of_nat (length v) \<or> n = of_nat (length v + 1)"
    and mem: "length (mem (length v + 1)) = length v + 1" and buf: "length buf = bufsize"
  shows "\<exists>message c answer w'. client_cache_set (k @ [NUL]) (v @ [NUL]) n = Some (Some message) \<and>
    handle_read sock message w = Some (Inr (w\<lparr>port_cache := c\<rparr>)) \<and>
    handle_receive False (w\<lparr>port_cache := c, recbuf := receive_into (''GET /'' @ k @ [NUL]) (recbuf w),
      endpoint := client\<rparr>) = Some (Inr w') \<and> sent w' = sent w @ [Udp_Send client answer] \<and>
    client_cache_get F (k @ [NUL]) (Some answer) buf mem =
      Some (''GET /'' @ k @ [NUL], Inr (Some (v @ [NUL]), of_nat (length v)))"
proof -
  define ws where "ws = (if n = of_nat (length v) then [NUL] else [NUL, NUL])"
  let ?m = "''PUT /'' @ k @ ''/'' @ v @ ws"
  have ws: "\<forall>x \<in> set ws. is_white_space x" "length ws \<le> 2" by (auto simp: ws_def is_white_space_def)
  have lv: "unat (of_nat (length v) :: u32) = length v" "unat (of_nat (length v + 1) :: u32) = length v + 1"
    using len(2) by (auto simp: unat_of_nat take_bit_nat_eq_self simp del: of_nat_add of_nat_Suc)
  have set: "client_cache_set (k @ [NUL]) (v @ [NUL]) n = Some (Some ?m)"
    using n lv len(2) k(1) v(4)
    by (auto simp: client_cache_set_def send_message_tcp_def tcp_connection_write_message_def finstr_def
        ws_def bufsize_def)
  obtain c where c: "handle_read sock ?m w = Some (Inr (w\<lparr>port_cache := c\<rparr>))"
      "cache_holds c (spec_set (unat (maxmem (port_cache w))) k (v @ [NUL]) es)"
    using handle_read_put [OF w(1,2) k(1-3) v(2) _ ws(1), of sock] v(5) len(2) ws(2) by auto
  let ?w = "w\<lparr>port_cache := c, recbuf := receive_into (''GET /'' @ k @ [NUL]) (recbuf w), endpoint := client\<rparr>"
  have r: "recbuf ?w = ''GET /'' @ k @ NUL # drop (length (''GET /'' @ k @ [NUL])) (recbuf w)"
    using w(3) len(2) by (simp add: receive_into_def bufsize_def)
  have lk: "length k < 2 ^ 30" using len(2) by simp
  have stored: "map_of (spec_set (unat (maxmem (port_cache w))) k (v @ [NUL]) es) k = Some (v @ [NUL])"
    using len(1) by (intro spec_set_lookup) simp
  let ?es = "spec_set (unat (maxmem (port_cache w))) k (v @ [NUL]) es"
  have h: "cache_holds (port_cache ?w) ?es" "\<forall>v'. map_of ?es k = Some v' \<longrightarrow> NUL \<in> set v'"
    using c(2) stored by simp_all
  have "\<exists>c'. handle_receive False ?w = Some (Inr (?w\<lparr>port_cache := c', sent := sent ?w @
      [Udp_Send client ((''{ \"key\": \"'' @ k @ ''\" , \"value\": \"'' @ v @ ''\" } '') @ [NUL])]\<rparr>))"
    using handle_receive_get [OF h(1) k(1-3,5) r lk h(2)] v(1) by (auto simp: stored)
  moreover have "client_cache_get F (k @ [NUL])
      (Some ((''{ \"key\": \"'' @ k @ ''\" , \"value\": \"'' @ v @ ''\" } '') @ [NUL])) buf mem =
    Some (''GET /'' @ k @ [NUL], Inr (Some (v @ [NUL]), of_nat (length v)))"
    using k(1,4) v(1,3) buf mem len(2) by (intro client_get_unpacks) auto
  ultimately show ?thesis using set c(1) by fastforce
qed

lemma client_set_then_get_witness:
  "\<exists>message c answer w'. client_cache_set (''a'' @ [NUL]) (''xy'' @ [NUL]) 2 = Some (Some message) \<and>
    handle_read 1 message small_server = Some (Inr (small_server\<lparr>port_cache := c\<rparr>)) \<and>
    handle_receive False (small_server\<lparr>port_cache := c,
      recbuf := receive_into (''GET /'' @ ''a'' @ [NUL]) (recbuf small_server), endpoint := 7\<rparr>) =
      Some (Inr w') \<and> sent w' = sent small_server @ [Udp_Send 7 answer] \<and>
    client_cache_get int_floats (''a'' @ [NUL]) (Some answer) (replicate bufsize NUL) (\<lambda>n. replicate n NUL) =
      Some (''GET /'' @ ''a'' @ [NUL], Inr (Some (''xy'' @ [NUL]), of_nat (length ''xy'')))"
  by (rule client_set_then_get [OF small_server_holds])
    (simp_all add: small_server_cache plain_def is_white_space_def bufsize_def,
      simp add: small_server_def run_server_def)

text \<open>
  C38: a value that ends in a quotation mark.  The server does not escape it, so the answer to
  \<open>cache_get\<close> is not JSON, and \<open>cache_get\<close> throws the parser's exception instead of returning
  the value.
\<close>

theorem value_with_quote_throws:
  assumes "NUL \<notin> set k" and "NUL \<notin> set s" and "extra_space k = 0" and "extra_space s = 0"
    and "length buf = bufsize" and "length k + length s < 2 ^ 15"
  shows "\<exists>answer msg. make_json (k @ [NUL]) (s @ [CHR 0x22]) = Some answer \<and>
    client_cache_get F (k @ [NUL]) (Some (answer @ [NUL])) buf mem =
      Some (''GET /'' @ k @ [NUL], Inl (Json_Error (Invalid_Argument_Error msg)))"
proof -
  let ?a = "''{ \"key\": \"'' @ k @ ''\" , \"value\": \"'' @ (s @ [CHR 0x22]) @ ''\" } ''"
  obtain msg where "parse F ?a None = Some (Inl (Invalid_Argument_Error msg))"
    using parse_answer_quote [OF assms(3,4)] by blast
  then have "unpack_json F ?a = Some (Inl (Invalid_Argument_Error msg))" by (simp add: unpack_json_def)
  moreover have "udp_get_message (Some (?a @ [NUL])) buf = Inr ?a"
    by (rule udp_get_message_whole) (use assms in \<open>auto simp: bufsize_def\<close>)
  moreover have "?a \<noteq> errstr" by (simp add: errstr_def)
  ultimately show ?thesis
    using assms(1)
    by (simp add: client_cache_get_def send_message_udp_def udp_connection_write_message_def finstr_def
        make_json_def)
qed

lemma value_with_quote_throws_witness:
  "\<exists>answer msg. make_json (''a'' @ [NUL]) (''x'' @ [CHR 0x22]) = Some answer \<and>
    client_cache_get int_floats (''a'' @ [NUL]) (Some (answer @ [NUL])) (replicate bufsize NUL) (\<lambda>n. []) =
      Some (''GET /'' @ ''a'' @ [NUL], Inl (Json_Error (Invalid_Argument_Error msg)))"
  by (rule value_with_quote_throws) (simp_all add: bufsize_def)

end
