(* ===== verification/Connections.thy ===== *)
theory Connections
  imports Network
begin

text \<open>
  The objects behind the event loop (\<open>tcp_server\<close>, \<open>tcp_con\<close> and \<open>udp_server\<close> of
  \<open>src/server.cpp\<close>): which operations are under way, and what their handlers start next.

  An operation of asio is under way from the call that starts it until its handler is called; a
  connection object is one of a number, given to it when it is created.  Every step of this loop is
  one of \<open>Network\<close>, the server never stops listening, and it gets through all that clients send.
\<close>

section \<open>Operations under way\<close>

text \<open>
  A send is \<open>Writing\<close> when asio had all its bytes before \<open>write_message\<close> returned, and only the
  handler is still to be called; it is \<open>Unfinished\<close> when there are bytes left to take from the string,
  the parameter of \<open>write_message\<close>, which is gone.
\<close>

datatype operation =
    Accepting nat
  | Reading nat
  | Writing event
  | Unfinished event
  | Receiving

text \<open>The connection objects are numbered as they are created.\<close>

record event_loop =
  status :: status
  outstanding :: "operation list"
  created :: nat

definition start_operation :: "operation \<Rightarrow> event_loop \<Rightarrow> event_loop" where
  "start_operation op l = l\<lparr>outstanding := outstanding l @ [op]\<rparr>"

text \<open>\<open>tcp_con::create\<close> and \<open>tcp_con::start\<close>.\<close>

definition tcp_con_create :: "event_loop \<Rightarrow> nat \<times> event_loop" where
  "tcp_con_create l = (created l, l\<lparr>created := Suc (created l)\<rparr>)"

definition tcp_con_start :: "nat \<Rightarrow> event_loop \<Rightarrow> event_loop" where
  "tcp_con_start con = start_operation (Reading con)"

definition start_accept :: "event_loop \<Rightarrow> event_loop" where
  "start_accept l = (let (new_connection, l) = tcp_con_create l in start_operation (Accepting new_connection) l)"

definition handle_accept :: "nat \<Rightarrow> bool \<Rightarrow> event_loop \<Rightarrow> event_loop" where
  "handle_accept new_connection error l =
     start_accept (if \<not> error then tcp_con_start new_connection l else l)"

definition start_receive :: "event_loop \<Rightarrow> event_loop" where
  "start_receive = start_operation Receiving"

text \<open>
  What a handler did to the server: the messages it sent are operations under way, \<open>prompt\<close> ones or
  others; an exception ends the loop.
\<close>

definition started :: "(event \<Rightarrow> bool) \<Rightarrow> event list \<Rightarrow> operation list" where
  "started prompt es = map (\<lambda>e. if prompt e then Writing e else Unfinished e) es"

definition after_handler ::
    "(event \<Rightarrow> bool) \<Rightarrow> server \<Rightarrow> server result \<Rightarrow> (event_loop \<Rightarrow> event_loop) \<Rightarrow> event_loop \<Rightarrow> event_loop" where
  "after_handler prompt w r continue l = (case r of
     Some (Inr w') \<Rightarrow> continue (l\<lparr>status := Running w',
       outstanding := outstanding l @ started prompt (drop (length (sent w)) (sent w'))\<rparr>)
   | _ \<Rightarrow> l\<lparr>status := finish r\<rparr>)"

text \<open>\<open>run_server\<close> up to \<open>my_io_service.run()\<close>.\<close>

definition start_loop :: "int \<Rightarrow> char list \<Rightarrow> event_loop" where
  "start_loop memlimit recbuf0 = start_receive (start_accept
     \<lparr>status = Running (run_server memlimit recbuf0), outstanding = [], created = 0\<rparr>)"

section \<open>The loop\<close>

definition done_with :: "operation \<Rightarrow> event_loop \<Rightarrow> event_loop" where
  "done_with op l = l\<lparr>outstanding := remove1 op (outstanding l)\<rparr>"

text \<open>
  Any operation under way may be the next to complete.  A read completes with the bytes received,
  whether or not it failed.  A send that is unfinished reads the string that is gone.
\<close>

inductive loop_step :: "(message \<Rightarrow> bool) \<Rightarrow> event_loop \<Rightarrow> event_loop \<Rightarrow> bool" for allowed where
  accepted: "status l = Running w \<Longrightarrow> Accepting con \<in> set (outstanding l) \<Longrightarrow>
    loop_step allowed l (handle_accept con error (done_with (Accepting con) l))"
| read: "status l = Running w \<Longrightarrow> Reading con \<in> set (outstanding l) \<Longrightarrow> allowed (Tcp_Message con b) \<Longrightarrow>
    loop_step allowed l (after_handler prompt w (handle_read con b w) (\<lambda>l. l) (done_with (Reading con) l))"
| written: "status l = Running w \<Longrightarrow> Writing e \<in> set (outstanding l) \<Longrightarrow>
    loop_step allowed l (done_with (Writing e) l)"
| overdue: "status l = Running w \<Longrightarrow> Unfinished e \<in> set (outstanding l) \<Longrightarrow>
    loop_step allowed l (l\<lparr>status := Undefined\<rparr>)"
| received: "status l = Running w \<Longrightarrow> Receiving \<in> set (outstanding l) \<Longrightarrow> allowed (Udp_Message client d) \<Longrightarrow>
    loop_step allowed l (after_handler prompt w
      (handle_receive False (w\<lparr>recbuf := receive_into d (recbuf w), endpoint := client\<rparr>))
      start_receive (done_with Receiving l))"
| receive_failed: "status l = Running w \<Longrightarrow> Receiving \<in> set (outstanding l) \<Longrightarrow>
    loop_step allowed l (after_handler prompt w (handle_receive True w) start_receive (done_with Receiving l))"

section \<open>The server keeps listening\<close>

text \<open>One accept and one receive are under way, and no connection is read twice.\<close>

fun is_accepting :: "operation \<Rightarrow> bool" where
  "is_accepting (Accepting con) = True" | "is_accepting _ = False"

fun waits_on :: "operation \<Rightarrow> nat option" where
  "waits_on (Accepting con) = Some con" | "waits_on (Reading con) = Some con" | "waits_on _ = None"

definition waiting :: "event_loop \<Rightarrow> nat list" where
  "waiting l = List.map_filter waits_on (outstanding l)"

definition listening :: "event_loop \<Rightarrow> bool" where
  "listening l \<longleftrightarrow> length (filter is_accepting (outstanding l)) = 1 \<and>
     length (filter (\<lambda>op. op = Receiving) (outstanding l)) = 1 \<and>
     distinct (waiting l) \<and> (\<forall>con \<in> set (waiting l). con < created l)"

lemma map_filter_remove1:
  assumes "op \<in> set ops" and "distinct (List.map_filter f ops)"
  shows "distinct (List.map_filter f (remove1 op ops)) \<and> set (List.map_filter f (remove1 op ops)) \<subseteq> set (List.map_filter f ops) \<and>
    (\<forall>c. f op = Some c \<longrightarrow> c \<in> set (List.map_filter f ops) \<and> c \<notin> set (List.map_filter f (remove1 op ops)))"
  using assms
proof (induction ops)
  case (Cons o' ops)
  show ?case
  proof (cases "o' = op")
    case True
    then show ?thesis using Cons.prems(2) by (auto simp: map_filter_simps split: option.splits)
  next
    case False
    with Cons have "distinct (List.map_filter f (remove1 op ops)) \<and> set (List.map_filter f (remove1 op ops)) \<subseteq> set (List.map_filter f ops) \<and>
      (\<forall>c. f op = Some c \<longrightarrow> c \<in> set (List.map_filter f ops) \<and> c \<notin> set (List.map_filter f (remove1 op ops)))"
      by (auto simp: map_filter_simps split: option.splits)
    with False Cons.prems show ?thesis by (auto simp: map_filter_simps split: option.splits)
  qed
qed simp

lemma map_filter_append: "List.map_filter f (xs @ ys) = List.map_filter f xs @ List.map_filter f ys"
  by (simp add: List.map_filter_def)

lemma waiting_writes: "List.map_filter waits_on (started prompt es) = []"
  by (induction es) (simp_all add: started_def map_filter_simps)

lemma other_writes:
  "filter is_accepting (started prompt es) = []" "filter (\<lambda>op. op = Receiving) (started prompt es) = []"
  by (induction es) (simp_all add: started_def)

lemma filter_count_remove1:
  "op \<in> set ops \<Longrightarrow> length (filter P (remove1 op ops)) = length (filter P ops) - (if P op then 1 else 0)"
  by (simp add: filter_remove1 length_remove1 remove1_idem)

lemma listening_more:
  "listening l \<Longrightarrow> listening (l\<lparr>status := s, outstanding := outstanding l @ started prompt es\<rparr>)"
  by (simp add: listening_def waiting_def map_filter_append waiting_writes other_writes)

text \<open>The operations without one that has completed.\<close>

lemma listening_done:
  assumes "listening l" and "op \<in> set (outstanding l)"
  shows "distinct (waiting (done_with op l))" and "set (waiting (done_with op l)) \<subseteq> {..<created l}"
    and "waits_on op = Some c \<Longrightarrow> c < created l \<and> c \<notin> set (waiting (done_with op l))"
    and "length (filter is_accepting (outstanding (done_with op l))) = (if is_accepting op then 0 else 1)"
    and "length (filter (\<lambda>op. op = Receiving) (outstanding (done_with op l))) = (if op = Receiving then 0 else 1)"
  using assms map_filter_remove1 [OF assms(2), of waits_on] filter_count_remove1 [OF assms(2)]
  by (auto simp: listening_def waiting_def done_with_def)

lemma listening_start:
  "listening (start_loop m buf)"
  by (simp add: start_loop_def start_receive_def start_accept_def start_operation_def tcp_con_create_def
      listening_def waiting_def map_filter_simps)

lemma listening_handle_accept:
  assumes "listening l" and "Accepting con \<in> set (outstanding l)"
  shows "listening (handle_accept con error (done_with (Accepting con) l))"
  using listening_done(1,2,4,5) [OF assms] listening_done(3) [OF assms, of con]
  by (auto simp: listening_def waiting_def handle_accept_def start_accept_def tcp_con_create_def tcp_con_start_def
      start_operation_def done_with_def map_filter_append map_filter_simps)

lemma listening_read:
  assumes "listening l" and "Reading con \<in> set (outstanding l)"
  shows "listening (done_with (Reading con) l)"
  using listening_done(1,2,4,5) [OF assms] listening_done(3) [OF assms, of con]
  by (auto simp: listening_def done_with_def)

lemma listening_written:
  assumes "listening l" and "Writing e \<in> set (outstanding l)"
  shows "listening (done_with (Writing e) l)"
  using listening_done [OF assms] by (auto simp: listening_def done_with_def)

lemma listening_received:
  assumes "listening l" and "Receiving \<in> set (outstanding l)"
  shows "listening (start_receive ((done_with Receiving l)\<lparr>status := s,
    outstanding := outstanding (done_with Receiving l) @ started prompt es\<rparr>))"
  using listening_done [OF assms]
  by (auto simp: listening_def waiting_def start_receive_def start_operation_def done_with_def map_filter_append
      map_filter_simps waiting_writes other_writes)

lemma after_handler_status:
  "(\<And>l. status (continue l) = status l) \<Longrightarrow> status (after_handler prompt w r continue l) = finish r"
  by (auto simp: after_handler_def finish_def split: option.split sum.split)

lemma after_handler_running:
  assumes "status (after_handler prompt w r continue l) = Running w'" and "\<And>l. status (continue l) = status l"
  shows "\<exists>es. after_handler prompt w r continue l =
    continue (l\<lparr>status := Running w', outstanding := outstanding l @ started prompt es\<rparr>)"
  using assms
  by (auto simp: after_handler_def finish_def main_catch_def split: option.splits sum.splits exn.splits Option.bind_splits)

lemma start_status [simp]: "status (start_receive l) = status l" "status (handle_accept con error l) = status l"
  "status (done_with op l) = status l"
  by (simp_all add: start_receive_def start_operation_def handle_accept_def start_accept_def tcp_con_create_def
      tcp_con_start_def done_with_def)

lemma loop_step_listening:
  assumes "loop_step allowed l l'" and "listening l" and "status l' = Running w'"
  shows "listening l'"
  using assms(1)
proof cases
  case (accepted w con error)
  then show ?thesis using listening_handle_accept [OF assms(2)] by simp
next
  case (read w con b prompt)
  then show ?thesis using after_handler_running [OF assms(3) [unfolded read(1)]]
      listening_more [OF listening_read [OF assms(2) read(3)]] by fastforce
next
  case (written w e)
  then show ?thesis using listening_written [OF assms(2)] by simp
next
  case (overdue w e)
  then show ?thesis using assms(3) by simp
next
  case (received w client d prompt)
  then show ?thesis using after_handler_running [OF assms(3) [unfolded received(1)]]
      listening_received [OF assms(2) received(3)] by fastforce
next
  case (receive_failed w prompt)
  then show ?thesis using after_handler_running [OF assms(3) [unfolded receive_failed(1)]]
      listening_received [OF assms(2) receive_failed(3)] by fastforce
qed

section \<open>Every step is one of the network\<close>

fun overdue_event :: "operation \<Rightarrow> event option" where
  "overdue_event (Unfinished e) = Some e" | "overdue_event _ = None"

definition unfinished :: "event_loop \<Rightarrow> event list" where
  "unfinished l = List.map_filter overdue_event (outstanding l)"

text \<open>The network of a loop has no message that waits to be handled.\<close>

definition network_of :: "event_loop \<Rightarrow> network" where
  "network_of l = \<lparr>srv = status l, pending = [], late = unfinished l\<rparr>"

lemma set_map_filter: "set (List.map_filter f xs) = {c. \<exists>x \<in> set xs. f x = Some c}"
  by (force simp: List.map_filter_def)

lemma unfinished_set: "e \<in> set (unfinished l) \<longleftrightarrow> Unfinished e \<in> set (outstanding l)"
  by (auto simp: unfinished_def set_map_filter elim: overdue_event.elims intro: bexI [of _ "Unfinished e"])

lemma map_filter_remove1_None: "f op = None \<Longrightarrow> List.map_filter f (remove1 op ops) = List.map_filter f ops"
  by (induction ops) (auto simp: map_filter_simps split: option.split)

lemma unfinished_started: "List.map_filter overdue_event (started prompt es) = filter (\<lambda>e. \<not> prompt e) es"
  by (induction es) (simp_all add: started_def map_filter_simps)

lemma unfinished_done: "overdue_event op = None \<Longrightarrow> unfinished (done_with op l) = unfinished l"
  by (simp add: unfinished_def done_with_def map_filter_remove1_None)

lemma unfinished_simps [simp]: "unfinished (start_receive l) = unfinished l" "unfinished (handle_accept con error l) = unfinished l"
  "unfinished (l\<lparr>status := st\<rparr>) = unfinished l"
  by (simp_all add: unfinished_def start_receive_def start_operation_def handle_accept_def start_accept_def tcp_con_create_def
      tcp_con_start_def map_filter_append map_filter_simps)

lemma unfinished_after_handler:
  assumes "\<And>l. unfinished (continue l) = unfinished l"
  shows "unfinished (after_handler prompt w r continue l) =
    unfinished l @ filter (\<lambda>e. \<not> prompt e) (sends w (finish r))"
proof (cases r)
  case (Some q)
  then show ?thesis
  proof (cases q)
    case (Inr w')
    have "unfinished (l\<lparr>status := st, outstanding := outstanding l @ started prompt es\<rparr>) =
      unfinished l @ filter (\<lambda>e. \<not> prompt e) es" for st es
      by (simp add: unfinished_def map_filter_append unfinished_started)
    with Some Inr assms show ?thesis by (simp add: after_handler_def sends_def finish_def)
  next
    case (Inl ew)
    obtain e w' where "ew = (e, w')" by (cases ew)
    with Some Inl show ?thesis
      by (simp add: after_handler_def sends_def finish_def split: option.split prod.split)
  qed
qed (simp add: after_handler_def sends_def finish_def)

lemma loop_step_network:
  assumes "loop_step allowed l l'"
  shows "\<exists>M \<le> 2. (net_step allowed ^^ M) (network_of l) (network_of l')"
proof -
  have two: ?thesis if m: "allowed m" "status l = Running w" "status l' = handle m w"
    "unfinished l' = unfinished l @ filter (\<lambda>e. \<not> prompt e) (sends w (handle m w))" for m w prompt
  proof -
    let ?n = "(network_of l)\<lparr>pending := [m]\<rparr>"
    have "net_step allowed (network_of l) ?n"
      using net_step.arrives [of allowed m "network_of l"] m(1) by (simp add: network_of_def)
    moreover have "net_step allowed ?n (network_of l')"
      using process.process [of ?n w m prompt] m(2-4) by (intro net_step.handled) (simp add: network_of_def)
    ultimately have "(net_step allowed ^^ 2) (network_of l) (network_of l')"
      by (auto simp: numeral_2_eq_2)
    then show ?thesis by blast
  qed
  have none: ?thesis if "status l' = status l" "unfinished l' = unfinished l"
    using that by (intro exI [of _ 0]) (simp add: network_of_def)
  have one: ?thesis if "net_step allowed (network_of l) (network_of l')"
    using that by (intro exI [of _ 1]) (simp add: eq_OO)
  show ?thesis
    using assms
  proof cases
    case (accepted w con error)
    then show ?thesis by (intro none) (simp_all add: unfinished_done)
  next
    case (written w e)
    then show ?thesis by (intro none) (simp_all add: unfinished_done)
  next
    case (overdue w e)
    then have "network_of l' = (network_of l)\<lparr>srv := Undefined\<rparr>" by (simp add: network_of_def)
    moreover have "net_step allowed (network_of l) ((network_of l)\<lparr>srv := Undefined\<rparr>)"
      by (rule net_step.late_send) (use overdue in \<open>simp_all add: network_of_def unfinished_set\<close>)
    ultimately show ?thesis by (intro one) simp
  next
    case (receive_failed w prompt)
    then have "status l' = finish (handle_receive True w)" "unfinished l' = unfinished l"
      by (simp_all add: after_handler_status unfinished_after_handler unfinished_done sends_def finish_def handle_receive_def)
    then have "network_of l' = (network_of l)\<lparr>srv := finish (handle_receive True w)\<rparr>" by (simp add: network_of_def)
    then show ?thesis
      using net_step.failed [of "network_of l" w allowed] receive_failed by (intro one) (simp add: network_of_def)
  next
    case (read w con b prompt)
    then show ?thesis
      by (intro two [of "Tcp_Message con b" w prompt])
        (simp_all add: after_handler_status unfinished_after_handler unfinished_done)
  next
    case (received w client d prompt)
    then show ?thesis
      by (intro two [of "Udp_Message client d" w prompt])
        (simp_all add: after_handler_status unfinished_after_handler unfinished_done)
  qed
qed

lemma relpowp_add: "(R ^^ m) x y \<Longrightarrow> (R ^^ n) y z \<Longrightarrow> (R ^^ (m + n)) x z"
  by (induction n arbitrary: z) auto

lemma loop_run:
  "(loop_step allowed ^^ N) l0 l \<Longrightarrow> listening l0 \<Longrightarrow> status l0 = Running w0 \<Longrightarrow>
   ((\<exists>w. status l = Running w) \<longrightarrow> listening l) \<and>
   (\<exists>M \<le> 2 * N. (net_step allowed ^^ M) (network_of l0) (network_of l))"
proof (induction N arbitrary: l)
  case 0
  then show ?case by (auto intro: exI [of _ 0])
next
  case (Suc N)
  then obtain l1 where l1: "(loop_step allowed ^^ N) l0 l1" "loop_step allowed l1 l" by auto
  from Suc.IH [OF l1(1) Suc.prems(2,3)] obtain M where IH: "(\<exists>w. status l1 = Running w) \<longrightarrow> listening l1" "M \<le> 2 * N"
    "(net_step allowed ^^ M) (network_of l0) (network_of l1)" by blast
  from loop_step_network [OF l1(2)] obtain K where K: "K \<le> 2"
    "(net_step allowed ^^ K) (network_of l1) (network_of l)" by blast
  have "listening l1" using IH(1) l1(2) by (auto elim: loop_step.cases)
  then have "(\<exists>w. status l = Running w) \<longrightarrow> listening l" using loop_step_listening [OF l1(2)] by blast
  moreover have "M + K \<le> 2 * Suc N" using IH(2) K(1) by simp
  ultimately show ?case using relpowp_add [OF IH(3) K(2)] by blast
qed

text \<open>A connection object that is done with never waits for anything again.\<close>

lemma waiting_done: "set (waiting (done_with op l)) \<subseteq> set (waiting l)" "created (done_with op l) = created l"
  using set_remove1_subset [of op "outstanding l"] by (auto simp: waiting_def done_with_def set_map_filter)

lemma waiting_after_handler:
  "set (waiting (after_handler prompt w r (\<lambda>l. l) l)) \<subseteq> set (waiting l) \<and> created (after_handler prompt w r (\<lambda>l. l) l) = created l"
  "set (waiting (after_handler prompt w r start_receive l)) \<subseteq> set (waiting l) \<and> created (after_handler prompt w r start_receive l) = created l"
  by (auto simp: after_handler_def waiting_def map_filter_append map_filter_simps waiting_writes start_receive_def
      start_operation_def split: option.splits sum.splits)

lemma loop_step_gone:
  assumes "loop_step allowed l l'" and "con < created l" and "con \<notin> set (waiting l)"
  shows "con < created l' \<and> con \<notin> set (waiting l')"
  using assms(1)
proof cases
  case (accepted w c error)
  have "c \<in> set (waiting l)" using accepted(3) by (force simp: waiting_def set_map_filter)
  then show ?thesis using assms(2,3) waiting_done [of "Accepting c" l] unfolding accepted(1)
    by (auto simp: handle_accept_def start_accept_def tcp_con_create_def tcp_con_start_def start_operation_def
        waiting_def map_filter_append map_filter_simps)
next
  case (overdue w e)
  then show ?thesis using assms(2,3) by (simp add: waiting_def)
next
  case (read w c b prompt)
  then show ?thesis using assms(2,3) waiting_done [of "Reading c" l]
      waiting_after_handler(1) [of prompt w "handle_read c b w" "done_with (Reading c) l"] by auto
next
  case (written w e)
  then show ?thesis using assms(2,3) waiting_done [of "Writing e" l] by auto
next
  case (received w client d prompt)
  then show ?thesis using assms(2,3) waiting_done [of Receiving l]
      waiting_after_handler(2) [of prompt w "handle_receive False (w\<lparr>recbuf := receive_into d (recbuf w), endpoint := client\<rparr>)"
        "done_with Receiving l"] by auto
next
  case (receive_failed w prompt)
  then show ?thesis using assms(2,3) waiting_done [of Receiving l]
      waiting_after_handler(2) [of prompt w "handle_receive True w" "done_with Receiving l"] by auto
qed

lemma loop_gone:
  "(loop_step allowed)\<^sup>*\<^sup>* l l' \<Longrightarrow> con < created l \<Longrightarrow> con \<notin> set (waiting l) \<Longrightarrow>
   con < created l' \<and> con \<notin> set (waiting l')"
  by (induction rule: rtranclp_induct) (use loop_step_gone in blast)+

lemma reachable_loop:
  assumes "(loop_step harmless ^^ N) (start_loop m buf) l"
    and "0 \<le> m" and "m < 2 ^ 31" and "length buf = bufsize" and "N \<le> 2 ^ 56"
  shows "status_ok (2 * N) (status l) \<or> status l = Undefined \<and> (\<exists>e. Unfinished e \<in> set (outstanding l))"
    and "status l = Running w \<Longrightarrow> listening l"
proof -
  have start: "status (start_loop m buf) = Running (run_server m buf)"
    by (simp add: start_loop_def start_accept_def tcp_con_create_def start_operation_def)
  from loop_run [OF assms(1) listening_start start] obtain M where
    r: "(\<exists>w. status l = Running w) \<longrightarrow> listening l" "M \<le> 2 * N"
      "(net_step harmless ^^ M) (network_of (start_loop m buf)) (network_of l)" by blast
  have "net_ok 0 (network_of (start_loop m buf))"
    using run_server_ok [OF assms(2-4)] by (simp add: net_ok_def network_of_def start)
  from net_run_ok [OF r(3) this] r(2) assms(5)
  have "status_ok M (status l) \<or> status l = Undefined \<and> unfinished l \<noteq> []"
    by (simp add: net_ok_def network_of_def)
  moreover have "\<exists>e. Unfinished e \<in> set (outstanding l)" if "unfinished l \<noteq> []"
    using that by (cases "unfinished l") (auto simp flip: unfinished_set)
  ultimately show "status_ok (2 * N) (status l) \<or> status l = Undefined \<and> (\<exists>e. Unfinished e \<in> set (outstanding l))"
    using status_ok_mono [OF _ r(2)] by blast
  show "listening l" if "status l = Running w" using r(1) that by blast
qed

lemma listening_operations:
  assumes "listening l"
  obtains con where "Accepting con \<in> set (outstanding l)" and "Receiving \<in> set (outstanding l)"
proof -
  have "filter is_accepting (outstanding l) \<noteq> []" "filter (\<lambda>op. op = Receiving) (outstanding l) \<noteq> []"
    using assms by (auto simp: listening_def)
  then obtain op where op: "op \<in> set (outstanding l)" "is_accepting op" and r: "Receiving \<in> set (outstanding l)"
    by (auto simp: filter_empty_conv)
  from op(2) obtain con where "op = Accepting con" by (rule is_accepting.elims(2))
  with op(1) r that show thesis by blast
qed


lemma start_loop_state:
  "status (start_loop m buf) = Running (run_server m buf)" "outstanding (start_loop m buf) = [Accepting 0, Receiving]"
  "created (start_loop m buf) = 1"
  by (simp_all add: start_loop_def start_accept_def tcp_con_create_def start_operation_def start_receive_def)


section \<open>The server gets through everything\<close>

text \<open>The messages one after the other, until the server stops.\<close>

fun serve :: "message list \<Rightarrow> status \<Rightarrow> status" where
  "serve (m # ms) (Running w) = serve ms (handle m w)"
| "serve ms st = st"

text \<open>A message over TCP is the same on any connection.\<close>

fun same_message :: "message \<Rightarrow> message \<Rightarrow> bool" where
  "same_message (Tcp_Message sock b) (Tcp_Message sock' b') \<longleftrightarrow> b = b'"
| "same_message (Udp_Message client d) (Udp_Message client' d') \<longleftrightarrow> client = client' \<and> d = d'"
| "same_message m m' \<longleftrightarrow> False"

lemma same_message_refl: "same_message m m"
  by (cases m) simp_all

lemma same_message_harmless: "same_message m m' \<Longrightarrow> harmless m' \<longleftrightarrow> harmless m"
  by (cases m; cases m') auto

lemma serve_ok:
  "status_ok k st \<Longrightarrow> \<forall>m \<in> set ms. harmless m \<Longrightarrow> k + length ms \<le> 2 ^ 57 \<Longrightarrow> status_ok (k + length ms) (serve ms st)"
proof (induction ms st arbitrary: k rule: serve.induct)
  case (1 m ms w)
  then have "status_ok (Suc k) (handle m w)" by (intro handle_ok) auto
  then have "status_ok (Suc k + length ms) (serve ms (handle m w))" by (rule "1.IH") (use "1.prems" in auto)
  then show ?case by simp
qed (auto intro: status_ok_mono)

lemma one_handled:
  assumes "listening l" and "status l = Running w" and "harmless m"
  shows "\<exists>l' m'. (loop_step harmless)\<^sup>*\<^sup>* l l' \<and> same_message m m' \<and> status l' = handle m' w \<and>
    ((\<exists>w'. status l' = Running w') \<longrightarrow> listening l')"
proof -
  obtain con where ops: "Accepting con \<in> set (outstanding l)" "Receiving \<in> set (outstanding l)"
    using listening_operations [OF assms(1)] .
  show ?thesis
  proof (cases m)
    case (Tcp_Message sock b)
    let ?l1 = "handle_accept con False (done_with (Accepting con) l)"
    let ?l2 = "after_handler (\<lambda>e. True) w (handle_read con b w) (\<lambda>l. l) (done_with (Reading con) ?l1)"
    have one: "loop_step harmless l ?l1" by (rule loop_step.accepted [OF assms(2) ops(1)])
    have w1: "status ?l1 = Running w" using assms(2) by simp
    have two: "loop_step harmless ?l1 ?l2"
      by (rule loop_step.read [OF w1]) (use assms(3) Tcp_Message in \<open>simp_all add: handle_accept_def start_accept_def
        tcp_con_create_def tcp_con_start_def start_operation_def\<close>)
    have "listening ?l1" by (rule listening_handle_accept [OF assms(1) ops(1)])
    then have "(\<exists>w'. status ?l2 = Running w') \<longrightarrow> listening ?l2" using loop_step_listening [OF two] by blast
    moreover have "status ?l2 = handle (Tcp_Message con b) w" by (simp add: after_handler_status)
    moreover have "same_message m (Tcp_Message con b)" using Tcp_Message by simp
    moreover have "(loop_step harmless)\<^sup>*\<^sup>* l ?l2" using one two by (meson r_into_rtranclp rtranclp_trans)
    ultimately show ?thesis by blast
  next
    case (Udp_Message client d)
    let ?l1 = "after_handler (\<lambda>e. True) w
      (handle_receive False (w\<lparr>recbuf := receive_into d (recbuf w), endpoint := client\<rparr>)) start_receive (done_with Receiving l)"
    have one: "loop_step harmless l ?l1"
      by (rule loop_step.received [OF assms(2) ops(2)]) (use assms(3) Udp_Message in simp)
    then have "(\<exists>w'. status ?l1 = Running w') \<longrightarrow> listening ?l1" using loop_step_listening [OF one assms(1)] by blast
    moreover have "status ?l1 = handle m w" using Udp_Message by (simp add: after_handler_status)
    moreover have "same_message m m" using Udp_Message by simp
    ultimately show ?thesis using one by blast
  qed
qed

lemma all_handled:
  "listening l \<Longrightarrow> status l = Running w \<Longrightarrow> \<forall>m \<in> set ms. harmless m \<Longrightarrow>
   \<exists>l' ms'. (loop_step harmless)\<^sup>*\<^sup>* l l' \<and> list_all2 same_message ms ms' \<and> status l' = serve ms' (Running w)"
proof (induction ms arbitrary: l w)
  case Nil
  then show ?case by (intro exI [of _ l] exI [of _ "[]"]) simp
next
  case (Cons m ms)
  then obtain l1 m' where one: "(loop_step harmless)\<^sup>*\<^sup>* l l1" "same_message m m'" "status l1 = handle m' w"
      "(\<exists>w'. status l1 = Running w') \<longrightarrow> listening l1"
    using one_handled [of l w m] by auto
  show ?case
  proof (cases "handle m' w")
    case (Running w1)
    then obtain l2 ms' where "(loop_step harmless)\<^sup>*\<^sup>* l1 l2" "list_all2 same_message ms ms'"
        "status l2 = serve ms' (Running w1)"
      using Cons.IH [of l1 w1] Cons.prems(3) one(3,4) by auto
    then show ?thesis using one(1,2) Running
      by (intro exI [of _ l2] exI [of _ "m' # ms'"]) (simp add: rtranclp_trans)
  next
    case (Stopped st w1)
    have "list_all2 same_message ms ms" by (intro list_all2_refl) (rule same_message_refl)
    then show ?thesis using one Stopped
      by (intro exI [of _ l1] exI [of _ "m' # ms"]) simp
  next
    case Undefined
    have "list_all2 same_message ms ms" by (intro list_all2_refl) (rule same_message_refl)
    then show ?thesis using one Undefined
      by (intro exI [of _ l1] exI [of _ "m' # ms"]) simp
  qed
qed



end
