(* ===== verification/Json_Safe.thy ===== *)
theory Json_Safe
  imports Json_Lexer_Correct Json_Parser Json_Dump
begin

text \<open>
  The scanner and the parser on any text: they read nothing behind its NUL and end, and a
  string token has the structure \<open>get_string\<close> relies on.  So \<open>parse\<close> always returns a value or
  throws, whatever the callback.
\<close>

section \<open>The labels of the scanner\<close>

text \<open>What is left of a text before its NUL was read.\<close>

definition ends :: "char list \<Rightarrow> bool" where
  "ends r \<longleftrightarrow> r \<noteq> [] \<and> last r = NUL"

lemma ends_step: "ends (y # r) \<Longrightarrow> 0 < code y \<Longrightarrow> ends r"
  by (auto simp: ends_def split: if_splits)

lemma ends_ne: "ends r \<Longrightarrow> r \<noteq> []"
  by (simp add: ends_def)

lemma ends_Nil [simp]: "\<not> ends []"
  by (simp add: ends_def)

text \<open>A label stops with a token that ends between \<open>s\<close> and the NUL.\<close>

definition within :: "nat \<Rightarrow> nat \<Rightarrow> char list \<Rightarrow> (token_type \<times> nat) option \<Rightarrow> bool" where
  "within s cursor r x \<longleftrightarrow> (\<exists>t c. x = Some (t, c) \<and> s \<le> c \<and> c < cursor + length r \<and> t \<noteq> end_of_input)"

lemma within_Some [simp]:
  "within s cursor r (Some (t, c)) \<longleftrightarrow> s \<le> c \<and> c < cursor + length r \<and> t \<noteq> end_of_input"
  by (auto simp: within_def)

lemma within_step: "within s (Suc cursor) r x \<Longrightarrow> within s cursor (y # r) x"
  by (simp add: within_def)

named_theorems label_within \<open>the labels stay inside the text\<close>

lemma within_31 [label_within]:
  "ends r \<Longrightarrow> s \<le> m \<Longrightarrow> m \<le> cursor \<Longrightarrow> within s cursor r (basic_json_parser_31 l m cursor r)"
proof (induction l m cursor r rule: basic_json_parser_31.induct)
  case (2 l m cursor y r)
  have "code y \<noteq> 0" if "string_next l (code y) \<noteq> L33"
    using that plain_bit [of NUL]
    by (auto simp: string_next_def basic_json_parser_32_def basic_json_parser_36_def
        basic_json_parser_43_def basic_json_parser_54_def basic_json_parser_60_def
        basic_json_parser_63_def split: label.splits if_splits)
  with 2 show ?case
    by (auto simp: Let_def intro: within_step ends_step dest: ends_step ends_ne)
qed simp

lemma within_9 [label_within]:
  "ends r \<Longrightarrow> s \<le> cursor \<Longrightarrow> within s cursor r (basic_json_parser_9 cursor r)"
  by (auto simp: basic_json_parser_9_def label_within simp del: basic_json_parser_31.simps
      split: list.split)

lemma within_47 [label_within]:
  "ends r \<Longrightarrow> s \<le> cursor \<Longrightarrow> within s cursor r (basic_json_parser_47 cursor r)"
proof (induction cursor r rule: basic_json_parser_47.induct)
  case (2 cursor y r)
  then show ?case by (auto intro!: within_step dest: ends_step)
qed simp

lemma within_46 [label_within]:
  "ends r \<Longrightarrow> s \<le> m \<Longrightarrow> m \<le> cursor \<Longrightarrow> within s cursor r (basic_json_parser_46 m cursor r)"
  by (cases r) (auto simp: basic_json_parser_46_def intro!: within_step label_within dest: ends_step)

lemma within_38 [label_within]:
  "ends r \<Longrightarrow> s \<le> m \<Longrightarrow> m \<le> cursor \<Longrightarrow> within s cursor r (basic_json_parser_38 m cursor r)"
  by (cases r) (auto simp: basic_json_parser_38_def intro!: within_step label_within dest: ends_step)

lemma within_44 [label_within]:
  "ends r \<Longrightarrow> s \<le> cursor \<Longrightarrow> within s cursor r (basic_json_parser_44 cursor r)"
proof (induction cursor r rule: basic_json_parser_44.induct)
  case (2 cursor y r)
  then show ?case by (auto intro!: within_step label_within dest: ends_step)
qed simp

lemma within_37 [label_within]:
  "ends r \<Longrightarrow> s \<le> m \<Longrightarrow> m \<le> cursor \<Longrightarrow> within s cursor r (basic_json_parser_37 m cursor r)"
  by (cases r) (auto simp: basic_json_parser_37_def intro!: within_step label_within dest: ends_step)

lemma within_15 [label_within]:
  "ends r \<Longrightarrow> s \<le> cursor \<Longrightarrow> within s cursor r (basic_json_parser_15 cursor r)"
proof (induction cursor r rule: basic_json_parser_15.induct)
  case (2 cursor y r)
  then show ?case
    by (auto simp: is_digit_def intro!: within_step label_within dest: ends_step)
qed simp

lemma within_13 [label_within]:
  "ends r \<Longrightarrow> s \<le> cursor \<Longrightarrow> within s cursor r (basic_json_parser_13 cursor r)"
  by (cases r) (auto simp: basic_json_parser_13_def intro!: within_step label_within dest: ends_step)

lemma within_12 [label_within]:
  "ends r \<Longrightarrow> s \<le> cursor \<Longrightarrow> within s cursor r (basic_json_parser_12 cursor r)"
  by (cases r) (auto simp: basic_json_parser_12_def intro!: within_step label_within dest: ends_step)

text \<open>The literals: a label moves on only over the letter it waits for.\<close>

lemmas literal_defs = basic_json_parser_23_def basic_json_parser_24_def basic_json_parser_25_def
  basic_json_parser_39_def basic_json_parser_40_def basic_json_parser_41_def
  basic_json_parser_49_def basic_json_parser_50_def basic_json_parser_51_def
  basic_json_parser_55_def

lemma within_letter:
  assumes "ends r" and "s \<le> m" and "m \<le> cursor" and "0 < n"
    and "\<And>y r'. ends r' \<Longrightarrow> within s (Suc cursor) r' (f r')"
  shows "within s cursor r
    (case r of [] \<Rightarrow> None | y # r' \<Rightarrow> if code y = n then f r' else Some (parse_error, m))"
proof (cases r)
  case (Cons y r')
  then show ?thesis using assms ends_step [of y r'] by (auto intro: within_step)
qed (use assms in simp)

lemma within_end: "ends r \<Longrightarrow> s \<le> cursor \<Longrightarrow> t \<noteq> end_of_input \<Longrightarrow> within s cursor r (Some (t, cursor))"
  by (simp add: ends_def)

lemma within_literals [label_within]:
  assumes "ends r" and "s \<le> m" and "m \<le> cursor"
  shows "within s cursor r (basic_json_parser_55 m cursor r)"
    and "within s cursor r (basic_json_parser_51 m cursor r)"
    and "within s cursor r (basic_json_parser_50 m cursor r)"
    and "within s cursor r (basic_json_parser_49 m cursor r)"
    and "within s cursor r (basic_json_parser_41 m cursor r)"
    and "within s cursor r (basic_json_parser_40 m cursor r)"
    and "within s cursor r (basic_json_parser_39 m cursor r)"
  unfolding literal_defs using assms
  by (auto intro!: within_letter within_end)

lemma within_literal_starts [label_within]:
  assumes "ends r" and "s \<le> cursor"
  shows "within s cursor r (basic_json_parser_23 cursor r)"
    and "within s cursor r (basic_json_parser_24 cursor r)"
    and "within s cursor r (basic_json_parser_25 cursor r)"
  unfolding basic_json_parser_23_def basic_json_parser_24_def basic_json_parser_25_def using assms
  by (auto intro!: within_letter within_literals)

section \<open>The scanner\<close>

text \<open>From position \<open>q\<close> of a text with \<open>n\<close> characters from there, progress is made inside it.\<close>

definition token_ok :: "nat \<Rightarrow> nat \<Rightarrow> ((token_type \<times> nat) + nat) option \<Rightarrow> bool" where
  "token_ok q n x \<longleftrightarrow> (case x of
     None \<Rightarrow> False
   | Some (Inl (t, c)) \<Rightarrow> q < c \<and> c \<le> q + n \<and> (t \<noteq> end_of_input \<longrightarrow> c < q + n)
   | Some (Inr c) \<Rightarrow> q < c \<and> c < q + n)"

lemma token_ok_Some [simp]:
  "token_ok q n (Some (Inl (t, c))) \<longleftrightarrow> q < c \<and> c \<le> q + n \<and> (t \<noteq> end_of_input \<longrightarrow> c < q + n)"
  "token_ok q n (Some (Inr c)) \<longleftrightarrow> q < c \<and> c < q + n"
  by (simp_all add: token_ok_def)

lemma token_ok_within: "within (Suc q) (Suc q) r x \<Longrightarrow> token_ok q (Suc (length r)) (map_option Inl x)"
  by (auto simp: within_def)

lemma skip_within:
  "ends r \<Longrightarrow> s \<le> cursor \<Longrightarrow> \<exists>c. basic_json_parser_6 cursor r = Some c \<and> s \<le> c \<and> c < cursor + length r"
proof (induction cursor r rule: basic_json_parser_6.induct)
  case (2 cursor y r)
  show ?case
  proof (cases "is_white y")
    case True
    then have "ends r" using 2(2) by (intro ends_step [of y r]) (auto simp: is_white_def)
    with 2(1) [of] 2(3) True show ?thesis by (fastforce simp: is_white_def)
  next
    case False
    then show ?thesis using 2(3) by (simp add: is_white_def)
  qed
qed simp

lemma bom_within:
  assumes "ends r"
  shows "token_ok q (Suc (length r)) (basic_json_parser_30 (Suc q) r)"
proof (cases r)
  case (Cons y r1)
  show ?thesis
  proof (cases "code y = 0xBB")
    case True
    then have "ends r1" using assms Cons ends_step [of y r1] by simp
    then show ?thesis using True Cons
      by (cases r1) (auto simp: basic_json_parser_30_def basic_json_parser_42_def ends_def split: if_splits)
  qed (use Cons in \<open>simp add: basic_json_parser_30_def\<close>)
qed (use assms in simp)

lemma scan_token_within:
  assumes "ends (y # r)"
  shows "token_ok q (Suc (length r)) (scan_token q y r)"
proof (cases "code y = 0")
  case True
  then have "scan_first (code y) = L2" by (simp add: scan_first_def)
  then show ?thesis by (simp add: scan_token_def)
next
  case False
  then have r: "ends r" using assms ends_step by simp
  then have n: "0 < length r" by (simp add: ends_def)
  obtain c where c: "basic_json_parser_6 (Suc q) r = Some c" "Suc q \<le> c" "c < Suc q + length r"
    using skip_within [OF r] by blast
  have "scan_first (code y) \<noteq> L2" using False by (simp add: scan_first_def)
  then show ?thesis
    unfolding scan_token_def Let_def
    using n c bom_within [OF r] label_within [OF r]
    by (cases "scan_first (code y)") (simp_all add: token_ok_within)
qed

lemma scan_from_within:
  assumes "ends inp" and "q < length inp" and "length inp - q < fuel"
  shows "\<exists>t s c. scan_from fuel inp q = Some (t, s, c) \<and> q \<le> s \<and> s < c \<and> c \<le> length inp \<and>
    (t \<noteq> end_of_input \<longrightarrow> c < length inp) \<and>
    (\<exists>y r. drop s inp = y # r \<and> scan_token s y r = Some (Inl (t, c)))"
  using assms(2,3)
proof (induction fuel arbitrary: q)
  case (Suc fuel)
  obtain y r where yr: "drop q inp = y # r" using Cons_nth_drop_Suc [OF Suc.prems(1)] by metis
  then have e: "ends (y # r)" using assms(1) Suc.prems(1) by (metis ends_def last_drop list.distinct(1))
  have n: "q + Suc (length r) = length inp"
    using yr Suc.prems(1) by (metis length_Cons length_drop le_add_diff_inverse order_less_imp_le)
  show ?case
  proof (cases "scan_token q y r")
    case None
    then show ?thesis using scan_token_within [OF e, of q] by (simp add: token_ok_def)
  next
    case (Some x)
    show ?thesis
    proof (cases x)
      case (Inl tc)
      then show ?thesis using Some yr n scan_token_within [OF e, of q] by (cases tc) auto
    next
      case (Inr c)
      then have c: "q < c" "c < length inp" using Some scan_token_within [OF e, of q] n by auto
      then have "length inp - c < fuel" using Suc.prems(2) by simp
      from Suc.IH [OF c(2) this] c(1) Some Inr yr show ?thesis by fastforce
    qed
  qed
qed simp

lemma tok_within:
  assumes "ends inp" and "q < length inp"
  shows "\<exists>t s c. tok inp q = Some (t, s, c) \<and> q \<le> s \<and> s < c \<and> c \<le> length inp \<and>
    (t \<noteq> end_of_input \<longrightarrow> c < length inp) \<and>
    (\<exists>y r. drop s inp = y # r \<and> scan_token s y r = Some (Inl (t, c)))"
  unfolding tok_def using scan_from_within [OF assms, of "Suc (length inp)"] by simp

section \<open>The structure of string tokens\<close>

text \<open>
  What may stand between the quotation marks: the grammar of JSON, but with the control
  characters from 0x10 on as plain characters.
\<close>

definition escape_letters :: "char set" where
  "escape_letters = {CHR 0x22, CHR 0x5C, CHR ''/'', CHR ''b'', CHR ''f'', CHR ''n'', CHR ''r'', CHR ''t''}"

inductive string_body :: "char list \<Rightarrow> bool" where
  empty: "string_body []"
| plain_char: "0x10 \<le> code c \<Longrightarrow> c \<noteq> CHR 0x22 \<Longrightarrow> c \<noteq> CHR 0x5C \<Longrightarrow> string_body s \<Longrightarrow> string_body (c # s)"
| escape: "d \<in> escape_letters \<Longrightarrow> string_body s \<Longrightarrow> string_body (CHR 0x5C # d # s)"
| unicode: "is_hex a \<Longrightarrow> is_hex b \<Longrightarrow> is_hex c \<Longrightarrow> is_hex d \<Longrightarrow> string_body s \<Longrightarrow>
    string_body (CHR 0x5C # CHR ''u'' # a # b # c # d # s)"

lemma code_eq_iff: "code c = code d \<longleftrightarrow> c = d"
  by (metis of_char_eqI)

lemma code_values:
  "code c = 0x22 \<longleftrightarrow> c = CHR 0x22" "code c = 0x5C \<longleftrightarrow> c = CHR 0x5C" "code c = 0x2F \<longleftrightarrow> c = CHR ''/''"
  "code c = 0x62 \<longleftrightarrow> c = CHR ''b''" "code c = 0x66 \<longleftrightarrow> c = CHR ''f''" "code c = 0x6E \<longleftrightarrow> c = CHR ''n''"
  "code c = 0x72 \<longleftrightarrow> c = CHR ''r''" "code c = 0x74 \<longleftrightarrow> c = CHR ''t''" "code c = 0x75 \<longleftrightarrow> c = CHR ''u''"
  using code_eq_iff [of c "CHR 0x22"] code_eq_iff [of c "CHR 0x5C"] code_eq_iff [of c "CHR ''/''"]
    code_eq_iff [of c "CHR ''b''"] code_eq_iff [of c "CHR ''f''"] code_eq_iff [of c "CHR ''n''"]
    code_eq_iff [of c "CHR ''r''"] code_eq_iff [of c "CHR ''t''"] code_eq_iff [of c "CHR ''u''"]
  by simp_all

lemma string_next_31:
  "string_next L31 (code c) =
     (if 0x10 \<le> code c \<and> c \<noteq> CHR 0x22 \<and> c \<noteq> CHR 0x5C then L31
      else if c = CHR 0x22 then L34 else if c = CHR 0x5C then L36 else L33)"
  by (auto simp: string_next_def basic_json_parser_32_def code_values [symmetric])

lemma string_next_36:
  "string_next L36 (code c) =
     (if c \<in> escape_letters then L31 else if c = CHR ''u'' then L43 else L33)"
  by (auto simp: string_next_def basic_json_parser_36_def escape_letters_def code_values [symmetric])

lemma string_next_hex_digits:
  "string_next L43 (code c) = (if is_hex c then L54 else L33)"
  "string_next L54 (code c) = (if is_hex c then L60 else L33)"
  "string_next L60 (code c) = (if is_hex c then L63 else L33)"
  "string_next L63 (code c) = (if is_hex c then L31 else L33)"
  by (auto simp: string_next_def basic_json_parser_43_def basic_json_parser_54_def
      basic_json_parser_60_def basic_json_parser_63_def is_hex_def)

lemma string_next_letters:
  "string_next L31 34 = L34" "string_next L31 92 = L36" "string_next L36 117 = L43"
  using string_next_31 [of "CHR 0x22"] string_next_31 [of "CHR 0x5C"] string_next_36 [of "CHR ''u''"]
  by (simp_all add: escape_letters_def)

lemma scan_string_body:
  "string_body s \<Longrightarrow> basic_json_parser_31 L31 m cursor (s @ CHR 0x22 # r) =
    Some (value_string, cursor + length s + 1)"
  by (induction s arbitrary: cursor rule: string_body.induct)
    (simp_all add: string_next_31 string_next_36 string_next_hex_digits string_next_letters)

lemma hex_label:
  "basic_json_parser_31 L43 m cursor r = Some (value_string, c) \<longleftrightarrow>
    (\<exists>y r'. r = y # r' \<and> is_hex y \<and> basic_json_parser_31 L54 m (Suc cursor) r' = Some (value_string, c))"
  "basic_json_parser_31 L54 m cursor r = Some (value_string, c) \<longleftrightarrow>
    (\<exists>y r'. r = y # r' \<and> is_hex y \<and> basic_json_parser_31 L60 m (Suc cursor) r' = Some (value_string, c))"
  "basic_json_parser_31 L60 m cursor r = Some (value_string, c) \<longleftrightarrow>
    (\<exists>y r'. r = y # r' \<and> is_hex y \<and> basic_json_parser_31 L63 m (Suc cursor) r' = Some (value_string, c))"
  "basic_json_parser_31 L63 m cursor r = Some (value_string, c) \<longleftrightarrow>
    (\<exists>y r'. r = y # r' \<and> is_hex y \<and> basic_json_parser_31 L31 m (Suc cursor) r' = Some (value_string, c))"
  by (cases r; auto simp: string_next_hex_digits)+

lemma scanned_string_body:
  assumes "basic_json_parser_31 L31 m cursor r = Some (value_string, c)"
  shows "\<exists>s r'. r = s @ CHR 0x22 # r' \<and> string_body s \<and> c = cursor + length s + 1"
  using assms
proof (induction r arbitrary: cursor rule: length_induct)
  case (1 r)
  note IH = "1.IH" [rule_format]
  obtain y r1 where r: "r = y # r1" using "1.prems" by (cases r) auto
  consider (plain) "0x10 \<le> code y" "y \<noteq> CHR 0x22" "y \<noteq> CHR 0x5C" | (quote) "y = CHR 0x22"
    | (backslash) "y = CHR 0x5C" | (bad) "\<not> 0x10 \<le> code y" "y \<noteq> CHR 0x22" "y \<noteq> CHR 0x5C" by blast
  then show ?case
  proof cases
    case plain
    then have "basic_json_parser_31 L31 m (Suc cursor) r1 = Some (value_string, c)"
      using "1.prems" r by (simp add: string_next_31)
    from IH [OF _ this] r obtain s r' where "r1 = s @ CHR 0x22 # r'" "string_body s"
        "c = Suc cursor + length s + 1" by auto
    with plain r show ?thesis
      by (intro exI [of _ "y # s"] exI [of _ r']) (auto intro: string_body.plain_char)
  next
    case quote
    then show ?thesis using "1.prems" r
      by (auto simp: string_next_letters intro: string_body.empty)
  next
    case bad
    then show ?thesis using "1.prems" r by (simp add: string_next_31)
  next
    case backslash
    then have e: "basic_json_parser_31 L36 m (Suc cursor) r1 = Some (value_string, c)"
      using "1.prems" r by (simp add: string_next_letters)
    then obtain d r2 where r1: "r1 = d # r2" by (cases r1) auto
    consider (simple) "d \<in> escape_letters" | (u) "d = CHR ''u''" "d \<notin> escape_letters"
      | (bad) "d \<noteq> CHR ''u''" "d \<notin> escape_letters" by blast
    then show ?thesis
    proof cases
      case simple
      then have "basic_json_parser_31 L31 m (Suc (Suc cursor)) r2 = Some (value_string, c)"
        using e r1 by (simp add: string_next_36)
      from IH [OF _ this] r r1 obtain s r' where "r2 = s @ CHR 0x22 # r'" "string_body s"
          "c = Suc (Suc cursor) + length s + 1" by auto
      with simple backslash r r1 show ?thesis
        by (intro exI [of _ "CHR 0x5C # d # s"] exI [of _ r']) (auto intro: string_body.escape)
    next
      case u
      then have "basic_json_parser_31 L43 m (Suc (Suc cursor)) r2 = Some (value_string, c)"
        using e r1 by (simp add: string_next_letters)
      then obtain w x y' z r3 where h: "r2 = w # x # y' # z # r3" "is_hex w" "is_hex x" "is_hex y'" "is_hex z"
          "basic_json_parser_31 L31 m (cursor + 6) r3 = Some (value_string, c)"
        by (auto simp: hex_label numeral_eq_Suc)
      from IH [OF _ h(6)] h(1) r r1 obtain s r' where "r3 = s @ CHR 0x22 # r'" "string_body s"
          "c = cursor + 6 + length s + 1" by auto
      with h backslash r r1 u show ?thesis
        by (intro exI [of _ "CHR 0x5C # CHR ''u'' # w # x # y' # z # s"] exI [of _ r'])
          (auto intro: string_body.unicode)
    next
      case bad
      then show ?thesis using e r1 by (simp add: string_next_36)
    qed
  qed
qed

lemma string_token:
  "scan_token q (CHR 0x22) r = Some (Inl (value_string, c)) \<longleftrightarrow>
    (\<exists>s r'. r = s @ CHR 0x22 # r' \<and> string_body s \<and> c = q + length s + 2)"
proof -
  have st: "scan_token q (CHR 0x22) r = map_option Inl (basic_json_parser_9 (q + 1) r)"
    by (simp add: scan_token_def scan_first_def)
  have first: "\<not> code y \<le> 0x0F" if "string_body s" "s @ CHR 0x22 # r' = y # r1" for s r' y r1
    using that by (cases rule: string_body.cases) auto
  show ?thesis
  proof
    assume "scan_token q (CHR 0x22) r = Some (Inl (value_string, c))"
    then have "basic_json_parser_31 L31 (q + 1) (q + 1) r = Some (value_string, c)"
      unfolding st by (auto simp: basic_json_parser_9_def simp del: basic_json_parser_31.simps
          split: list.splits if_splits)
    from scanned_string_body [OF this]
    show "\<exists>s r'. r = s @ CHR 0x22 # r' \<and> string_body s \<and> c = q + length s + 2" by auto
  next
    assume "\<exists>s r'. r = s @ CHR 0x22 # r' \<and> string_body s \<and> c = q + length s + 2"
    then obtain s r' where s: "r = s @ CHR 0x22 # r'" "string_body s" "c = q + length s + 2" by blast
    obtain y r1 where "r = y # r1" using s(1) by (metis append_is_Nil_conv list.distinct(1) list.exhaust)
    moreover have "\<not> code y \<le> 0x0F" using first [OF s(2)] s(1) calculation by metis
    ultimately show "scan_token q (CHR 0x22) r = Some (Inl (value_string, c))"
      using scan_string_body [OF s(2), of "q + 1" "q + 1" r'] s(1,3)
      unfolding st by (simp add: basic_json_parser_9_def del: basic_json_parser_31.simps)
  qed
qed

text \<open>No other first character leads to a string token.\<close>

lemma number_tokens:
  "basic_json_parser_47 cursor r = Some (t, c) \<Longrightarrow> t = value_number"
  "basic_json_parser_44 cursor r = Some (t, c) \<Longrightarrow> t = value_number"
  "basic_json_parser_15 cursor r = Some (t, c) \<Longrightarrow> t = value_number"
  "basic_json_parser_13 cursor r = Some (t, c) \<Longrightarrow> t = value_number"
proof -
  have n47: "basic_json_parser_47 cursor r = Some (t, c) \<Longrightarrow> t = value_number" for cursor r t c
    by (induction cursor r rule: basic_json_parser_47.induct) (auto split: if_splits)
  have n38: "basic_json_parser_38 m cursor r = Some (t, c) \<Longrightarrow> t = value_number" for m cursor r t c
    using n47 by (auto simp: basic_json_parser_38_def basic_json_parser_46_def split: list.splits if_splits)
  have n44: "basic_json_parser_44 cursor r = Some (t, c) \<Longrightarrow> t = value_number" for cursor r t c
    using n38 by (induction cursor r rule: basic_json_parser_44.induct) (auto split: if_splits)
  have n37: "basic_json_parser_37 m cursor r = Some (t, c) \<Longrightarrow> t = value_number" for m cursor r t c
    using n44 by (auto simp: basic_json_parser_37_def split: list.splits if_splits)
  have n15: "basic_json_parser_15 cursor r = Some (t, c) \<Longrightarrow> t = value_number" for cursor r t c
    using n38 n37 by (induction cursor r rule: basic_json_parser_15.induct) (auto split: if_splits)
  show "basic_json_parser_47 cursor r = Some (t, c) \<Longrightarrow> t = value_number"
    "basic_json_parser_44 cursor r = Some (t, c) \<Longrightarrow> t = value_number"
    "basic_json_parser_15 cursor r = Some (t, c) \<Longrightarrow> t = value_number"
    "basic_json_parser_13 cursor r = Some (t, c) \<Longrightarrow> t = value_number"
    using n47 n44 n15 n37 n38 by (auto simp: basic_json_parser_13_def split: list.splits if_splits)
qed

lemma literal_tokens:
  "basic_json_parser_23 cursor r = Some (t, c) \<Longrightarrow> t \<noteq> value_string"
  "basic_json_parser_24 cursor r = Some (t, c) \<Longrightarrow> t \<noteq> value_string"
  "basic_json_parser_25 cursor r = Some (t, c) \<Longrightarrow> t \<noteq> value_string"
  by (auto simp: literal_defs split: list.splits if_splits)

lemma minus_token: "basic_json_parser_12 cursor r = Some (t, c) \<Longrightarrow> t \<noteq> value_string"
  by (auto simp: basic_json_parser_12_def split: list.splits if_splits dest: number_tokens)

lemma bom_token: "basic_json_parser_30 cursor r = Some (Inl (t, c)) \<Longrightarrow> t \<noteq> value_string"
  by (auto simp: basic_json_parser_30_def basic_json_parser_42_def split: list.splits if_splits)

lemma scan_first_quote: "scan_first (code y) = L9 \<longleftrightarrow> y = CHR 0x22"
  by (auto simp: scan_first_def code_values [symmetric])

lemma string_token_first:
  assumes "scan_token q y r = Some (Inl (value_string, c))"
  shows "y = CHR 0x22"
proof (rule ccontr)
  assume "y \<noteq> CHR 0x22"
  then have "scan_first (code y) \<noteq> L9" by (simp add: scan_first_quote)
  then show False
    using assms number_tokens(3,4) [of "Suc q" r] literal_tokens [of "Suc q" r] minus_token [of "Suc q" r]
      bom_token [of "Suc q" r]
    by (cases "scan_first (code y)") (fastforce simp: scan_token_def)+
qed

section \<open>Reading string tokens\<close>

lemma at_here: "inp = pre @ s \<Longrightarrow> at inp (length pre + i) = at s i"
  by (simp add: at_def nth_append)

lemma string_body_surrogate:
  assumes "string_body s" and "at (s @ CHR 0x22 # r) 0 = Some (CHR 0x5C)"
    and "at (s @ CHR 0x22 # r) 1 = Some (CHR ''u'')"
  obtains a b c d s' where "s = CHR 0x5C # CHR ''u'' # a # b # c # d # s'" and "string_body s'"
  using assms by (cases rule: string_body.cases) (auto simp: at_def escape_letters_def)

lemma get_string_body:
  assumes "string_body s" and "inp = pre @ s @ CHR 0x22 # r"
  shows "\<exists>x. get_string_loop inp limit (length pre + length s) (length pre) res = Some x"
  using assms
proof (induction s arbitrary: pre res rule: length_induct)
  case (1 s)
  note IH = "1.IH" [rule_format]
  note at = at_here [OF "1.prems"(2)]
  let ?stop = "length pre + length s"
  from "1.prems"(1) show ?case
  proof cases
    case empty
    then show ?thesis by (subst get_string_loop.simps) simp
  next
    case (plain_char c t)
    have "\<exists>x. get_string_loop inp limit (length (pre @ [c]) + length t) (length (pre @ [c])) (res @ [c]) = Some x"
      by (rule IH) (use plain_char "1.prems"(2) in auto)
    then show ?thesis
      using plain_char at [of 0] by (subst get_string_loop.simps) (simp add: at_def)
  next
    case (escape d t)
    have "\<exists>x. get_string_loop inp limit (length (pre @ [CHR 0x5C, d]) + length t)
        (length (pre @ [CHR 0x5C, d])) (res @ simple_escape d) = Some x"
      by (rule IH) (use escape "1.prems"(2) in auto)
    moreover have "d \<noteq> CHR ''u''" using escape(2) by (auto simp: escape_letters_def)
    ultimately show ?thesis
      using escape at [of 0] at [of 1] by (subst get_string_loop.simps) (simp add: at_def)
  next
    case (unicode a b c d t)
    let ?u = "[CHR 0x5C, CHR ''u'', a, b, c, d]"
    have one: "\<exists>x. get_string_loop inp limit ?stop (length pre + 6) res' = Some x" for res'
    proof -
      have "\<exists>x. get_string_loop inp limit (length (pre @ ?u) + length t) (length (pre @ ?u)) res' = Some x"
        by (rule IH) (use unicode "1.prems"(2) in auto)
      then show ?thesis using unicode(1) by (simp add: numeral_eq_Suc)
    qed
    have two: "\<exists>x. get_string_loop inp limit ?stop (length pre + 12) res' = Some x"
        "\<not> length inp < length pre + 12"
      if second: "at inp (length pre + 6) = Some (CHR 0x5C)" "at inp (length pre + 7) = Some (CHR ''u'')" for res'
    proof -
      have "at (t @ CHR 0x22 # r) 0 = Some (CHR 0x5C)" "at (t @ CHR 0x22 # r) 1 = Some (CHR ''u'')"
        using second at [of 6] at [of 7] unicode(1) by (simp_all add: at_def)
      from string_body_surrogate [OF unicode(6) this] obtain a' b' c' d' t' where
        t: "t = CHR 0x5C # CHR ''u'' # a' # b' # c' # d' # t'" "string_body t'" .
      let ?v = "?u @ [CHR 0x5C, CHR ''u'', a', b', c', d']"
      have "\<exists>x. get_string_loop inp limit (length (pre @ ?v) + length t') (length (pre @ ?v)) res' = Some x"
        by (rule IH) (use unicode(1) t "1.prems"(2) in auto)
      then show "\<exists>x. get_string_loop inp limit ?stop (length pre + 12) res' = Some x"
        using unicode(1) t(1) by (simp add: numeral_eq_Suc)
      show "\<not> length inp < length pre + 12" using "1.prems"(2) unicode(1) t(1) by simp
    qed
    have len: "\<not> length inp < length pre + 6" "length pre < ?stop" using "1.prems"(2) unicode(1) by simp_all
    have here: "at inp (length pre) = Some (CHR 0x5C)" "at inp (length pre + 1) = Some (CHR ''u'')"
      using at [of 0] at [of 1] unicode(1) by (simp_all add: at_def)
    show ?thesis
      using here len one two
      by (subst get_string_loop.simps) (auto simp: Let_def numeral_eq_Suc split: sum.split)
  qed
qed

section \<open>The parser\<close>

text \<open>The last token was read from the text, and only the end of the input can lie at its end.\<close>

abbreviation text_of :: "'f json_parser \<Rightarrow> char list" where
  "text_of p \<equiv> m_content (m_lexer p) @ [NUL]"

definition lexed :: "'f json_parser \<Rightarrow> bool" where
  "lexed p \<longleftrightarrow> m_start (m_lexer p) < m_cursor (m_lexer p) \<and> m_cursor (m_lexer p) \<le> length (text_of p) \<and>
     (last_token p \<noteq> end_of_input \<longrightarrow> m_cursor (m_lexer p) < length (text_of p)) \<and>
     (\<exists>y r. drop (m_start (m_lexer p)) (text_of p) = y # r \<and>
       scan_token (m_start (m_lexer p)) y r = Some (Inl (last_token p, m_cursor (m_lexer p))))"

definition unread :: "'f json_parser \<Rightarrow> nat" where
  "unread p = length (text_of p) - m_cursor (m_lexer p)"

definition advanced :: "'f json_parser \<Rightarrow> 'f json_parser \<Rightarrow> bool" where
  "advanced p p' \<longleftrightarrow> lexed p' \<and> m_content (m_lexer p') = m_content (m_lexer p) \<and> unread p' < unread p"

lemma advanced_trans: "advanced p q \<Longrightarrow> advanced q r \<Longrightarrow> advanced p r"
  by (simp add: advanced_def)

lemma advanced_lexed: "advanced p q \<Longrightarrow> lexed q"
  by (simp add: advanced_def)

lemma advanced_less: "advanced p q \<Longrightarrow> unread q < unread p"
  by (simp add: advanced_def)

lemma next_token_from:
  assumes "m_cursor (m_lexer p) < length (text_of p)"
  shows "\<exists>p'. next_token p = Some (Inr p') \<and> advanced p p'"
proof -
  have "ends (text_of p)" by (simp add: ends_def)
  from tok_within [OF this assms] obtain t s c y r where t: "tok (text_of p) (m_cursor (m_lexer p)) = Some (t, s, c)"
      "m_cursor (m_lexer p) \<le> s" "s < c" "c \<le> length (text_of p)"
      "t \<noteq> end_of_input \<longrightarrow> c < length (text_of p)" "drop s (text_of p) = y # r"
      "scan_token s y r = Some (Inl (t, c))" by blast
  define p' where "p' = p\<lparr>last_token := t, m_lexer := (m_lexer p)\<lparr>m_start := s, m_cursor := c\<rparr>\<rparr>"
  have "next_token p = Some (Inr p')" using t(1) by (simp add: next_token_def scan_tok p'_def)
  moreover have "advanced p p'"
    using t(2-7) assms by (auto simp: advanced_def lexed_def unread_def p'_def)
  ultimately show ?thesis by blast
qed

lemma next_token_advances:
  "lexed p \<Longrightarrow> last_token p \<noteq> end_of_input \<Longrightarrow> \<exists>p'. next_token p = Some (Inr p') \<and> advanced p p'"
  by (rule next_token_from) (simp add: lexed_def)

lemma get_string_returns:
  assumes "lexed p" and "last_token p = value_string"
  shows "\<exists>x. get_string (m_lexer p) = Some x"
proof -
  let ?s = "m_start (m_lexer p)" and ?c = "m_cursor (m_lexer p)"
  obtain y r where yr: "drop ?s (text_of p) = y # r" "scan_token ?s y r = Some (Inl (value_string, ?c))"
    using assms by (auto simp: lexed_def)
  have y: "y = CHR 0x22" by (rule string_token_first [OF yr(2)])
  obtain b r' where b: "r = b @ CHR 0x22 # r'" "string_body b" "?c = ?s + length b + 2"
    using yr(2) string_token unfolding y by blast
  have "?s \<le> length (text_of p)" using assms(1) by (simp add: lexed_def)
  then have len: "length (take ?s (text_of p)) = ?s" by (simp only: length_take min.absorb2)
  have "text_of p = (take ?s (text_of p) @ [CHR 0x22]) @ b @ CHR 0x22 # r'"
    using append_take_drop_id [of ?s "text_of p"] yr(1) y b(1) by (metis append.assoc append_Cons append_Nil)
  from get_string_body [OF b(2) this, of "m_limit (m_lexer p)" "[]"] show ?thesis
    unfolding get_string_def b(3) length_append len by simp
qed

text \<open>A parsing function returns from \<open>p\<close>: it throws, or it has read on.\<close>

definition returns :: "'f json_parser \<Rightarrow> ('a \<times> 'f json_parser) parse_result \<Rightarrow> bool" where
  "returns p r \<longleftrightarrow> (case r of None \<Rightarrow> False | Some (Inl e) \<Rightarrow> True | Some (Inr (v, p')) \<Rightarrow> advanced p p')"

lemma returns_simps [simp]:
  "\<not> returns p None" "returns p (Some (Inl e))" "returns p (Some (Inr (v, p'))) \<longleftrightarrow> advanced p p'"
  by (simp_all add: returns_def)

lemma returns_and_then:
  assumes "returns p r" and "\<And>v p'. r = Some (Inr (v, p')) \<Longrightarrow> advanced p p' \<Longrightarrow> returns p (f (v, p'))"
  shows "returns p (and_then r f)"
  using assms by (auto simp: returns_def and_then_def split: option.splits sum.splits)

lemma returns_and_then_Some:
  "(\<And>v. x = Inr v \<Longrightarrow> returns p (f v)) \<Longrightarrow> returns p (and_then (Some x) f)"
  by (cases x) auto

lemma returns_next:
  assumes "lexed q" and "last_token q \<noteq> end_of_input" and "\<And>p'. advanced q p' \<Longrightarrow> returns p (f p')"
  shows "returns p (and_then (next_token q) f)"
  using next_token_advances [OF assms(1,2)] assms(3) by auto

lemma returns_trans: "returns q r \<Longrightarrow> advanced p q \<Longrightarrow> returns p r"
  by (auto simp: returns_def intro: advanced_trans split: option.splits sum.splits)

lemma returns_expect:
  "(last_token q = t \<Longrightarrow> returns p (f ())) \<Longrightarrow> returns p (and_then (expect t q) f)"
  "(last_token q \<noteq> t \<Longrightarrow> returns p (f ())) \<Longrightarrow> returns p (and_then (unexpect t q) f)"
  by (auto simp: expect_def unexpect_def)

lemma parse_value_returns:
  assumes "lexed p"
  shows "returns p (parse_value F p)"
proof -
  obtain x where x: "last_token p = value_string \<Longrightarrow> get_string (m_lexer p) = Some x"
    using get_string_returns [OF assms] by blast
  then show ?thesis
    unfolding parse_value_def
    by (cases "last_token p")
      (auto intro!: returns_next returns_and_then_Some returns_expect assms simp: unexpect_def)
qed

text \<open>After an item, a loop reads on from there or returns.\<close>

lemma returns_more:
  assumes "advanced p p'" and "\<And>res. returns p' (f res)"
  shows "returns p (and_then (Some x) (\<lambda>res. if c then f res else Some (Inr (res, p'))))"
proof (rule returns_and_then_Some)
  show "returns p (if c then f res else Some (Inr (res, p')))" for res
    using assms(1) returns_trans [OF assms(2) assms(1)] by simp
qed

text \<open>The loops, for a parser of values that returns from everything with few characters left.\<close>

definition returns_below :: "nat \<Rightarrow> (bool \<Rightarrow> 'f json_parser \<Rightarrow> ('f json \<times> 'f json_parser) parse_result) \<Rightarrow> bool" where
  "returns_below n rec \<longleftrightarrow> (\<forall>keep p. lexed p \<longrightarrow> unread p < n \<longrightarrow> returns p (rec keep p))"

lemma returns_belowD: "returns_below n rec \<Longrightarrow> lexed p \<Longrightarrow> unread p < n \<Longrightarrow> returns p (rec keep p)"
  by (simp add: returns_below_def)

lemma skip_separator:
  assumes "lexed p" and "lexed p \<Longrightarrow> returns p (f p)" and "\<And>q. advanced p q \<Longrightarrow> returns q (f q)"
  shows "returns p (and_then (if last_token p = value_separator then next_token p else Some (Inr p)) f)"
  using assms by (auto intro!: returns_next intro: returns_trans)

lemma parse_elements_returns:
  assumes "returns_below m rec" and "lexed p" and "unread p < n" and "unread p < m"
  shows "returns p (parse_elements rec n keep result p)"
  using assms(2-)
proof (induction n arbitrary: p result)
  case (Suc n)
  have item: "returns q (and_then (rec keep q) (\<lambda>(v, p).
      and_then (Some (if keep \<and> \<not> is_discarded v then push_back result v else Inr result)) (\<lambda>result.
        if last_token p = value_separator then parse_elements rec n keep result p
        else Some (Inr (result, p)))))"
    if q: "lexed q" "unread q \<le> unread p" for q
  proof (rule returns_and_then)
    show "returns q (rec keep q)" using q Suc.prems by (intro returns_belowD [OF assms(1)]) auto
    fix v p'
    assume a: "advanced q p'"
    then have "returns p' (parse_elements rec n keep res p')" for res
      using Suc.prems q advanced_less [OF a] by (intro Suc.IH advanced_lexed [OF a]) auto
    then show "returns q (case (v, p') of (v, p) \<Rightarrow>
      and_then (Some (if keep \<and> \<not> is_discarded v then push_back result v else Inr result)) (\<lambda>result.
        if last_token p = value_separator then parse_elements rec n keep result p
        else Some (Inr (result, p))))"
      unfolding prod.case by (rule returns_more [OF a])
  qed
  show ?case unfolding parse_elements.simps
  proof (rule skip_separator [OF Suc.prems(1)])
    show "returns p (and_then (rec keep p) (\<lambda>(v, p).
      and_then (Some (if keep \<and> \<not> is_discarded v then push_back result v else Inr result)) (\<lambda>result.
        if last_token p = value_separator then parse_elements rec n keep result p
        else Some (Inr (result, p)))))" using item [of p] Suc.prems(1) by simp
    fix q assume "advanced p q"
    then show "returns q (and_then (rec keep q) (\<lambda>(v, p).
      and_then (Some (if keep \<and> \<not> is_discarded v then push_back result v else Inr result)) (\<lambda>result.
        if last_token p = value_separator then parse_elements rec n keep result p
        else Some (Inr (result, p)))))"
      by (intro item) (simp_all add: advanced_def)
  qed
qed simp

text \<open>One member of an object, behind the separator.\<close>

definition parse_member ::
    "(bool \<Rightarrow> 'f json_parser \<Rightarrow> ('f json \<times> 'f json_parser) parse_result) \<Rightarrow> nat \<Rightarrow> bool \<Rightarrow> 'f json \<Rightarrow>
     'f json_parser \<Rightarrow> ('f json \<times> 'f json_parser) parse_result" where
  "parse_member rec fuel keep result p =
     and_then (expect value_string p) (\<lambda>_.
     and_then (get_string (m_lexer p)) (\<lambda>k.
       let keep_tag = (if keep then
             (case callback p of None \<Rightarrow> True | Some cb \<Rightarrow> fst (cb (depth p) key_event (JString k)))
             else False) in
     and_then (next_token p) (\<lambda>p.
     and_then (expect name_separator p) (\<lambda>_.
     and_then (next_token p) (\<lambda>p.
     and_then (rec keep p) (\<lambda>(v, p).
     and_then (Some (if keep \<and> keep_tag \<and> \<not> is_discarded v then set_key result k v else Inr result)) (\<lambda>result.
       if last_token p = value_separator then parse_members rec fuel keep result p
       else Some (Inr (result, p)))))))))"

lemma parse_members_eq:
  "parse_members rec (Suc fuel) keep result p =
     and_then (if last_token p = value_separator then next_token p else Some (Inr p))
       (parse_member rec fuel keep result)"
  by (simp add: parse_member_def [abs_def])

lemma parse_member_returns:
  assumes rec: "returns_below m rec" and q: "lexed q" "unread q < m"
    and more: "\<And>p result. advanced q p \<Longrightarrow> returns p (parse_members rec n keep result p)"
  shows "returns q (parse_member rec n keep result q)"
  unfolding parse_member_def
proof (rule returns_expect)
  assume s: "last_token q = value_string"
  obtain x where x: "get_string (m_lexer q) = Some x" using get_string_returns [OF q(1) s] by blast
  show "returns q (and_then (get_string (m_lexer q)) (\<lambda>k.
       let keep_tag = (if keep then
             (case callback q of None \<Rightarrow> True | Some cb \<Rightarrow> fst (cb (depth q) key_event (JString k)))
             else False) in
     and_then (next_token q) (\<lambda>p.
     and_then (expect name_separator p) (\<lambda>_.
     and_then (next_token p) (\<lambda>p.
     and_then (rec keep p) (\<lambda>(v, p).
     and_then (Some (if keep \<and> keep_tag \<and> \<not> is_discarded v then set_key result k v else Inr result)) (\<lambda>result.
       if last_token p = value_separator then parse_members rec n keep result p
       else Some (Inr (result, p)))))))))"
    unfolding x Let_def
  proof (intro returns_and_then_Some returns_next [OF q(1)] returns_expect)
    fix p1 assume p1: "advanced q p1" "last_token p1 = name_separator"
    fix k
    show "returns q (and_then (next_token p1) (\<lambda>p.
     and_then (rec keep p) (\<lambda>(v, p).
     and_then (Some (if keep \<and> (if keep then
             (case callback q of None \<Rightarrow> True | Some cb \<Rightarrow> fst (cb (depth q) key_event (JString k)))
             else False) \<and> \<not> is_discarded v then set_key result k v else Inr result)) (\<lambda>result.
       if last_token p = value_separator then parse_members rec n keep result p
       else Some (Inr (result, p))))))"
    proof (rule returns_next [OF advanced_lexed [OF p1(1)]])
      show "last_token p1 \<noteq> end_of_input" using p1(2) by simp
      fix p2 assume p2: "advanced p1 p2"
      have a2: "advanced q p2" using p1(1) p2 by (rule advanced_trans)
      have "returns p2 (rec keep p2)"
        using advanced_less [OF a2] q(2) by (intro returns_belowD [OF rec] advanced_lexed [OF a2]) auto
      then have "returns q (rec keep p2)" using a2 by (rule returns_trans)
      then show "returns q (and_then (rec keep p2) (\<lambda>(v, p).
     and_then (Some (if keep \<and> (if keep then
             (case callback q of None \<Rightarrow> True | Some cb \<Rightarrow> fst (cb (depth q) key_event (JString k)))
             else False) \<and> \<not> is_discarded v then set_key result k v else Inr result)) (\<lambda>result.
       if last_token p = value_separator then parse_members rec n keep result p
       else Some (Inr (result, p)))))"
        unfolding prod.case by (rule returns_and_then) (simp only: prod.case, rule returns_more [OF _ more], assumption+)
    qed
  qed (use s in simp)
qed

lemma parse_members_returns:
  assumes "returns_below m rec" and "lexed p" and "unread p < n" and "unread p < m"
  shows "returns p (parse_members rec n keep result p)"
  using assms(2-)
proof (induction n arbitrary: p result)
  case (Suc n)
  have member: "returns q (parse_member rec n keep result q)"
    if q: "lexed q" "unread q \<le> unread p" for q
  proof (rule parse_member_returns [OF assms(1) q(1)])
    show "unread q < m" using q(2) Suc.prems(3) by simp
    fix p' result' assume a: "advanced q p'"
    show "returns p' (parse_members rec n keep result' p')"
      using Suc.prems q advanced_less [OF a] by (intro Suc.IH advanced_lexed [OF a]) auto
  qed
  show ?case unfolding parse_members_eq
    by (rule skip_separator [OF Suc.prems(1)]) (use member Suc.prems(1) in \<open>auto simp: advanced_def\<close>)
qed simp

text \<open>Starting and ending an object or an array calls the callback and leaves the lexer alone.\<close>

lemma parse_start_lexer:
  assumes "parse_start event initial keep p = (k, result, q)"
  shows "m_lexer q = m_lexer p" and "last_token q = last_token p"
  using assms by (auto simp: parse_start_def Let_def split: if_splits option.splits prod.splits)

lemma parse_end_lexer:
  "m_lexer (snd (parse_end event keep result p)) = m_lexer p"
  "last_token (snd (parse_end event keep result p)) = last_token p"
  by (simp_all add: parse_end_def Let_def split: option.split prod.split)

lemma lexed_cong:
  assumes "m_lexer q = m_lexer p" and "last_token q = last_token p"
  shows "lexed q \<longleftrightarrow> lexed p" and "unread q = unread p"
  using assms by (simp_all add: lexed_def unread_def)

lemma returns_start:
  assumes "m_lexer q = m_lexer p" and "last_token q = last_token p" and "returns q r"
  shows "returns p r"
  using assms by (auto simp: returns_def advanced_def lexed_cong [OF assms(1,2)] split: option.splits sum.splits)

lemma returns_end: "advanced q p \<Longrightarrow> returns q (Some (Inr (parse_end event keep result p)))"
  using lexed_cong [of "snd (parse_end event keep result p)" p] parse_end_lexer [of event keep result p]
  by (cases "parse_end event keep result p") (simp add: advanced_def)

text \<open>An object or an array behind its opening bracket: the loop, the closing bracket, the end.\<close>

lemma returns_bracketed:
  assumes q: "lexed q" "last_token q \<noteq> end_of_input" and t: "t \<noteq> end_of_input"
    and loop: "\<And>p. advanced q p \<Longrightarrow> returns p (loop p)"
  shows "returns q (and_then (next_token q) (\<lambda>p.
       if last_token p = t then
         and_then (next_token p) (\<lambda>p. Some (Inr (parse_end event keep0 result p)))
       else
         and_then (unexpect value_separator p) (\<lambda>_.
         and_then (loop p) (\<lambda>(result, p).
         and_then (expect t p) (\<lambda>_.
         and_then (next_token p) (\<lambda>p. Some (Inr (parse_end event keep result p))))))))"
proof (rule returns_next [OF q])
  fix p assume p: "advanced q p"
  have close: "returns q (and_then (next_token p') (\<lambda>p. Some (Inr (parse_end event k res p))))"
    if "advanced q p'" "last_token p' = t" for p' k res
  proof (rule returns_next [OF advanced_lexed [OF that(1)]])
    show "last_token p' \<noteq> end_of_input" using that(2) t by simp
    show "returns q (Some (Inr (parse_end event k res r)))" if "advanced p' r" for r
      by (rule returns_end [OF advanced_trans [OF \<open>advanced q p'\<close> that]])
  qed
  have "returns q (and_then (loop p) (\<lambda>(result, p).
      and_then (expect t p) (\<lambda>_.
      and_then (next_token p) (\<lambda>p. Some (Inr (parse_end event keep result p))))))"
  proof (rule returns_and_then [OF returns_trans [OF loop [OF p] p]], unfold prod.case)
    show "returns q (and_then (expect t p') (\<lambda>_.
        and_then (next_token p') (\<lambda>p. Some (Inr (parse_end event keep v p)))))"
      if "advanced q p'" for v p'
      by (rule returns_expect, rule close [OF that])
  qed
  then show "returns q (if last_token p = t then
         and_then (next_token p) (\<lambda>p. Some (Inr (parse_end event keep0 result p)))
       else
         and_then (unexpect value_separator p) (\<lambda>_.
         and_then (loop p) (\<lambda>(result, p).
         and_then (expect t p) (\<lambda>_.
         and_then (next_token p) (\<lambda>p. Some (Inr (parse_end event keep result p)))))))"
    by (cases "last_token p = t") (simp_all only: if_True if_False simp_thms close [OF p] returns_expect(2))
qed

lemma parse_object_returns:
  assumes "returns_below n rec" and "lexed p" and "last_token p = begin_object" and "unread p \<le> n"
  shows "returns p (parse_object rec n keep p)"
proof -
  obtain k result q where s: "parse_start object_start (JObject []) keep p = (k, result, q)"
    by (cases "parse_start object_start (JObject []) keep p") auto
  note same = parse_start_lexer [OF s]
  show ?thesis
    unfolding parse_object_def s Let_def prod.case
    by (rule returns_start [OF same], rule returns_bracketed)
      (use assms same lexed_cong [OF same] in \<open>auto dest: advanced_less advanced_lexed intro!: parse_members_returns\<close>)
qed

lemma parse_array_returns:
  assumes "returns_below n rec" and "lexed p" and "last_token p = begin_array" and "unread p \<le> n"
  shows "returns p (parse_array rec n keep p)"
proof -
  obtain k result q where s: "parse_start array_start (JArray []) keep p = (k, result, q)"
    by (cases "parse_start array_start (JArray []) keep p") auto
  note same = parse_start_lexer [OF s]
  show ?thesis
    unfolding parse_array_def s Let_def prod.case
    by (rule returns_start [OF same], rule returns_bracketed)
      (use assms same lexed_cong [OF same] in \<open>auto dest: advanced_less advanced_lexed intro!: parse_elements_returns\<close>)
qed

lemma returns_value_event:
  assumes "lexed p"
  shows "returns p (and_then (parse_value F p) (\<lambda>(result, p).
       if keep then (case callback p of
           None \<Rightarrow> Some (Inr (result, p))
         | Some cb \<Rightarrow> (let (kept, result) = cb (depth p) value_event result
                      in Some (Inr (if kept then result else JDiscarded, p))))
       else Some (Inr (result, p))))"
  by (rule returns_and_then [OF parse_value_returns [OF assms]])
    (auto simp: Let_def split: option.splits prod.splits)

lemma parse_internal_returns: "returns_below n (parse_internal F n)"
proof (induction n)
  case 0
  show ?case by (simp add: returns_below_def)
next
  case (Suc n)
  have "returns p (parse_internal F (Suc n) keep p)" if p: "lexed p" "unread p < Suc n" for keep p
    using parse_object_returns [OF Suc p(1)] parse_array_returns [OF Suc p(1)] returns_value_event [OF p(1)] p(2)
    by (cases "last_token p") simp_all
  then show ?case by (simp add: returns_below_def)
qed

lemma parse_returns: "\<exists>r. parse F s cb = Some r"
proof -
  let ?p0 = "\<lparr>depth = 0, callback = cb, last_token = uninitialized, m_lexer = lexer_of s\<rparr>"
  have "m_cursor (m_lexer ?p0) < length (text_of ?p0)" by (simp add: lexer_of_def)
  then obtain p where p: "next_token ?p0 = Some (Inr p)" "advanced ?p0 p" by (metis next_token_from)
  have c: "m_content (m_lexer p) = s" using p(2) by (simp add: advanced_def lexer_of_def)
  have "unread p < length s + 2" using advanced_less [OF p(2)] by (simp add: unread_def lexer_of_def)
  then have "returns p (parse_internal F (length s + 2) True p)"
    by (rule returns_belowD [OF parse_internal_returns advanced_lexed [OF p(2)]])
  moreover have "parse F s cb = parser_parse F p" by (simp add: parse_def parser_of_def p(1))
  ultimately show ?thesis
    unfolding parser_parse_def c returns_def
    by (auto simp: expect_def simp del: parse_internal.simps split: option.splits sum.splits)
qed

text \<open>
  C7: the parser always returns: on every text and with every callback, the fuel of the model is
  enough, no function reads behind the end of the text, and the result is a value or an exception.
\<close>

theorem parse_total: "\<exists>r. parse F s cb = Some r"
  by (rule parse_returns)

text \<open>
  The scanner accepts as a string, behind its opening quote, exactly the bodies of the grammar
  \<open>string_body\<close> up to the first quote that no backslash protects: a backslash is followed by one
  of the letters of the escapes or by \<open>u\<close> and four hexadecimal digits, and the token ends behind
  the closing quote.
\<close>

theorem string_token_grammar:
  "scan_token q (CHR 0x22) r = Some (Inl (value_string, c)) \<longleftrightarrow>
    (\<exists>s r'. r = s @ CHR 0x22 # r' \<and> string_body s \<and> c = q + length s + 2)"
  by (rule string_token)

lemma escape_char_body: "string_body s \<Longrightarrow> string_body (escape_char c @ s)"
proof -
  assume s: "string_body s"
  have hex: "is_hex (hexify (code c div 16))" "is_hex (hexify (code c mod 16))" if "code c \<le> 0x1F"
    using that by (auto simp: is_hex_def hexify_def)
  consider "c \<in> {CHR 0x22, CHR 0x5C, CHR 0x08, CHR 0x0C, CHR 0x0A, CHR 0x0D, CHR 0x09}"
    | "c \<notin> {CHR 0x22, CHR 0x5C, CHR 0x08, CHR 0x0C, CHR 0x0A, CHR 0x0D, CHR 0x09}" "code c \<le> 0x1F"
    | "c \<notin> {CHR 0x22, CHR 0x5C, CHR 0x08, CHR 0x0C, CHR 0x0A, CHR 0x0D, CHR 0x09}" "\<not> code c \<le> 0x1F"
    by blast
  then show ?thesis
  proof cases
    case 1
    then obtain d where "escape_char c = [CHR 0x5C, d]" "d \<in> escape_letters"
      by (auto simp: escape_char_def escape_letters_def)
    then show ?thesis using string_body.escape [OF _ s, of d] by simp
  next
    case 2
    then have "escape_char c =
        [CHR 0x5C, CHR ''u'', CHR ''0'', CHR ''0'', hexify (code c div 16), hexify (code c mod 16)]"
      by (simp add: escape_char_def)
    moreover have "is_hex (CHR ''0'')" by (simp add: is_hex_def)
    ultimately show ?thesis using string_body.unicode [of "CHR ''0''" "CHR ''0''"] hex [OF 2(2)] s by simp
  next
    case 3
    then have "escape_char c = [c]" by (simp add: escape_char_def)
    then show ?thesis using 3 string_body.plain_char [OF _ _ _ s, of c] by simp
  qed
qed

text \<open>
  C32: the buffer that \<open>escape_string\<close> fills is just large enough, the result is every character
  escaped on its own, and between quotes the scanner takes it as one string token, whatever the
  string and whatever follows.
\<close>

theorem escaped_string_is_token:
  "escape_string s = concat (map escape_char s) \<and> length (escape_string s) = length s + extra_space s \<and>
    scan_token q (CHR 0x22) (escape_string s @ CHR 0x22 # r)
      = Some (Inl (value_string, q + length s + extra_space s + 2))"
proof -
  have "string_body (concat (map escape_char s))"
    by (induction s) (auto intro: string_body.empty escape_char_body)
  then show ?thesis
    by (auto simp: escape_string_concat extra_space_length string_token)
qed

end
