(* ===== verification/Json_Grammar.thy ===== *)
theory Json_Grammar
  imports Json_Safe
begin

text \<open>
  A grammar of JSON texts with their values, given apart from the scanner and the parser: what
  may stand between tokens, strings, numbers, and values.  The rules describe a prefix: a text
  \<open>s\<close> begins with a value and \<open>r\<close> is what follows it.  In two ways it is wider than the standard:
  a byte order mark may stand wherever white space may, and strings may hold the control
  characters from 0x10 on.
\<close>

section \<open>Between tokens\<close>

abbreviation BOM :: "char list" where
  "BOM \<equiv> [CHR 0xEF, CHR 0xBB, CHR 0xBF]"

inductive gap :: "char list \<Rightarrow> char list \<Rightarrow> bool" where
  none: "gap s s"
| white: "is_white c \<Longrightarrow> gap s r \<Longrightarrow> gap (c # s) r"
| mark: "gap s r \<Longrightarrow> gap (BOM @ s) r"

lemma gap_white: "\<forall>c \<in> set w. is_white c \<Longrightarrow> gap s r \<Longrightarrow> gap (w @ s) r"
  by (induction w) (auto intro: gap.white)

lemma gap_mark: "gap s r \<Longrightarrow> gap (CHR 0xEF # CHR 0xBB # CHR 0xBF # s) r"
  using gap.mark by simp

lemma gap_trans: "gap s r \<Longrightarrow> gap r t \<Longrightarrow> gap s t"
  by (induction rule: gap.induct) (auto intro: gap.intros gap_mark)

lemma gap_length: "gap s r \<Longrightarrow> length r \<le> length s"
  by (induction rule: gap.induct) auto

text \<open>What may follow a value.\<close>

definition follows :: "char list \<Rightarrow> bool" where
  "follows r \<longleftrightarrow> (\<exists>c r'. r = c # r' \<and> (is_white c \<or> c \<in> {CHR '','', CHR '']'', CHR ''}'', NUL, CHR 0xEF}))"

lemma follows_gap: "gap s (c # r) \<Longrightarrow> c \<in> {CHR '','', CHR '']'', CHR ''}'', NUL} \<Longrightarrow> follows s"
  by (cases rule: gap.cases) (auto simp: follows_def)

section \<open>Strings\<close>

text \<open>
  What an escape stands for, by the standard (RFC 8259), and the bytes of a code point in UTF-8.  A
  low surrogate on its own, which the standard leaves open, is written as other code points are.
\<close>

definition escapes :: "(char \<times> char) list" where
  "escapes = [(CHR 0x22, CHR 0x22), (CHR 0x5C, CHR 0x5C), (CHR ''/'', CHR ''/''), (CHR ''b'', CHR 0x08),
     (CHR ''f'', CHR 0x0C), (CHR ''n'', CHR 0x0A), (CHR ''r'', CHR 0x0D), (CHR ''t'', CHR 0x09)]"

definition hex_digits :: "(char \<times> nat) list" where
  "hex_digits = zip ''0123456789abcdef'' [0..<16] @ zip ''ABCDEF'' [10..<16]"

definition code_unit :: "char list \<Rightarrow> nat \<Rightarrow> bool" where
  "code_unit cs n \<longleftrightarrow> length cs = 4 \<and>
     (\<exists>ks. list_all2 (\<lambda>c k. (c, k) \<in> set hex_digits) cs ks \<and> n = foldl (\<lambda>m k. m * 16 + k) 0 ks)"

definition utf8_encode :: "nat \<Rightarrow> char list" where
  "utf8_encode n = map char_of
     (if n < 0x80 then [n]
      else if n < 0x800 then [0xC0 + n div 0x40, 0x80 + n mod 0x40]
      else if n < 0x10000 then [0xE0 + n div 0x1000, 0x80 + n div 0x40 mod 0x40, 0x80 + n mod 0x40]
      else [0xF0 + n div 0x40000, 0x80 + n div 0x1000 mod 0x40, 0x80 + n div 0x40 mod 0x40, 0x80 + n mod 0x40])"

inductive string_means :: "char list \<Rightarrow> char list \<Rightarrow> bool" where
  empty: "string_means [] []"
| plain_char: "0x10 \<le> code c \<Longrightarrow> c \<noteq> CHR 0x22 \<Longrightarrow> c \<noteq> CHR 0x5C \<Longrightarrow> string_means s v \<Longrightarrow>
    string_means (c # s) (c # v)"
| escape: "(d, c) \<in> set escapes \<Longrightarrow> string_means s v \<Longrightarrow> string_means (CHR 0x5C # d # s) (c # v)"
| unicode: "code_unit [a, b, c, d] n \<Longrightarrow> \<not> (0xD800 \<le> n \<and> n < 0xDC00) \<Longrightarrow>
    string_means s v \<Longrightarrow> string_means (CHR 0x5C # CHR ''u'' # a # b # c # d # s) (utf8_encode n @ v)"
| surrogates: "code_unit [a, b, c, d] m \<Longrightarrow> 0xD800 \<le> m \<Longrightarrow> m < 0xDC00 \<Longrightarrow>
    code_unit [a', b', c', d'] n \<Longrightarrow> 0xDC00 \<le> n \<Longrightarrow> n < 0xE000 \<Longrightarrow> string_means s v \<Longrightarrow>
    string_means (CHR 0x5C # CHR ''u'' # a # b # c # d # CHR 0x5C # CHR ''u'' # a' # b' # c' # d' # s)
      (utf8_encode (0x10000 + (m - 0xD800) * 0x400 + (n - 0xDC00)) @ v)"

lemma escapes_letters: "(d, c) \<in> set escapes \<longleftrightarrow> d \<in> escape_letters \<and> simple_escape d = [c]"
  by (auto simp: escapes_def escape_letters_def simple_escape_def)

lemma hex_digits_value: "(c, k) \<in> set hex_digits \<longleftrightarrow> is_hex c \<and> k = unat (hex_value c)"
proof
  assume "(c, k) \<in> set hex_digits"
  then show "is_hex c \<and> k = unat (hex_value c)"
    by (auto simp: hex_digits_def upt_rec is_hex_def hex_value_def)
next
  have "\<forall>c. is_hex c \<longrightarrow> (c, unat (hex_value c)) \<in> set hex_digits" by code_simp
  then show "is_hex c \<and> k = unat (hex_value c) \<Longrightarrow> (c, k) \<in> set hex_digits" by blast
qed

lemma code_unit_value:
  "code_unit [a, b, c, d] n \<longleftrightarrow> list_all is_hex [a, b, c, d] \<and> n = unat (strtoul_hex [a, b, c, d])"
proof -
  have bound: "unat (hex_value x) < 16" if "is_hex x" for x
    using that hex_digits_value [of x "unat (hex_value x)"] by (auto simp: hex_digits_def upt_rec)
  have sum: "((unat (hex_value a) * 16 + unat (hex_value b)) * 16 + unat (hex_value c)) * 16 + unat (hex_value d) =
      unat (strtoul_hex [a, b, c, d])" if "list_all is_hex [a, b, c, d]"
  proof -
    let ?n = "((unat (hex_value a) * 16 + unat (hex_value b)) * 16 + unat (hex_value c)) * 16 + unat (hex_value d)"
    have "?n < 2 ^ 64" using that bound [of a] bound [of b] bound [of c] bound [of d] by simp
    moreover have "of_nat ?n = strtoul_hex [a, b, c, d]" using that by (simp add: strtoul_hex_def)
    ultimately show ?thesis using unat_of_nat_64 by metis
  qed
  have "code_unit [a, b, c, d] n \<longleftrightarrow> list_all is_hex [a, b, c, d] \<and>
      n = ((unat (hex_value a) * 16 + unat (hex_value b)) * 16 + unat (hex_value c)) * 16 + unat (hex_value d)"
    by (auto simp: code_unit_def list_all2_Cons1 hex_digits_value)
  with sum show ?thesis by auto
qed

lemma string_means_body: "string_means s v \<Longrightarrow> string_body s"
proof (induction rule: string_means.induct)
  case (surrogates a b c d m a' b' c' d' n s v)
  note hex = surrogates(1,4) [unfolded code_unit_value, simplified]
  have "string_body (CHR 0x5C # CHR ''u'' # a' # b' # c' # d' # s)"
    by (rule string_body.unicode) (simp_all add: hex surrogates)
  then show ?case by (rule string_body.unicode [rotated 4]) (simp_all add: hex)
qed (auto simp: escapes_letters code_unit_value intro: string_body.intros)

section \<open>Numbers\<close>

definition digits :: "char list \<Rightarrow> bool" where
  "digits ds \<longleftrightarrow> ds \<noteq> [] \<and> list_all is_digit ds"

definition int_part :: "char list \<Rightarrow> bool" where
  "int_part ds \<longleftrightarrow> digits ds \<and> (ds = ''0'' \<or> hd ds \<noteq> CHR ''0'')"

definition fraction :: "char list \<Rightarrow> bool" where
  "fraction f \<longleftrightarrow> f = [] \<or> (\<exists>ds. f = CHR ''.'' # ds \<and> digits ds)"

definition exponent :: "char list \<Rightarrow> bool" where
  "exponent e \<longleftrightarrow> e = [] \<or>
     (\<exists>c sg ds. e = c # sg @ ds \<and> c \<in> {CHR ''e'', CHR ''E''} \<and> sg \<in> {'''', ''+'', ''-''} \<and> digits ds)"

definition number_text :: "char list \<Rightarrow> bool" where
  "number_text s \<longleftrightarrow> (\<exists>sign ip f e. s = sign @ ip @ f @ e \<and> sign \<in> {'''', ''-''} \<and>
     int_part ip \<and> fraction f \<and> exponent e)"

text \<open>A whole number that fits into 64 bits is an integer, and any other number a \<open>double\<close>.\<close>

definition double_of :: "'f float_ops \<Rightarrow> char list \<Rightarrow> 'f" where
  "double_of F s = fst (f_strtod F (s @ [NUL]))"

definition number_value :: "'f float_ops \<Rightarrow> char list \<Rightarrow> 'f json" where
  "number_value F s =
     (if list_all is_digit s \<and> digits_value s < 2 ^ 64 then JUnsigned (word_of_int (digits_value s))
      else if hd s = CHR ''-'' \<and> list_all is_digit (tl s) \<and> digits_value (tl s) \<le> 2 ^ 63
      then JInteger (word_of_int (- digits_value (tl s)))
      else JFloat (double_of F s))"

text \<open>What the parser relies on of \<open>strtod\<close>: it reads a number up to what may follow it.\<close>

definition strtod_reads :: "'f float_ops \<Rightarrow> bool" where
  "strtod_reads F \<longleftrightarrow> (\<forall>s r. number_text s \<longrightarrow> follows r \<longrightarrow> f_strtod F (s @ r) = (double_of F s, length s))"

section \<open>Values\<close>

text \<open>Of two members with one key the last one counts.\<close>

definition object_of :: "(char list \<times> 'f json) list \<Rightarrow> (char list \<times> 'f json) list \<Rightarrow> (char list \<times> 'f json) list" where
  "object_of ms acc = fold (\<lambda>(k, v). map_assign k v) ms acc"

inductive value_text :: "'f float_ops \<Rightarrow> 'f json \<Rightarrow> char list \<Rightarrow> char list \<Rightarrow> bool"
  and elements_text :: "'f float_ops \<Rightarrow> 'f json list \<Rightarrow> char list \<Rightarrow> char list \<Rightarrow> bool"
  and members_text :: "'f float_ops \<Rightarrow> (char list \<times> 'f json) list \<Rightarrow> char list \<Rightarrow> char list \<Rightarrow> bool"
  for F :: "'f float_ops" where
  null: "value_text F JNull (''null'' @ r) r"
| boolean: "value_text F (JBoolean b) ((if b then ''true'' else ''false'') @ r) r"
| string: "string_means b v \<Longrightarrow> value_text F (JString v) (CHR 0x22 # b @ CHR 0x22 # r) r"
| number: "number_text ds \<Longrightarrow> value_text F (number_value F ds) (ds @ r) r"
| empty_array: "gap s (CHR '']'' # r) \<Longrightarrow> value_text F (JArray []) (CHR ''['' # s) r"
| array: "elements_text F vs s (CHR '']'' # r) \<Longrightarrow> value_text F (JArray vs) (CHR ''['' # s) r"
| empty_object: "gap s (CHR ''}'' # r) \<Longrightarrow> value_text F (JObject []) (CHR ''{'' # s) r"
| object: "members_text F ms s (CHR ''}'' # r) \<Longrightarrow> value_text F (JObject (object_of ms [])) (CHR ''{'' # s) r"
| last_element: "gap s s1 \<Longrightarrow> value_text F v s1 s2 \<Longrightarrow> gap s2 r \<Longrightarrow> elements_text F [v] s r"
| next_element: "gap s s1 \<Longrightarrow> value_text F v s1 s2 \<Longrightarrow> gap s2 (CHR '','' # s3) \<Longrightarrow>
    elements_text F vs s3 r \<Longrightarrow> elements_text F (v # vs) s r"
| last_member: "gap s (CHR 0x22 # b @ CHR 0x22 # s1) \<Longrightarrow> string_means b k \<Longrightarrow> gap s1 (CHR '':'' # s2) \<Longrightarrow>
    gap s2 s3 \<Longrightarrow> value_text F v s3 s4 \<Longrightarrow> gap s4 r \<Longrightarrow> members_text F [(k, v)] s r"
| next_member: "gap s (CHR 0x22 # b @ CHR 0x22 # s1) \<Longrightarrow> string_means b k \<Longrightarrow> gap s1 (CHR '':'' # s2) \<Longrightarrow>
    gap s2 s3 \<Longrightarrow> value_text F v s3 s4 \<Longrightarrow> gap s4 (CHR '','' # s5) \<Longrightarrow> members_text F ms s5 r \<Longrightarrow>
    members_text F ((k, v) # ms) s r"

text \<open>A whole text is a value; the parser takes a NUL inside of the text for its end.\<close>

inductive json_text :: "'f float_ops \<Rightarrow> 'f json \<Rightarrow> char list \<Rightarrow> bool" for F where
  json_text: "gap (s @ [NUL]) s1 \<Longrightarrow> value_text F v s1 s2 \<Longrightarrow> gap s2 (NUL # r) \<Longrightarrow> json_text F v s"

end
