(* ===== verification/Json_Laws.thy ===== *)
theory Json_Laws
  imports Json_Parser Json_Dump
begin

text \<open>
  Laws of the operations on JSON values: the members of an object are a map (the contract of
  \<open>std::map\<close> is a locale), lists that look like objects become objects, the order of values
  and where it fails, and the UTF-8 encoding of escapes.
\<close>

section \<open>Objects as maps\<close>

text \<open>
  What the class relies on of \<open>std::map\<close>: \<open>insert\<close> keeps an old member, assignment replaces it,
  \<open>erase\<close> removes it, and all keep the invariant of the container.
\<close>

locale key_map =
  fixes lookup :: "'m \<Rightarrow> 'k \<Rightarrow> 'v option"
    and insert :: "'k \<Rightarrow> 'v \<Rightarrow> 'm \<Rightarrow> 'm"
    and assign :: "'k \<Rightarrow> 'v \<Rightarrow> 'm \<Rightarrow> 'm"
    and erase :: "'k \<Rightarrow> 'm \<Rightarrow> 'm"
    and ok :: "'m \<Rightarrow> bool"
  assumes insert_lookup: "ok m \<Longrightarrow> lookup (insert k v m) = (if lookup m k = None then (lookup m)(k \<mapsto> v) else lookup m)"
    and assign_lookup: "ok m \<Longrightarrow> lookup (assign k v m) = (lookup m)(k \<mapsto> v)"
    and erase_lookup: "ok m \<Longrightarrow> lookup (erase k m) = (lookup m)(k := None)"
    and insert_ok: "ok m \<Longrightarrow> ok (insert k v m)"
    and assign_ok: "ok m \<Longrightarrow> ok (assign k v m)"
    and erase_ok: "ok m \<Longrightarrow> ok (erase k m)"
begin

lemma insert_found: "ok m \<Longrightarrow> lookup (insert k v m) k = Some (case lookup m k of None \<Rightarrow> v | Some u \<Rightarrow> u)"
  by (auto simp: insert_lookup split: option.split)

text \<open>Inserting a list of members: of two with one key the first stays.\<close>

lemma insert_all:
  assumes "ok m"
  shows "ok (fold (\<lambda>(k, v). insert k v) kvs m) \<and>
    lookup (fold (\<lambda>(k, v). insert k v) kvs m) = map_of kvs ++ lookup m"
  using assms
proof (induction kvs arbitrary: m)
  case (Cons e kvs)
  then show ?case
    by (cases e) (auto simp: insert_ok insert_lookup fun_eq_iff map_add_def split: option.split)
qed simp

lemma erase_insert: "ok m \<Longrightarrow> lookup m k = None \<Longrightarrow> lookup (erase k (insert k v m)) = lookup m"
  by (auto simp: insert_ok insert_lookup erase_lookup fun_eq_iff)

end

lemma map_ok_Cons [simp]: "map_ok (e # kvs) \<longleftrightarrow> (\<forall>e' \<in> set kvs. fst e < fst e') \<and> map_ok kvs"
  by (simp add: map_ok_def)

lemma map_ok_Nil [simp]: "map_ok []"
  by (simp add: map_ok_def)

lemma map_of_below: "\<forall>e \<in> set kvs. k < fst e \<Longrightarrow> map_of kvs (k :: char list) = None"
  by (induction kvs) auto

lemma set_map_insert: "set (map_insert k v kvs) \<subseteq> insert (k, v) (set kvs)"
  by (induction k v kvs rule: map_insert.induct) auto

lemma set_map_assign: "set (map_assign k v kvs) \<subseteq> insert (k, v) (set kvs)"
  by (induction k v kvs rule: map_assign.induct) auto

lemma map_insert_ok: "map_ok kvs \<Longrightarrow> map_ok (map_insert k v kvs)"
proof (induction k v kvs rule: map_insert.induct)
  case (2 k v k' v' kvs)
  then show ?case using set_map_insert [of k v kvs] by (auto intro: less_trans)
qed simp

lemma map_assign_ok: "map_ok kvs \<Longrightarrow> map_ok (map_assign k v kvs)"
proof (induction k v kvs rule: map_assign.induct)
  case (2 k v k' v' kvs)
  then show ?case using set_map_assign [of k v kvs] by (auto intro: less_trans)
qed simp

lemma map_erase_ok: "map_ok kvs \<Longrightarrow> map_ok (map_erase k kvs)"
  by (induction kvs) (auto simp: map_erase_def)

lemma map_insert_lookup:
  "map_ok kvs \<Longrightarrow> map_of (map_insert k v kvs) = (if map_of kvs k = None then (map_of kvs)(k \<mapsto> v) else map_of kvs)"
proof (induction k v kvs rule: map_insert.induct)
  case (2 k v k' v' kvs)
  then have "k < k' \<Longrightarrow> map_of kvs k = None" by (intro map_of_below) (auto intro: less_trans)
  with 2 show ?case by (auto simp: fun_eq_iff)
qed auto

lemma map_assign_lookup: "map_ok kvs \<Longrightarrow> map_of (map_assign k v kvs) = (map_of kvs)(k \<mapsto> v)"
  by (induction k v kvs rule: map_assign.induct) (auto simp: fun_eq_iff)

lemma map_erase_lookup: "map_of (map_erase k kvs) = (map_of kvs)(k := None)"
  by (induction kvs) (auto simp: map_erase_def fun_eq_iff)

interpretation std_map: key_map map_of map_insert map_assign map_erase map_ok
  by unfold_locales
    (simp_all add: map_insert_lookup map_assign_lookup map_erase_lookup map_insert_ok map_assign_ok map_erase_ok)

lemma filter_key_count:
  "map_ok kvs \<Longrightarrow> length (filter (\<lambda>e. fst e = k) kvs) = (if map_of kvs k = None then 0 else 1)"
proof (induction kvs)
  case (Cons e kvs)
  then show ?case using map_of_below [of kvs "fst e"] by auto
qed simp

text \<open>
  C27: the operations of an object are those of a map from keys to values, and keep its members
  sorted: \<open>operator[]\<close> gives the member, null if it had to be added; \<open>push_back\<close> of a pair keeps
  an old member; the assignment of the parser replaces it; \<open>erase\<close> removes it and counts what it
  removed; \<open>at\<close>, \<open>value\<close> and \<open>count\<close> read it.
\<close>

theorem objects_are_maps:
  assumes "map_ok kvs"
  shows "(\<exists>ms. subscript_key (JObject kvs) k = Inr (JObject ms, case map_of kvs k of None \<Rightarrow> JNull | Some u \<Rightarrow> u) \<and>
      map_ok ms \<and> map_of ms = (if map_of kvs k = None then (map_of kvs)(k \<mapsto> JNull) else map_of kvs)) \<and>
    (\<exists>ms. push_back_member (JObject kvs) (k, v) = Inr (JObject ms) \<and>
      map_ok ms \<and> map_of ms = (if map_of kvs k = None then (map_of kvs)(k \<mapsto> v) else map_of kvs)) \<and>
    (\<exists>ms. set_key (JObject kvs) k v = Inr (JObject ms) \<and> map_ok ms \<and> map_of ms = (map_of kvs)(k \<mapsto> v)) \<and>
    (\<exists>ms. erase_key (JObject kvs) k = Inr (json_count (JObject kvs) k, JObject ms) \<and>
      map_ok ms \<and> map_of ms = (map_of kvs)(k := None)) \<and>
    json_count (JObject kvs) k = (if map_of kvs k = None then 0 else 1) \<and>
    value_or (JObject kvs) k v = Inr (case at_key (JObject kvs) k of Inl _ \<Rightarrow> v | Inr u \<Rightarrow> u)"
proof (intro conjI)
  have ok: "map_ok (map_insert k JNull kvs)" by (rule std_map.insert_ok [OF assms])
  show "\<exists>ms. subscript_key (JObject kvs) k = Inr (JObject ms, case map_of kvs k of None \<Rightarrow> JNull | Some u \<Rightarrow> u) \<and>
      map_ok ms \<and> map_of ms = (if map_of kvs k = None then (map_of kvs)(k \<mapsto> JNull) else map_of kvs)"
    using ok std_map.insert_found [OF assms, of k JNull] std_map.insert_lookup [OF assms, of k JNull]
    by (simp add: subscript_key_def is_null_def Let_def split: option.splits)
  show "\<exists>ms. push_back_member (JObject kvs) (k, v) = Inr (JObject ms) \<and>
      map_ok ms \<and> map_of ms = (if map_of kvs k = None then (map_of kvs)(k \<mapsto> v) else map_of kvs)"
    using std_map.insert_ok [OF assms] std_map.insert_lookup [OF assms]
    by (simp add: push_back_member_def is_null_def is_object_def)
  show "\<exists>ms. set_key (JObject kvs) k v = Inr (JObject ms) \<and> map_ok ms \<and> map_of ms = (map_of kvs)(k \<mapsto> v)"
    using std_map.assign_ok [OF ok] std_map.assign_lookup [OF ok] std_map.insert_lookup [OF assms, of k JNull]
    by (simp add: set_key_def subscript_key_def is_null_def Let_def fun_eq_iff)
  show "\<exists>ms. erase_key (JObject kvs) k = Inr (json_count (JObject kvs) k, JObject ms) \<and>
      map_ok ms \<and> map_of ms = (map_of kvs)(k := None)"
    using std_map.erase_ok [OF assms] std_map.erase_lookup [OF assms] by (simp add: erase_key_def json_count_def)
  show "json_count (JObject kvs) k = (if map_of kvs k = None then 0 else 1)"
    by (simp add: json_count_def filter_key_count [OF assms])
  show "value_or (JObject kvs) k v = Inr (case at_key (JObject kvs) k of Inl _ \<Rightarrow> v | Inr u \<Rightarrow> u)"
    by (simp add: value_or_def at_key_def split: option.split)
qed

lemma objects_are_maps_witness:
  "\<exists>ms. set_key (JObject [(''a'', JNull), (''c'', JNull)]) ''b'' (JBoolean True) = Inr (JObject ms) \<and>
    map_ok ms \<and> map_of ms ''b'' = Some (JBoolean True) \<and> map_of ms ''c'' = Some (JNull :: int json)"
proof -
  have "map_ok [(''a'', JNull :: int json), (''c'', JNull)]" by code_simp
  from objects_are_maps [OF this, of "''b''" "JBoolean True"] show ?thesis by auto
qed

section \<open>Lists that look like objects\<close>

fun pair_of :: "'f json \<Rightarrow> char list \<times> 'f json" where
  "pair_of (JArray [JString k, v]) = (k, v)"
| "pair_of j = ([], j)"

lemma is_pairE:
  assumes "is_pair e"
  obtains k v where "e = JArray [JString k, v]"
proof (cases e)
  case (JArray xs)
  with assms that show ?thesis
    by (cases xs; cases "hd xs"; cases "tl xs"; cases "tl (tl xs)") (auto simp: is_pair_def)
qed (use assms in \<open>simp_all add: is_pair_def\<close>)

lemma emplace_pairs_fold:
  "list_all is_pair es \<Longrightarrow> emplace_pairs es kvs = fold (\<lambda>(k, v). map_insert k v) (map pair_of es) kvs"
  by (induction es arbitrary: kvs) (auto elim!: is_pairE)



section \<open>The order of values\<close>

text \<open>Values without unsigned or floating-point numbers.\<close>

fun ordinary :: "'f json \<Rightarrow> bool" where
  "ordinary (JArray xs) = list_all ordinary xs"
| "ordinary (JObject kvs) = list_all (\<lambda>e. ordinary (snd e)) kvs"
| "ordinary (JUnsigned n) = False"
| "ordinary (JFloat x) = False"
| "ordinary JDiscarded = False"
| "ordinary j = True"

lemma lex_less_irrefl: "(\<And>x. x \<in> set xs \<Longrightarrow> \<not> lt x x) \<Longrightarrow> \<not> lex_less lt xs xs"
  by (induction xs) auto

lemma lex_less_total:
  assumes "\<And>x y. x \<in> set xs \<Longrightarrow> y \<in> set ys \<Longrightarrow> x = y \<or> lt x y \<or> lt y x"
    and "\<And>x. x \<in> set xs \<union> set ys \<Longrightarrow> \<not> lt x x"
  shows "xs = ys \<or> lex_less lt xs ys \<or> lex_less lt ys xs"
  using assms
proof (induction xs arbitrary: ys)
  case Nil
  then show ?case by (cases ys) auto
next
  case (Cons x xs)
  show ?case
  proof (cases ys)
    case (Cons y zs)
    have "xs = zs \<or> lex_less lt xs zs \<or> lex_less lt zs xs"
      by (rule Cons.IH) (use Cons.prems Cons in auto)
    moreover have "x = y \<or> lt x y \<or> lt y x" "\<not> lt x x" using Cons.prems Cons by auto
    ultimately show ?thesis using Cons by auto
  qed simp
qed

text \<open>A strict order on what a predicate selects.\<close>

definition strict_on :: "('a \<Rightarrow> bool) \<Rightarrow> ('a \<Rightarrow> 'a \<Rightarrow> bool) \<Rightarrow> bool" where
  "strict_on P lt \<longleftrightarrow> (\<forall>x. P x \<longrightarrow> \<not> lt x x) \<and> (\<forall>x y. P x \<longrightarrow> P y \<longrightarrow> x = y \<or> lt x y \<or> lt y x) \<and>
     (\<forall>x y z. P x \<longrightarrow> P y \<longrightarrow> P z \<longrightarrow> lt x y \<longrightarrow> lt y z \<longrightarrow> lt x z)"

lemma strict_onD:
  assumes "strict_on P lt"
  shows "P x \<Longrightarrow> \<not> lt x x" and "P x \<Longrightarrow> P y \<Longrightarrow> x = y \<or> lt x y \<or> lt y x"
    and "P x \<Longrightarrow> P y \<Longrightarrow> P z \<Longrightarrow> lt x y \<Longrightarrow> lt y z \<Longrightarrow> lt x z"
    and "P x \<Longrightarrow> P y \<Longrightarrow> lt x y \<Longrightarrow> \<not> lt y x"
  using assms unfolding strict_on_def by blast+

lemma lex_less_trans:
  assumes "strict_on P lt"
  shows "list_all P xs \<Longrightarrow> list_all P ys \<Longrightarrow> list_all P zs \<Longrightarrow>
    lex_less lt xs ys \<Longrightarrow> lex_less lt ys zs \<Longrightarrow> lex_less lt xs zs"
proof (induction xs arbitrary: ys zs)
  case Nil
  then show ?case by (cases ys; cases zs) auto
next
  case (Cons x xs)
  obtain y ys' where ys: "ys = y # ys'" using Cons.prems(4) by (cases ys) simp_all
  obtain z zs' where zs: "zs = z # zs'" using Cons.prems(5) by (cases zs) simp_all
  have P: "P x" "P y" "P z" using Cons.prems ys zs by auto
  have xy: "lt x y \<or> x = y \<and> lex_less lt xs ys'"
    using Cons.prems(4) strict_onD(2) [OF assms P(1,2)] unfolding ys by (auto split: if_splits)
  have yz: "lt y z \<or> y = z \<and> lex_less lt ys' zs'"
    using Cons.prems(5) strict_onD(2) [OF assms P(2,3)] unfolding ys zs by (auto split: if_splits)
  have tail: "lex_less lt xs ys' \<Longrightarrow> lex_less lt ys' zs' \<Longrightarrow> lex_less lt xs zs'"
    using Cons.prems(1-3) ys zs by (intro Cons.IH [of ys' zs']) auto
  have "lt x z \<or> x = z \<and> lex_less lt xs zs'"
    using xy yz strict_onD(3) [OF assms P] tail by blast
  then show ?case using strict_onD(1) [OF assms P(1)] unfolding zs by auto
qed

lemma strict_on_lex:
  assumes "strict_on P lt"
  shows "strict_on (list_all P) (lex_less lt)"
  unfolding strict_on_def
proof (intro conjI allI impI)
  show "\<not> lex_less lt xs xs" if "list_all P xs" for xs
    using that strict_onD(1) [OF assms] by (intro lex_less_irrefl) (auto simp: list_all_iff)
  show "xs = ys \<or> lex_less lt xs ys \<or> lex_less lt ys xs" if "list_all P xs" "list_all P ys" for xs ys
    using that strict_onD(1,2) [OF assms] by (intro lex_less_total) (auto simp: list_all_iff)
  show "lex_less lt xs zs"
    if "list_all P xs" "list_all P ys" "list_all P zs" "lex_less lt xs ys" "lex_less lt ys zs" for xs ys zs
    using lex_less_trans [OF assms] that by blast
qed

lemma strict_on_pair:
  assumes "strict_on P lt"
  shows "strict_on (\<lambda>e. P (snd e))
    (\<lambda>m n. fst m < (fst n :: char list) \<or> \<not> fst n < fst m \<and> lt (snd m) (snd n))"
  unfolding strict_on_def
proof (intro conjI allI impI, goal_cases)
  case (1 m)
  then show ?case using strict_onD(1) [OF assms] by auto
next
  case (2 m n)
  then show ?case using strict_onD(2) [OF assms, of "snd m" "snd n"] by (auto simp: prod_eq_iff not_less_iff_gr_or_eq)
next
  case (3 m n p)
  then show ?case using strict_onD(3) [OF assms, of "snd m" "snd n" "snd p"] by (auto simp: not_less_iff_gr_or_eq)
qed

text \<open>The order on the ordinary values of bounded size.\<close>

definition small :: "nat \<Rightarrow> 'f json \<Rightarrow> bool" where
  "small n j \<longleftrightarrow> ordinary j \<and> size j < n"

lemma small_parts:
  "small (Suc n) (JArray xs) \<Longrightarrow> list_all (small n) xs"
  "small (Suc n) (JObject kvs) \<Longrightarrow> list_all (\<lambda>e. small n (snd e)) kvs"
  by (auto simp: small_def list_all_iff dest: json_element_size json_member_size)

lemma ordinary_order: "ordinary x \<Longrightarrow> ordinary y \<Longrightarrow> type_order (m_type x) = type_order (m_type y) \<Longrightarrow> m_type x = m_type y"
  by (cases x; cases y) auto

lemma less_by_type:
  "ordinary x \<Longrightarrow> ordinary y \<Longrightarrow> m_type x \<noteq> m_type y \<Longrightarrow>
    json_less F x y \<longleftrightarrow> type_order (m_type x) < type_order (m_type y)"
  by (cases x; cases y) (auto simp: less_value_t_def)

lemma m_type_iff:
  "m_type j = t_null \<longleftrightarrow> j = JNull" "m_type j = t_object \<longleftrightarrow> (\<exists>kvs. j = JObject kvs)"
  "m_type j = t_array \<longleftrightarrow> (\<exists>xs. j = JArray xs)" "m_type j = t_string \<longleftrightarrow> (\<exists>s. j = JString s)"
  "m_type j = t_boolean \<longleftrightarrow> (\<exists>b. j = JBoolean b)" "m_type j = t_number_integer \<longleftrightarrow> (\<exists>n. j = JInteger n)"
  by (cases j; simp)+

text \<open>Within one type, the order comes from that of the contents.\<close>

lemma strict_on_image:
  assumes s: "strict_on P lt" and Q: "\<And>x. Q x \<Longrightarrow> \<exists>a. x = C a \<and> P a"
    and C: "\<And>a b. lt' (C a) (C b) = lt a b"
  shows "strict_on Q lt'"
  unfolding strict_on_def
proof (intro conjI allI impI)
  show "\<not> lt' x x" if "Q x" for x
    using Q [OF that] strict_onD(1) [OF s] C by auto
  show "x = y \<or> lt' x y \<or> lt' y x" if "Q x" "Q y" for x y
    using Q [OF that(1)] Q [OF that(2)] strict_onD(2) [OF s] C by metis
  show "lt' x z" if "Q x" "Q y" "Q z" "lt' x y" "lt' y z" for x y z
    using Q [OF that(1)] Q [OF that(2)] Q [OF that(3)] that(4,5) strict_onD(3) [OF s] C by metis
qed

abbreviation member_less :: "('v \<Rightarrow> 'v \<Rightarrow> bool) \<Rightarrow> char list \<times> 'v \<Rightarrow> char list \<times> 'v \<Rightarrow> bool" where
  "member_less lt m n \<equiv> fst m < fst n \<or> \<not> fst n < fst m \<and> lt (snd m) (snd n)"

lemma same_type_order:
  assumes "strict_on (small n) (json_less F)"
  shows "strict_on (\<lambda>j. small (Suc n) j \<and> m_type j = t) (json_less F)"
proof (cases t)
  case t_array
  show ?thesis
    by (rule strict_on_image [OF strict_on_lex [OF assms], of _ JArray])
      (use t_array small_parts(1) in \<open>auto simp: m_type_iff\<close>)
next
  case t_object
  show ?thesis
    by (rule strict_on_image [OF strict_on_lex [OF strict_on_pair [OF assms]], of _ JObject])
      (use t_object small_parts(2) in \<open>auto simp: m_type_iff\<close>)
next
  case t_string
  have "strict_on (\<lambda>s :: char list. True) (<)" by (auto simp: strict_on_def)
  then show ?thesis by (rule strict_on_image [where C = JString]) (use t_string in \<open>auto simp: m_type_iff\<close>)
next
  case t_boolean
  have "strict_on (\<lambda>b. True) (\<lambda>a b. \<not> a \<and> b)" by (auto simp: strict_on_def)
  then show ?thesis by (rule strict_on_image [where C = JBoolean]) (use t_boolean in \<open>auto simp: m_type_iff\<close>)
next
  case t_number_integer
  have "strict_on (\<lambda>n :: u64. True) (\<lambda>m n. sint m < sint n)"
    by (auto simp: strict_on_def) (metis linorder_less_linear signed_word_eqI)
  then show ?thesis by (rule strict_on_image [where C = JInteger]) (use t_number_integer in \<open>auto simp: m_type_iff\<close>)
qed (auto simp: strict_on_def m_type_iff small_def elim: m_type.elims)

lemma strict_on_types:
  assumes same: "\<And>t. strict_on (\<lambda>j. small (Suc n) j \<and> m_type j = t) (json_less F)"
  shows "strict_on (small (Suc n)) (json_less F)"
  unfolding strict_on_def
proof (intro conjI allI impI)
  have o: "small (Suc n) x \<Longrightarrow> ordinary x" for x :: "'a json" by (simp add: small_def)
  have less: "json_less F x y \<longleftrightarrow> type_order (m_type x) < type_order (m_type y)"
    if "small (Suc n) x" "small (Suc n) y" "m_type x \<noteq> m_type y" for x y
    using less_by_type that o by blast
  have le: "type_order (m_type x) \<le> type_order (m_type y)"
    if "small (Suc n) x" "small (Suc n) y" "json_less F x y" for x y
    using less [of x y] that by (cases "m_type x = m_type y") auto
  show "\<not> json_less F x x" if "small (Suc n) x" for x
    using strict_onD(1) [OF same] that by blast
  show "x = y \<or> json_less F x y \<or> json_less F y x" if "small (Suc n) x" "small (Suc n) y" for x y
    using strict_onD(2) [OF same [of "m_type x"], of x y] less [of x y] less [of y x] that
      ordinary_order [of x y] o by (metis linorder_less_linear)
  show "json_less F x z"
    if s: "small (Suc n) x" "small (Suc n) y" "small (Suc n) z" and l: "json_less F x y" "json_less F y z" for x y z
  proof (cases "m_type x = m_type z")
    case True
    have "type_order (m_type x) = type_order (m_type y)"
      using le [OF s(1,2) l(1)] le [OF s(2,3) l(2)] True by simp
    then have "m_type x = m_type y" by (rule ordinary_order [OF o [OF s(1)] o [OF s(2)]])
    with True have e: "m_type y = m_type x" "m_type z = m_type x" by simp_all
    show ?thesis
      by (rule strict_onD(3) [OF same [of "m_type x"] _ _ _ l]) (simp_all only: s e simp_thms)
  next
    case False
    then have "type_order (m_type x) \<noteq> type_order (m_type z)" using ordinary_order s o by blast
    then show ?thesis using less [OF s(1,3) False] le [OF s(1,2) l(1)] le [OF s(2,3) l(2)] by simp
  qed
qed

lemma small_order: "strict_on (small n) (json_less F)"
proof (induction n)
  case 0
  show ?case by (simp add: strict_on_def small_def)
qed (rule strict_on_types, rule same_type_order)

lemma list_all2_eq: "(\<And>x y. x \<in> set xs \<Longrightarrow> y \<in> set ys \<Longrightarrow> P x y = (x = y)) \<Longrightarrow> list_all2 P xs ys \<longleftrightarrow> xs = ys"
  by (auto simp: list_all2_conv_all_nth list_eq_iff_nth_eq) (metis nth_mem)+

lemma ordinary_eq: "ordinary x \<Longrightarrow> ordinary y \<Longrightarrow> json_eq F x y \<longleftrightarrow> x = y"
proof (induction F x y rule: json_eq.induct)
  case (1 F xs ys)
  then have "list_all2 (json_eq F) xs ys \<longleftrightarrow> xs = ys" by (intro list_all2_eq) (auto simp: list_all_iff)
  then show ?case by simp
next
  case (2 F ms ns)
  then have "list_all2 (\<lambda>m n. fst m = fst n \<and> json_eq F (snd m) (snd n)) ms ns \<longleftrightarrow> ms = ns"
    by (intro list_all2_eq) (auto simp: list_all_iff prod_eq_iff)
  then show ?case by simp
qed auto

text \<open>
  C30: on values without unsigned and floating-point numbers, \<open>operator==\<close> is equality and
  \<open>operator<\<close> is a strict linear order, so that the values can be sorted and be the keys of a map;
  \<open><=\<close>, \<open>>\<close> and \<open>>=\<close> are what they should be.
\<close>

theorem values_are_ordered:
  assumes "ordinary x" and "ordinary y" and "ordinary z"
  shows "json_eq F x y = (x = y) \<and> \<not> json_less F x x \<and>
    (json_less F x y \<or> json_eq F x y \<or> json_less F y x) \<and>
    (json_less F x y \<longrightarrow> json_less F y z \<longrightarrow> json_less F x z) \<and>
    json_gt F x y = json_less F y x \<and>
    json_le F x y = (json_less F x y \<or> json_eq F x y) \<and> json_ge F x y = json_le F y x"
proof -
  define n where "n = Suc (size x + size y + size z)"
  have s: "small n x" "small n y" "small n z" using assms by (simp_all add: small_def n_def)
  note order = strict_onD [OF small_order [of n F]]
  have "json_le F x y = (json_less F x y \<or> x = y)"
    using order(1) [OF s(1)] order(2) [OF s(1,2)] order(4) [OF s(1,2)] by (auto simp: json_le_def)
  then show ?thesis
    using ordinary_eq [OF assms(1,2), of F] order(1) [OF s(1)] order(2) [OF s(1,2)] order(3) [OF s]
    by (auto simp: json_gt_def json_ge_def json_le_def)
qed

lemma values_are_ordered_witness:
  "\<not> json_less int_floats (JString ''a'') (JString ''a'') \<and>
    json_gt int_floats (JString ''a'') (JArray [JInteger 0, JNull]) =
      json_less int_floats (JArray [JInteger 0, JNull]) (JString ''a'')"
  using values_are_ordered [of "JString ''a''" "JArray [JInteger 0, JNull]" JNull int_floats] by simp

text \<open>The whole number a value stands for, and the values that hold one below 2^63.\<close>

fun whole_number :: "'f json \<Rightarrow> int" where
  "whole_number (JInteger i) = sint i"
| "whole_number (JUnsigned u) = uint u"
| "whole_number _ = 0"

fun small_number :: "'f json \<Rightarrow> bool" where
  "small_number (JInteger i) = True"
| "small_number (JUnsigned u) = (uint u < 2 ^ 63)"
| "small_number _ = False"

text \<open>
  C39: integers compare by the numbers they stand for, signed and unsigned ones alike, as long as
  they are below 2^63.  An unsigned number is cast to a signed one when it meets one, so that
  exactly the numbers from 2^63 on are larger than the unsigned zero and less than the signed one,
  which is equal to it: with them the order has a cycle.
\<close>

theorem unsigned_order_has_cycle:
  assumes "small_number a" and "small_number b"
  shows "(json_eq F a b \<longleftrightarrow> whole_number a = whole_number b) \<and>
    (json_less F a b \<longleftrightarrow> whole_number a < whole_number b) \<and>
    (json_less F (JUnsigned 0) (JUnsigned u) \<and> json_less F (JUnsigned u) (JInteger 0) \<and>
      json_eq F (JInteger 0) (JUnsigned 0) \<longleftrightarrow> 2 ^ 63 \<le> uint u)"
proof -
  have eq: "x = y \<longleftrightarrow> sint x = sint y" for x y :: u64 by (auto intro: signed_word_eqI)
  have "0 < u" if "2 ^ 63 \<le> uint u" using that by (simp add: word_less_def)
  then have cycle: "0 < u \<and> sint u < 0 \<longleftrightarrow> 2 ^ 63 \<le> uint u"
    using sint_negative [of u] by blast
  show ?thesis
    using assms cycle by (cases a; cases b) (simp_all add: sint_small word_less_def eq)
qed

lemma unsigned_order_has_cycle_witness:
  "json_less int_floats (JInteger (- 1)) (JUnsigned 7) \<and> \<not> json_eq int_floats (JInteger (- 1)) (JUnsigned 7) \<and>
   json_less int_floats (JUnsigned 0) (JUnsigned (- 1)) \<and> json_less int_floats (JUnsigned (- 1)) (JInteger 0)"
  using unsigned_order_has_cycle [of "JInteger (- 1)" "JUnsigned 7" int_floats "- 1"]
  by (simp add: uint_word_ariths)

section \<open>UTF-8\<close>

text \<open>
  A decoder of one code point, by the definition of UTF-8: the bits of the bytes, which must be as
  few as the code point allows (no overlong form), no surrogate, and no more than 0x10FFFF.
\<close>

definition continuation :: "char \<Rightarrow> nat option" where
  "continuation c = (if 0x80 \<le> code c \<and> code c < 0xC0 then Some (code c - 0x80) else None)"

fun utf8_bits :: "char list \<Rightarrow> nat option" where
  "utf8_bits [a] = (if code a < 0x80 then Some (code a) else None)"
| "utf8_bits [a, b] = do {
     y \<leftarrow> continuation b;
     if 0xC0 \<le> code a \<and> code a < 0xE0 then Some ((code a - 0xC0) * 0x40 + y) else None }"
| "utf8_bits [a, b, c] = do {
     y \<leftarrow> continuation b; z \<leftarrow> continuation c;
     if 0xE0 \<le> code a \<and> code a < 0xF0 then Some ((code a - 0xE0) * 0x1000 + y * 0x40 + z) else None }"
| "utf8_bits [a, b, c, d] = do {
     y \<leftarrow> continuation b; z \<leftarrow> continuation c; w \<leftarrow> continuation d;
     if 0xF0 \<le> code a \<and> code a < 0xF8
     then Some ((code a - 0xF0) * 0x40000 + y * 0x1000 + z * 0x40 + w) else None }"
| "utf8_bits _ = None"

definition utf8_length :: "nat \<Rightarrow> nat" where
  "utf8_length n = (if n < 0x80 then 1 else if n < 0x800 then 2 else if n < 0x10000 then 3 else 4)"

definition utf8_decode :: "char list \<Rightarrow> nat option" where
  "utf8_decode bs = do {
     n \<leftarrow> utf8_bits bs;
     if length bs = utf8_length n \<and> \<not> (0xD800 \<le> n \<and> n < 0xE000) \<and> n < 0x110000 then Some n else None }"

text \<open>A byte with marker bits above a field of the code point.\<close>

lemma marked_byte:
  assumes "h AND m = 0" and "m = mask k" and "unat h + 2 ^ k \<le> 0x100" and "k \<le> 6"
  shows "code (byte (h OR (drop_bit i w AND m))) = unat h + unat w div 2 ^ i mod 2 ^ k"
proof -
  let ?f = "drop_bit i w AND m"
  have f: "unat ?f = unat w div 2 ^ i mod 2 ^ k"
  proof -
    have "unat ?f = take_bit k (drop_bit i (unat w))"
      unfolding assms(2) take_bit_eq_mask [symmetric] unsigned_take_bit_eq unat_drop_bit_eq ..
    then show ?thesis by (simp add: take_bit_eq_mod drop_bit_eq_div)
  qed
  have "h AND ?f = drop_bit i w AND (h AND m)" by (rule and.left_commute)
  also have "\<dots> = 0" unfolding assms(1) by (rule and_zero_eq)
  finally have "h AND ?f = 0" .
  then have "h OR ?f = h + ?f" by (simp add: disjunctive_add_eq_or)
  moreover have "unat ?f < 2 ^ k" using f by simp
  ultimately have "unat (h OR ?f) = unat h + unat ?f" "unat h + unat ?f < 256"
    using assms(3) by (simp_all only: unat_word_ariths) simp_all
  then show ?thesis unfolding byte_def f by simp
qed

lemma marked_byte_at:
  assumes "h AND m = 0" and "m = mask k" and "unat h = hv" and "hv + e \<le> 0x100" and "k \<le> 6"
    and "d = 2 ^ i" and "e = 2 ^ k"
  shows "code (byte (h OR (drop_bit i w AND m))) = hv + unat w div d mod e"
  using marked_byte [of h m k i w] assms by simp

lemma marked_bytes:
  "code (byte (0xC0 OR (drop_bit 6 w AND 0x1F))) = 0xC0 + unat w div 0x40 mod 0x20"
  "code (byte (0xE0 OR (drop_bit 12 w AND 0x0F))) = 0xE0 + unat w div 0x1000 mod 0x10"
  "code (byte (0xF0 OR (drop_bit 18 w AND 0x07))) = 0xF0 + unat w div 0x40000 mod 0x08"
  "code (byte (0x80 OR (drop_bit 12 w AND 0x3F))) = 0x80 + unat w div 0x1000 mod 0x40"
  "code (byte (0x80 OR (drop_bit 6 w AND 0x3F))) = 0x80 + unat w div 0x40 mod 0x40"
  by (rule marked_byte_at [where k = 5] marked_byte_at [where k = 4] marked_byte_at [where k = 3]
      marked_byte_at [where k = 6]; simp add: mask_eq_exp_minus_1)+

lemma marked_byte_last: "code (byte (0x80 OR (w AND 0x3F))) = 0x80 + unat w mod 0x40"
proof -
  have "code (byte (0x80 OR (drop_bit 0 w AND 0x3F))) = 0x80 + unat w div 1 mod 0x40"
    by (rule marked_byte_at [where k = 6]) (simp_all add: mask_eq_exp_minus_1)
  then show ?thesis by (simp only: drop_bit_0 div_by_1 id_apply)
qed

lemma utf8_bits_parts:
  "code a = 0xC0 + x \<Longrightarrow> x < 0x20 \<Longrightarrow> code b = 0x80 + y \<Longrightarrow> y < 0x40 \<Longrightarrow>
    utf8_bits [a, b] = Some (x * 0x40 + y)"
  "code a = 0xE0 + x \<Longrightarrow> x < 0x10 \<Longrightarrow> code b = 0x80 + y \<Longrightarrow> y < 0x40 \<Longrightarrow> code c = 0x80 + z \<Longrightarrow> z < 0x40 \<Longrightarrow>
    utf8_bits [a, b, c] = Some (x * 0x1000 + y * 0x40 + z)"
  "code a = 0xF0 + x \<Longrightarrow> x < 0x08 \<Longrightarrow> code b = 0x80 + y \<Longrightarrow> y < 0x40 \<Longrightarrow> code c = 0x80 + z \<Longrightarrow> z < 0x40 \<Longrightarrow>
    code d = 0x80 + v \<Longrightarrow> v < 0x40 \<Longrightarrow>
    utf8_bits [a, b, c, d] = Some (x * 0x40000 + y * 0x1000 + z * 0x40 + v)"
  by (simp_all add: continuation_def)

definition utf8_bytes :: "u64 \<Rightarrow> json_exn + char list" where
  "utf8_bytes w =
     (if unat w < 0x80 then Inr [byte w]
      else if unat w < 0x800 then
        Inr [byte (0xC0 OR (drop_bit 6 w AND 0x1F)), byte (0x80 OR (w AND 0x3F))]
      else if unat w < 0x10000 then
        Inr [byte (0xE0 OR (drop_bit 12 w AND 0x0F)), byte (0x80 OR (drop_bit 6 w AND 0x3F)),
          byte (0x80 OR (w AND 0x3F))]
      else if unat w < 0x110000 then
        Inr [byte (0xF0 OR (drop_bit 18 w AND 0x07)), byte (0x80 OR (drop_bit 12 w AND 0x3F)),
          byte (0x80 OR (drop_bit 6 w AND 0x3F)), byte (0x80 OR (w AND 0x3F))]
      else Inl (Out_Of_Range_Error ''code points above 0x10FFFF are invalid''))"

lemma to_unicode_bytes:
  "to_unicode a b =
     (if 0xD800 \<le> unat a \<and> unat a < 0xDC00
      then if 0xDC00 \<le> unat b \<and> unat b < 0xE000 then utf8_bytes (push_bit 10 a + b - 0x35FDC00)
        else Inl (Invalid_Argument_Error ''missing or wrong low surrogate'')
      else utf8_bytes a)"
  unfolding to_unicode_def utf8_bytes_def Let_def word_less_nat_alt word_le_nat_alt unat_numeral
  by (auto simp: le_less_Suc_eq less_Suc_eq_le)

lemma digits_of_64:
  fixes n :: nat
  shows "n = n div 0x40 * 0x40 + n mod 0x40" "n = n div 0x1000 * 0x1000 + n div 0x40 mod 0x40 * 0x40 + n mod 0x40"
    "n = n div 0x40000 * 0x40000 + n div 0x1000 mod 0x40 * 0x1000 + n div 0x40 mod 0x40 * 0x40 + n mod 0x40"
proof -
  have d: "n div 0x1000 = n div 0x40 div 0x40" "n div 0x40000 = n div 0x40 div 0x40 div 0x40"
    using div_mult2_eq [of n 64 64] div_mult2_eq [of n "0x1000" 64] by simp_all
  show "n = n div 0x40 * 0x40 + n mod 0x40" by simp
  show "n = n div 0x1000 * 0x1000 + n div 0x40 mod 0x40 * 0x40 + n mod 0x40"
    using div_mult_mod_eq [of n 64] div_mult_mod_eq [of "n div 0x40" 64] unfolding d by linarith
  show "n = n div 0x40000 * 0x40000 + n div 0x1000 mod 0x40 * 0x1000 + n div 0x40 mod 0x40 * 0x40 + n mod 0x40"
    using div_mult_mod_eq [of n 64] div_mult_mod_eq [of "n div 0x40" 64]
      div_mult_mod_eq [of "n div 0x40 div 0x40" 64] unfolding d by linarith
qed

lemma utf8_bytes_decode:
  assumes "unat w < 0x110000"
  shows "\<exists>bs. utf8_bytes w = Inr bs \<and> utf8_bits bs = Some (unat w) \<and> length bs = utf8_length (unat w)"
proof -
  note parts = utf8_bits_parts(1) [OF marked_bytes(1) _ marked_byte_last]
    utf8_bits_parts(2) [OF marked_bytes(2) _ marked_bytes(5) _ marked_byte_last]
    utf8_bits_parts(3) [OF marked_bytes(3) _ marked_bytes(4) _ marked_bytes(5) _ marked_byte_last]
  consider "unat w < 0x80" | "0x80 \<le> unat w" "unat w < 0x800" | "0x800 \<le> unat w" "unat w < 0x10000"
    | "0x10000 \<le> unat w" using assms by linarith
  then show ?thesis
  proof cases
    case 1
    then show ?thesis by (simp add: utf8_bytes_def byte_def utf8_length_def)
  next
    case 2
    then have "unat w div 0x40 mod 0x20 = unat w div 0x40" by simp
    then have "utf8_bits [byte (0xC0 OR (drop_bit 6 w AND 0x1F)), byte (0x80 OR (w AND 0x3F))] = Some (unat w)"
      using parts(1) [of w w] digits_of_64(1) [of "unat w"] by simp
    with 2 show ?thesis by (simp add: utf8_bytes_def utf8_length_def)
  next
    case 3
    then have "unat w div 0x1000 mod 0x10 = unat w div 0x1000" by simp
    then have "utf8_bits [byte (0xE0 OR (drop_bit 12 w AND 0x0F)), byte (0x80 OR (drop_bit 6 w AND 0x3F)),
        byte (0x80 OR (w AND 0x3F))] = Some (unat w)"
      using parts(2) [of w w w] digits_of_64(2) [of "unat w"] by simp
    with 3 show ?thesis by (simp add: utf8_bytes_def utf8_length_def)
  next
    case 4
    have "unat w div 0x40000 < 0x08" by (rule less_mult_imp_div_less) (use assms in simp)
    then have "unat w div 0x40000 < 0x08" "unat w div 0x40000 mod 0x08 = unat w div 0x40000" by simp_all
    then have "utf8_bits [byte (0xF0 OR (drop_bit 18 w AND 0x07)), byte (0x80 OR (drop_bit 12 w AND 0x3F)),
        byte (0x80 OR (drop_bit 6 w AND 0x3F)), byte (0x80 OR (w AND 0x3F))] = Some (unat w)"
      using parts(3) [of w w w w] digits_of_64(3) [of "unat w"] by simp
    with 4 assms show ?thesis by (simp add: utf8_bytes_def utf8_length_def)
  qed
qed

lemma utf8_bytes_strict:
  assumes "unat w < 0x110000"
  shows "\<exists>bs. utf8_bytes w = Inr bs \<and>
    utf8_decode bs = (if 0xD800 \<le> unat w \<and> unat w < 0xE000 then None else Some (unat w))"
  using utf8_bytes_decode [OF assms] assms by (auto simp: utf8_decode_def)

lemma to_unicode_single:
  assumes "n < 0x10000" and "\<not> (0xD800 \<le> n \<and> n < 0xDC00)"
  shows "\<exists>bs. to_unicode (of_nat n) m = Inr bs \<and> utf8_decode bs = (if 0xDC00 \<le> n \<and> n < 0xE000 then None else Some n)"
proof -
  have u: "unat (of_nat n :: u64) = n" using assms by (intro unat_of_nat_64) simp
  have "to_unicode (of_nat n) m = utf8_bytes (of_nat n)" unfolding to_unicode_bytes u using assms(2) by auto
  then show ?thesis using utf8_bytes_strict [of "of_nat n"] assms by (auto simp: u)
qed

lemma to_unicode_pair:
  assumes n: "0x10000 \<le> n" "n < 0x110000"
  shows "\<exists>bs. to_unicode (of_nat (0xD800 + (n - 0x10000) div 0x400)) (of_nat (0xDC00 + (n - 0x10000) mod 0x400))
      = Inr bs \<and> utf8_decode bs = Some n"
proof -
  define d where "d = n - 0x10000"
  have d: "d < 0x100000" "n = d + 0x10000" using n by (simp_all add: d_def)
  have hi: "unat (of_nat (0xD800 + d div 0x400) :: u64) = 0xD800 + d div 0x400"
    and lo: "unat (of_nat (0xDC00 + d mod 0x400) :: u64) = 0xDC00 + d mod 0x400"
    using d(1) by (intro unat_of_nat_64, simp)+
  have "of_nat (0xD800 + d div 0x400) * 0x400 + of_nat (0xDC00 + d mod 0x400) - 0x35FDC00 = (of_nat n :: u64)"
  proof -
    have "(of_nat d :: u64) = of_nat (d div 0x400 * 0x400 + d mod 0x400)" by (simp only: div_mult_mod_eq)
    also have "\<dots> = of_nat (d div 0x400) * 0x400 + of_nat (d mod 0x400)" by (simp only: of_nat_add of_nat_mult of_nat_numeral)
    finally show ?thesis by (simp add: d(2) algebra_simps)
  qed
  then have sum: "push_bit 10 (of_nat (0xD800 + d div 0x400)) + of_nat (0xDC00 + d mod 0x400) - 0x35FDC00 = (of_nat n :: u64)"
    by (simp add: push_bit_eq_mult algebra_simps)
  have "d div 0x400 < 0x400" "d mod 0x400 < 0x400" using d(1) by simp_all
  then have "to_unicode (of_nat (0xD800 + d div 0x400)) (of_nat (0xDC00 + d mod 0x400)) = utf8_bytes (of_nat n)"
    unfolding to_unicode_bytes hi lo sum by simp
  moreover have "unat (of_nat n :: u64) = n" using n by (intro unat_of_nat_64) simp
  ultimately show ?thesis
    using utf8_bytes_strict [of "of_nat n"] n unfolding d_def by simp
qed

text \<open>
  C31: what \<open>to_unicode\<close> makes of an escape is UTF-8, in its shortest form: it decodes to the code
  point that one escape names, or that the surrogate pair of two escapes stands for.  The exception
  is a low surrogate on its own, which the code does not reject: its bytes are no UTF-8.
\<close>

theorem to_unicode_is_utf8:
  "(n < 0x10000 \<longrightarrow> \<not> (0xD800 \<le> n \<and> n < 0xE000) \<longrightarrow>
      (\<exists>bs. to_unicode (of_nat n) m = Inr bs \<and> utf8_decode bs = Some n)) \<and>
   (0x10000 \<le> n \<longrightarrow> n < 0x110000 \<longrightarrow>
      (\<exists>bs. to_unicode (of_nat (0xD800 + (n - 0x10000) div 0x400)) (of_nat (0xDC00 + (n - 0x10000) mod 0x400))
          = Inr bs \<and> utf8_decode bs = Some n)) \<and>
   (0xDC00 \<le> n \<longrightarrow> n < 0xE000 \<longrightarrow> (\<exists>bs. to_unicode (of_nat n) m = Inr bs \<and> utf8_decode bs = None))"
  using to_unicode_single [of n m] to_unicode_pair [of n] by auto

lemma to_unicode_is_utf8_witness:
  "(\<exists>bs. to_unicode 0xD83D 0xDE00 = Inr bs \<and> utf8_decode bs = Some 0x1F600) \<and>
   (\<exists>bs. to_unicode 0xE9 0 = Inr bs \<and> utf8_decode bs = Some 0xE9) \<and>
   (\<exists>bs. to_unicode 0xDC00 0 = Inr bs \<and> utf8_decode bs = None)"
  using to_unicode_is_utf8 [of "0x1F600" 0] to_unicode_is_utf8 [of "0xE9" 0] to_unicode_is_utf8 [of "0xDC00" 0]
  by simp

end
