(* ===== verification/Json_Throws.thy ===== *)
theory Json_Throws
  imports Json_Safe "HOL-Library.Sublist"
begin

text \<open>
  The exceptions of the parser in \<open>src/json/json.hpp\<close>, with any callback: which there are, what
  their messages say, and that adding to a container or encoding a code point never throws there.
\<close>

section \<open>The exceptions\<close>

text \<open>What an unexpected token is called: its type, or, if it is none, the characters read.\<close>

definition token_named :: "char list \<Rightarrow> char list \<Rightarrow> bool" where
  "token_named s name \<longleftrightarrow> (\<exists>t. t \<noteq> parse_error \<and> name = token_type_name t) \<or>
     (\<exists>cs. sublist cs (s @ [NUL]) \<and> name = [CHR 0x27] @ cs @ [CHR 0x27])"

inductive parser_exception :: "char list \<Rightarrow> json_exn \<Rightarrow> bool" for s where
  unexpected: "token_named s name \<Longrightarrow>
    parser_exception s (Invalid_Argument_Error (''parse error - unexpected '' @ name))"
| unexpected_expected: "token_named s name \<Longrightarrow>
    parser_exception s (Invalid_Argument_Error (''parse error - unexpected '' @ name @ ''; expected '' @ token_type_name t))"
| no_number: "sublist cs (s @ [NUL]) \<Longrightarrow>
    parser_exception s (Invalid_Argument_Error (''parse error - '' @ cs @ '' is not a number''))"
| no_low_surrogate: "parser_exception s (Invalid_Argument_Error ''missing low surrogate'')"
| wrong_low_surrogate: "parser_exception s (Invalid_Argument_Error ''missing or wrong low surrogate'')"

section \<open>Code points\<close>

lemma hex_value_bound: "is_hex c \<Longrightarrow> unat (hex_value c) < 16"
proof -
  assume "is_hex c"
  define k where "k = (if code c \<le> 0x39 then code c - 0x30 else if code c \<le> 0x46 then code c - 0x41 + 10
    else code c - 0x61 + 10)"
  have "hex_value c = of_nat k" by (simp only: hex_value_def k_def split: if_split) blast
  moreover have "k < 16" using \<open>is_hex c\<close> by (auto simp: is_hex_def k_def)
  ultimately show ?thesis by (simp add: unat_of_nat_64)
qed

lemma hex_digits_bound:
  "list_all is_hex ds \<Longrightarrow> unat n * 16 ^ length ds + 16 ^ length ds \<le> 2 ^ 32 \<Longrightarrow>
   unat (foldl (\<lambda>n c. n * 16 + hex_value c) n ds) < unat n * 16 ^ length ds + 16 ^ length ds"
proof (induction ds arbitrary: n)
  case (Cons d ds)
  have h: "unat (hex_value d) < 16" using Cons.prems(1) by (simp add: hex_value_bound)
  have "unat n + 1 \<le> (unat n + 1) * 16 ^ length ds"
    using mult_le_mono2 [of 1 "16 ^ length ds" "unat n + 1"] by simp
  also have "\<dots> \<le> 2 ^ 28" using Cons.prems(2) by (simp add: algebra_simps)
  finally have small: "unat n < 2 ^ 28" by simp
  have u: "unat (n * 16 + hex_value d) = unat n * 16 + unat (hex_value d)"
    using small h unat_of_nat_64 [of "unat n * 16 + unat (hex_value d)"] by simp
  have le: "unat (n * 16 + hex_value d) * 16 ^ length ds + 16 ^ length ds \<le> unat n * 16 ^ length (d # ds) + 16 ^ length (d # ds)"
  proof -
    have "unat (n * 16 + hex_value d) + 1 \<le> (unat n + 1) * 16" using h unfolding u by simp
    then have "(unat (n * 16 + hex_value d) + 1) * 16 ^ length ds \<le> (unat n + 1) * 16 * 16 ^ length ds" by (rule mult_le_mono1)
    then show ?thesis by (simp add: algebra_simps)
  qed
  have "unat (foldl (\<lambda>n c. n * 16 + hex_value c) (n * 16 + hex_value d) ds) <
      unat (n * 16 + hex_value d) * 16 ^ length ds + 16 ^ length ds"
    by (rule Cons.IH) (use Cons.prems le in simp_all)
  with le show ?case by simp
qed simp

lemma strtoul_hex_bound:
  assumes "length ds \<le> 4"
  shows "unat (strtoul_hex ds) < 0x10000"
proof -
  let ?d = "takeWhile is_hex ds"
  have l: "length ?d \<le> 4" using assms length_takeWhile_le [of is_hex ds] by simp
  then have p: "(16 :: nat) ^ length ?d \<le> 16 ^ 4" by (intro power_increasing) simp_all
  have "list_all is_hex ?d" by (auto simp: list_all_iff dest: set_takeWhileD)
  from hex_digits_bound [OF this, of 0] p show ?thesis by (simp add: strtoul_hex_def)
qed

text \<open>A code point of one or two escapes is never too large to be encoded.\<close>

lemma pair_bound:
  assumes "a \<ge> 0xD800" "a \<le> 0xDBFF" "b \<ge> 0xDC00" "b \<le> 0xDFFF"
  shows "push_bit 10 a + b - 0x35FDC00 \<le> (0x10FFFF :: u64)"
proof -
  let ?n = "unat a * 1024 + unat b"
  have n: "0x35FDC00 \<le> ?n" "?n \<le> 0x370DBFF" using assms by (simp_all add: word_le_nat_alt)
  have "push_bit 10 a + b = of_nat ?n" by (simp add: push_bit_eq_mult mult.commute)
  then have "push_bit 10 a + b - 0x35FDC00 = of_nat (?n - 0x35FDC00)" using n(1) by (simp add: of_nat_diff)
  moreover have "unat (of_nat (?n - 0x35FDC00) :: u64) = ?n - 0x35FDC00" using n(2) by (intro unat_of_nat_64) simp
  ultimately show ?thesis using n(2) by (simp add: word_le_nat_alt)
qed

lemma to_unicode_throws:
  assumes "to_unicode a b = Inl e" and "unat a < 0x10000"
  shows "e = Invalid_Argument_Error ''missing or wrong low surrogate''"
proof -
  have "a \<le> 0xFFFF" using assms(2) by (simp add: word_le_nat_alt)
  moreover have "a \<le> 0xFFFF \<Longrightarrow> a \<le> 0x10FFFF" by (erule order_trans) simp
  ultimately show ?thesis
    using assms(1) pair_bound [of a b] by (auto simp: to_unicode_def Let_def split: if_splits)
qed

definition surrogate_exception :: "json_exn \<Rightarrow> bool" where
  "surrogate_exception e \<longleftrightarrow> e = Invalid_Argument_Error ''missing low surrogate'' \<or>
     e = Invalid_Argument_Error ''missing or wrong low surrogate''"

lemma get_string_loop_throws:
  "get_string_loop inp limit stop i res = Some (Inl e) \<Longrightarrow> surrogate_exception e"
proof (induction "stop - i" arbitrary: i res rule: less_induct)
  case less
  have IH: "surrogate_exception e" if "get_string_loop inp limit stop j r = Some (Inl e)" "i < stop" "i < j" for j r
    by (rule less.hyps [OF _ that(1)]) (use that(2,3) in simp)
  have low: "surrogate_exception e" if "to_unicode (strtoul_hex (take 4 ds)) b = Inl e" for ds b
    using to_unicode_throws [OF that] strtoul_hex_bound [of "take 4 ds"] by (simp add: surrogate_exception_def)
  have missing: "surrogate_exception (Invalid_Argument_Error ''missing low surrogate'')"
    by (simp add: surrogate_exception_def)
  have i: "i < stop" using less.prems by (subst (asm) get_string_loop.simps) (simp split: if_split_asm)
  from less.prems show ?case
    unfolding get_string_loop.simps [of inp limit stop i res] Let_def
    by (auto split: if_split_asm option.split_asm sum.split_asm intro: IH [OF _ i] low missing)
qed

section \<open>The parser\<close>

text \<open>A result that is an exception of the list above, or has a property.\<close>

definition outcome :: "char list \<Rightarrow> ('a \<Rightarrow> bool) \<Rightarrow> 'a parse_result \<Rightarrow> bool" where
  "outcome s Q r \<longleftrightarrow> (case r of
     None \<Rightarrow> True | Some (Inl e) \<Rightarrow> parser_exception s e | Some (Inr x) \<Rightarrow> Q x)"

lemma outcome_simps [simp]:
  "outcome s Q None" "outcome s Q (Some (Inl e)) \<longleftrightarrow> parser_exception s e" "outcome s Q (Some (Inr x)) \<longleftrightarrow> Q x"
  by (simp_all add: outcome_def)

lemma outcome_and_then:
  "outcome s Q r \<Longrightarrow> (\<And>x. Q x \<Longrightarrow> outcome s R (f x)) \<Longrightarrow> outcome s R (and_then r f)"
  by (auto simp: outcome_def [of s Q] and_then_def split: option.splits sum.splits)

definition parses :: "char list \<Rightarrow> 'f json_parser \<Rightarrow> bool" where
  "parses s p \<longleftrightarrow> m_content (m_lexer p) = s"

lemma get_token_piece: "parses s p \<Longrightarrow> sublist (get_token (m_lexer p)) (s @ [NUL])"
  unfolding get_token_def parses_def by (metis sublist_drop sublist_order.order_trans sublist_take)

lemma unexpected_named:
  assumes "parses s p"
  shows "\<exists>name. token_named s name \<and> unexpected_msg p = ''parse error - unexpected '' @ name"
  using get_token_piece [OF assms] by (auto simp: unexpected_msg_def token_named_def)

lemma outcome_next:
  assumes "parses s p" and "\<And>p. parses s p \<Longrightarrow> outcome s R (f p)"
  shows "outcome s R (and_then (next_token p) f)"
proof (rule outcome_and_then)
  show "outcome s (parses s) (next_token p)"
    using assms(1) by (auto simp: next_token_def scan_def parses_def Let_def split: option.split)
qed (rule assms(2))

lemma outcome_separator:
  assumes "parses s p" and "\<And>p. parses s p \<Longrightarrow> outcome s R (f p)"
  shows "outcome s R (and_then (if last_token p = value_separator then next_token p else Some (Inr p)) f)"
  using assms outcome_next [OF assms] by simp

lemma outcome_expect:
  assumes "parses s p" and "outcome s R (f ())"
  shows "outcome s R (and_then (expect t p) f)"
proof -
  obtain name where "token_named s name" "unexpected_msg p = ''parse error - unexpected '' @ name"
    using unexpected_named [OF assms(1)] by blast
  then have "outcome s (\<lambda>x. True) (expect t p)"
    using parser_exception.unexpected_expected [of s name t] by (simp add: expect_def)
  then show ?thesis by (rule outcome_and_then) (use assms(2) in simp)
qed

lemma outcome_unexpect:
  assumes "parses s p" and "outcome s R (f ())"
  shows "outcome s R (and_then (unexpect t p) f)"
proof -
  obtain name where "token_named s name" "unexpected_msg p = ''parse error - unexpected '' @ name"
    using unexpected_named [OF assms(1)] by blast
  then have "outcome s (\<lambda>x. True) (unexpect t p)"
    using parser_exception.unexpected [of s name] by (simp add: unexpect_def)
  then show ?thesis by (rule outcome_and_then) (use assms(2) in simp)
qed

lemma outcome_string:
  assumes "\<And>k. outcome s R (f k)"
  shows "outcome s R (and_then (get_string l) f)"
proof (rule outcome_and_then)
  have "parser_exception s e" if "surrogate_exception e" for e
    using that by (auto simp: surrogate_exception_def intro: parser_exception.intros)
  then show "outcome s (\<lambda>x. True) (get_string l)"
    using get_string_loop_throws by (auto simp: outcome_def get_string_def split: option.split sum.split)
qed (rule assms)

lemma outcome_number:
  assumes "parses s p" and "\<And>n. outcome s R (f n)"
  shows "outcome s R (and_then (Some (get_number F (m_lexer p))) f)"
proof (rule outcome_and_then)
  show "outcome s (\<lambda>x. True) (Some (get_number F (m_lexer p)))"
    using parser_exception.no_number [OF get_token_piece [OF assms(1)]]
    by (auto simp: get_number_def Let_def split: prod.split sum.split)
qed (rule assms(2))

section \<open>Containers\<close>

definition parsed :: "char list \<Rightarrow> 'f json \<times> 'f json_parser \<Rightarrow> bool" where
  "parsed s x \<longleftrightarrow> parses s (snd x)"

lemma outcome_value:
  assumes "outcome s (parsed s) r" and "\<And>v p. parses s p \<Longrightarrow> outcome s R (f (v, p))"
  shows "outcome s R (and_then r f)"
  by (rule outcome_and_then [OF assms(1)]) (use assms(2) in \<open>auto simp: parsed_def\<close>)

text \<open>What is kept is a container, and adding to one does not throw.\<close>

lemma outcome_add:
  assumes "keep \<longrightarrow> kind result" and "c \<Longrightarrow> keep" and "\<And>j. kind j \<Longrightarrow> \<exists>j'. add j = Inr j' \<and> kind j'"
    and "\<And>j. keep \<longrightarrow> kind j \<Longrightarrow> outcome s R (f j)"
  shows "outcome s R (and_then (Some (if c then add result else Inr result)) f)"
proof (rule outcome_and_then)
  show "outcome s (\<lambda>j. keep \<longrightarrow> kind j) (Some (if c then add result else Inr result))"
    using assms(1-3) by fastforce
qed (rule assms(4))

lemma set_key_object: "is_object j \<Longrightarrow> \<exists>j'. set_key j k v = Inr j' \<and> is_object j'"
  by (cases j) (simp_all add: inspection_defs set_key_def subscript_key_def Let_def)

lemma push_back_onto_array: "is_array j \<Longrightarrow> \<exists>j'. push_back j v = Inr j' \<and> is_array j'"
  by (cases j) (simp_all add: inspection_defs push_back_def Let_def)

definition parses_values ::
    "char list \<Rightarrow> (bool \<Rightarrow> 'f json_parser \<Rightarrow> ('f json \<times> 'f json_parser) parse_result) \<Rightarrow> bool" where
  "parses_values s rec \<longleftrightarrow> (\<forall>keep p. parses s p \<longrightarrow> outcome s (parsed s) (rec keep p))"

lemma parses_valuesD: "parses_values s rec \<Longrightarrow> parses s p \<Longrightarrow> outcome s (parsed s) (rec keep p)"
  by (simp add: parses_values_def)

lemma outcome_more:
  assumes "parses s p" and "outcome s (parsed s) r"
  shows "outcome s (parsed s) (if b then r else Some (Inr (v, p)))"
  using assms by (simp add: parsed_def)

lemma members_outcome:
  assumes rec: "parses_values s rec"
  shows "parses s p \<Longrightarrow> keep \<longrightarrow> is_object result \<Longrightarrow> outcome s (parsed s) (parse_members rec n keep result p)"
proof (induction n arbitrary: p result)
  case (Suc n)
  show ?case
    unfolding parse_members.simps Let_def
    apply (rule outcome_separator [OF Suc.prems(1)])
    apply (rule outcome_expect, assumption)
    apply (rule outcome_string)
    apply (rule outcome_next, assumption)
    apply (rule outcome_expect, assumption)
    apply (rule outcome_next, assumption)
    apply (rule outcome_value [OF parses_valuesD [OF rec]], assumption)
    apply (simp only: prod.case)
    apply (rule outcome_add [where kind = is_object, OF Suc.prems(2)], blast, erule set_key_object)
    by (rule outcome_more, assumption, rule Suc.IH)
qed simp

lemma elements_outcome:
  assumes rec: "parses_values s rec"
  shows "parses s p \<Longrightarrow> keep \<longrightarrow> is_array result \<Longrightarrow> outcome s (parsed s) (parse_elements rec n keep result p)"
proof (induction n arbitrary: p result)
  case (Suc n)
  show ?case
    unfolding parse_elements.simps
    apply (rule outcome_separator [OF Suc.prems(1)])
    apply (rule outcome_value [OF parses_valuesD [OF rec]], assumption)
    apply (simp only: prod.case)
    apply (rule outcome_add [where kind = is_array, OF Suc.prems(2)], blast, erule push_back_onto_array)
    by (rule outcome_more, assumption, rule Suc.IH)
qed simp

lemma parse_start_kept:
  assumes "parses s p" and "kind initial" and "parse_start event initial keep p = (k, result, p')"
  shows "parses s p'" and "k \<longrightarrow> kind result"
  using assms by (auto simp: parse_start_def parses_def Let_def split: if_splits option.splits prod.splits)

lemma parse_end_parsed: "parses s p \<Longrightarrow> parsed s (parse_end event keep result p)"
  by (auto simp: parse_end_def parsed_def parses_def Let_def split: option.splits prod.splits)

lemma outcome_finish:
  "parses s p \<Longrightarrow> outcome s (parsed s) (and_then (next_token p) (\<lambda>p. Some (Inr (parse_end event keep result p))))"
  by (rule outcome_next) (simp_all add: parse_end_parsed)

lemma object_outcome:
  assumes rec: "parses_values s rec" and p: "parses s p"
  shows "outcome s (parsed s) (parse_object rec n keep p)"
proof -
  obtain k result p' where st: "parse_start object_start (JObject []) keep p = (k, result, p')"
    by (metis prod_cases3)
  note start = parse_start_kept [where kind = is_object, OF p _ st, simplified inspection_defs]
  have ok: "parses s p'" "k \<longrightarrow> is_object result" using start by (simp_all add: inspection_defs)
  show ?thesis
    unfolding parse_object_def Let_def st prod.case
    apply (rule outcome_next [OF ok(1)])
    apply (simp del: and_then_simps, intro conjI impI)
     apply (erule outcome_finish)
    apply (rule outcome_unexpect, assumption)
    apply (rule outcome_value [OF members_outcome [OF rec _ ok(2)]], assumption)
    apply (simp only: prod.case)
    by (rule outcome_expect, assumption, erule outcome_finish)
qed

lemma array_outcome:
  assumes rec: "parses_values s rec" and p: "parses s p"
  shows "outcome s (parsed s) (parse_array rec n keep p)"
proof -
  obtain k result p' where st: "parse_start array_start (JArray []) keep p = (k, result, p')"
    by (metis prod_cases3)
  note start = parse_start_kept [where kind = is_array, OF p _ st, simplified inspection_defs]
  have ok: "parses s p'" "k \<longrightarrow> is_array result" using start by (simp_all add: inspection_defs)
  show ?thesis
    unfolding parse_array_def Let_def st prod.case
    apply (rule outcome_next [OF ok(1)])
    apply (simp del: and_then_simps, intro conjI impI)
     apply (erule outcome_finish)
    apply (rule outcome_unexpect, assumption)
    apply (rule outcome_value [OF elements_outcome [OF rec _ ok(2)]], assumption)
    apply (simp only: prod.case)
    by (rule outcome_expect, assumption, erule outcome_finish)
qed

section \<open>Values\<close>

lemma outcome_simple: "parses s p \<Longrightarrow> outcome s (parsed s) (and_then (next_token p) (\<lambda>p. Some (Inr (v, p))))"
  by (rule outcome_next) (simp_all add: parsed_def)

lemma value_outcome:
  assumes p: "parses s p"
  shows "outcome s (parsed s) (parse_value F p)"
  unfolding parse_value_def
  by (cases "last_token p"; simp del: and_then_simps;
    intro outcome_simple outcome_string outcome_number outcome_unexpect p)
    (simp_all add: parsed_def p)

lemma internal_outcome: "parses_values s (parse_internal F n)"
proof (induction n)
  case 0
  then show ?case by (simp add: parses_values_def)
next
  case (Suc n)
  show ?case
    unfolding parses_values_def
  proof (intro allI impI)
    fix keep and p :: "'a json_parser"
    assume p: "parses s p"
    have "outcome s (parsed s) (and_then (parse_value F p) (\<lambda>(result, p).
         if keep then (case callback p of None \<Rightarrow> Some (Inr (result, p))
           | Some cb \<Rightarrow> (let (kept, result) = cb (depth p) value_event result
                        in Some (Inr (if kept then result else JDiscarded, p))))
         else Some (Inr (result, p))))"
      by (rule outcome_value [OF value_outcome [OF p]]) (auto simp: parsed_def split: option.split prod.split)
    with object_outcome [OF Suc.IH p, of n keep] array_outcome [OF Suc.IH p, of n keep]
    show "outcome s (parsed s) (parse_internal F (Suc n) keep p)"
      by (cases "last_token p") simp_all
  qed
qed

text \<open>Whatever the parser throws is in the list.\<close>

lemma parse_exceptions:
  assumes "parse F s cb = Some (Inl e)"
  shows "parser_exception s e"
proof -
  have "outcome s (\<lambda>v. True) (parse F s cb)"
    unfolding parse_def parser_of_def
  proof (rule outcome_next)
    show "outcome s (\<lambda>v. True) (parser_parse F p)" if "parses s p" for p :: "'a json_parser"
      unfolding parser_parse_def
      by (rule outcome_value [OF parses_valuesD [OF internal_outcome that]])
        (auto intro!: outcome_expect)
  qed (simp add: parses_def lexer_of_def)
  then show ?thesis using assms by simp
qed

end
