(* ===== verification/Json_Reads.thy ===== *)
theory Json_Reads
  imports Json_Grammar Json_Laws Json_Throws
begin

text \<open>
  The scanner and the readers of strings and numbers against the grammar: a token begins where
  the gap before it ends, and the tokens and their values are those of the grammar.
\<close>

section \<open>Gaps and tokens\<close>

text \<open>Where a gap has to end.\<close>

definition solid :: "char list \<Rightarrow> bool" where
  "solid s \<longleftrightarrow> (\<forall>c r. s = c # r \<longrightarrow> \<not> is_white c) \<and> (\<forall>t. s \<noteq> BOM @ t)"

lemma not_white_mark [simp]: "\<not> is_white (CHR 0xEF)"
  by (simp add: is_white_def)

lemma gap_solid: "gap s r \<Longrightarrow> solid s \<Longrightarrow> r = s"
  by (cases rule: gap.cases) (auto simp: solid_def)

lemma gap_linear: "gap s a \<Longrightarrow> gap s b \<Longrightarrow> gap a b \<or> gap b a"
proof (induction rule: gap.induct)
  case (white c s r)
  from white(4) show ?case
    by (cases rule: gap.cases) (use white in \<open>auto intro: gap.white\<close>)
next
  case (mark s r)
  from mark(3) show ?case
    by (cases rule: gap.cases) (use mark in \<open>auto intro: gap_mark\<close>)
qed simp

lemma gap_to_solid: "gap s a \<Longrightarrow> gap s b \<Longrightarrow> solid b \<Longrightarrow> gap a b"
  using gap_linear gap_solid by (metis gap.none)

lemma scan_first_white: "scan_first (code y) = L6 \<longleftrightarrow> is_white y"
  by (auto simp: scan_first_def is_white_def)

lemma code_marks:
  "code c = 0xEF \<longleftrightarrow> c = CHR 0xEF" "code c = 0xBB \<longleftrightarrow> c = CHR 0xBB" "code c = 0xBF \<longleftrightarrow> c = CHR 0xBF"
  using code_eq_iff [of c "CHR 0xEF"] code_eq_iff [of c "CHR 0xBB"] code_eq_iff [of c "CHR 0xBF"]
  by simp_all

lemma scan_first_mark: "scan_first (code y) = L30 \<longleftrightarrow> y = CHR 0xEF"
  by (auto simp: scan_first_def code_marks [symmetric])

lemma scan_again:
  assumes "scan_token q y r = Some (Inr c)"
  shows "is_white y \<and> basic_json_parser_6 (Suc q) r = Some c \<or>
    y = CHR 0xEF \<and> (\<exists>r'. r = CHR 0xBB # CHR 0xBF # r') \<and> c = q + 3"
proof -
  have "scan_first (code y) = L6 \<or> scan_first (code y) = L30"
    using assms by (cases "scan_first (code y)") (auto simp: scan_token_def)
  then show ?thesis
  proof
    assume l: "scan_first (code y) = L6"
    then show ?thesis using assms scan_first_white [of y] by (auto simp: scan_token_def)
  next
    assume l: "scan_first (code y) = L30"
    then show ?thesis using assms scan_first_mark [of y]
      by (auto simp: scan_token_def basic_json_parser_30_def basic_json_parser_42_def code_marks
          split: list.splits if_splits)
  qed
qed

lemma skip_gap:
  "basic_json_parser_6 cursor r = Some c \<Longrightarrow> cursor \<le> c \<and> gap r (drop (c - cursor) r)"
proof (induction cursor r rule: basic_json_parser_6.induct)
  case (2 cursor y r)
  show ?case
  proof (cases "is_white y")
    case True
    then have "basic_json_parser_6 (cursor + 1) r = Some c" using 2(2) by (simp add: is_white_def)
    from 2(1) [OF _ this] True have "cursor < c" "gap r (drop (c - Suc cursor) r)"
      by (auto simp: is_white_def)
    moreover from this have "c - cursor = Suc (c - Suc cursor)" by simp
    ultimately show ?thesis using gap.white [OF True] by simp
  next
    case False
    then show ?thesis using 2(2) by (auto simp: is_white_def intro: gap.none)
  qed
qed simp

lemma scan_from_gap: "scan_from fuel inp q = Some (t, s, c) \<Longrightarrow> gap (drop q inp) (drop s inp)"
proof (induction fuel arbitrary: q)
  case (Suc fuel)
  from Suc.prems obtain y r where yr: "drop q inp = y # r" by (cases "drop q inp") auto
  then have r: "r = drop (Suc q) inp" by (metis drop_Suc list.sel(3) tl_drop)
  show ?case
  proof (cases "scan_token q y r")
    case (Some x)
    show ?thesis
    proof (cases x)
      case (Inl tc)
      then show ?thesis using Suc.prems Some yr by (cases tc) (auto intro: gap.none)
    next
      case (Inr c')
      then have "gap (drop c' inp) (drop s inp)" using Suc Some yr by simp
      moreover have "gap (y # r) (drop c' inp)"
        using scan_again [OF Some [unfolded Inr]]
      proof (elim disjE conjE exE)
        assume w: "is_white y" and "basic_json_parser_6 (Suc q) r = Some c'"
        then have "Suc q \<le> c'" "gap r (drop (c' - Suc q) r)" using skip_gap by blast+
        then show ?thesis using gap.white [OF w] r by simp
      next
        fix r' assume m: "y = CHR 0xEF" "c' = q + 3" "r = CHR 0xBB # CHR 0xBF # r'"
        then have "drop c' inp = r'" using yr by (metis add.commute drop_drop drop_Suc_Cons drop0 numeral_3_eq_3)
        then show ?thesis using m by (auto intro: gap_mark gap.none)
      qed
      ultimately show ?thesis using yr gap_trans by metis
    qed
  qed (use Suc.prems yr in simp)
qed simp

lemma scanned_solid: "scan_token q y r = Some (Inl x) \<Longrightarrow> solid (y # r)"
proof -
  assume s: "scan_token q y r = Some (Inl x)"
  have "\<not> is_white y" using s scan_first_white [of y] by (auto simp: scan_token_def)
  moreover have "y # r \<noteq> BOM @ t" for t
    using s scan_first_mark [of y]
    by (auto simp: scan_token_def basic_json_parser_30_def basic_json_parser_42_def)
  ultimately show ?thesis by (simp add: solid_def)
qed

section \<open>The parser at a place of the text\<close>

text \<open>The text from the last token on, and behind it.\<close>

definition here :: "'f json_parser \<Rightarrow> char list" where
  "here p = drop (m_start (m_lexer p)) (text_of p)"

definition behind :: "'f json_parser \<Rightarrow> char list" where
  "behind p = drop (m_cursor (m_lexer p)) (text_of p)"

definition on :: "'f json_parser \<Rightarrow> char list \<Rightarrow> bool" where
  "on p s \<longleftrightarrow> callback p = None \<and> lexed p \<and> gap s (here p)"

lemma lexed_solid: "lexed p \<Longrightarrow> solid (here p)"
  by (auto simp: lexed_def here_def [symmetric] simp del: drop_append dest: scanned_solid)

lemma on_gap: "gap s s' \<Longrightarrow> on p s \<longleftrightarrow> on p s'"
  unfolding on_def by (meson gap_to_solid gap_trans lexed_solid)

lemma on_here: "on p s \<Longrightarrow> on p (here p)"
  by (simp add: on_def gap.none)

lemma on_callback: "on p s \<Longrightarrow> callback p = None"
  by (simp add: on_def)

text \<open>A token that the text begins with is the parser's last token.\<close>

lemma on_scan:
  assumes p: "on p s" and s: "gap s (y # r)" and t: "\<And>q. scan_token q y r = Some (Inl (t, q + n))"
  shows "last_token p = t" and "behind p = drop n (y # r)" and "here p = y # r"
proof -
  show h: "here p = y # r"
  proof (rule gap_solid)
    show "gap (y # r) (here p)" using p gap_to_solid [OF s] lexed_solid by (auto simp: on_def)
  qed (rule scanned_solid [OF t])
  then have c: "last_token p = t" "m_cursor (m_lexer p) = m_start (m_lexer p) + n"
    using p t by (auto simp: on_def lexed_def here_def [symmetric] simp del: drop_append)
  show "last_token p = t" by (rule c(1))
  show "behind p = drop n (y # r)" unfolding behind_def c(2) h [symmetric] here_def
    by (simp only: drop_drop add.commute)
qed

lemma on_here_scan:
  assumes "on p s"
  obtains y r where "here p = y # r"
    and "scan_token (m_start (m_lexer p)) y r = Some (Inl (last_token p, m_cursor (m_lexer p)))"
  using assms by (auto simp: on_def lexed_def here_def [symmetric] simp del: drop_append)

lemma next_token_gap:
  assumes "next_token p = Some (Inr p')"
  shows "gap (behind p) (here p')" and "callback p' = callback p"
  using assms
  by (auto simp: next_token_def scan_tok tok_def here_def behind_def dest: scan_from_gap
      simp del: scan_from.simps drop_append)

lemma next_on:
  assumes "on p s" and "last_token p \<noteq> end_of_input"
  shows "\<exists>p'. next_token p = Some (Inr p') \<and> on p' (behind p)"
proof -
  obtain p' where "next_token p = Some (Inr p')" "advanced p p'"
    using next_token_advances assms by (auto simp: on_def)
  with assms show ?thesis using next_token_gap [of p p'] by (auto simp: on_def advanced_def)
qed

lemma parser_of_on:
  "\<exists>p :: 'f json_parser. parser_of s None = Some (Inr p) \<and> on p (s @ [NUL]) \<and> m_content (m_lexer p) = s"
proof -
  let ?p0 = "\<lparr>depth = 0, callback = None, last_token = uninitialized, m_lexer = lexer_of s\<rparr> :: 'f json_parser"
  have "m_cursor (m_lexer ?p0) < length (text_of ?p0)" by (simp add: lexer_of_def)
  then obtain p where "next_token ?p0 = Some (Inr p)" "advanced ?p0 p" by (metis next_token_from)
  then show ?thesis using next_token_gap [of ?p0 p]
    by (auto simp: on_def advanced_def parser_of_def lexer_of_def behind_def)
qed

section \<open>The first characters of tokens\<close>

lemma scan_first_codes:
  "scan_first n = L2 \<longleftrightarrow> n = 0"
  "scan_first n = L10 \<longleftrightarrow> n = 0x2C" "scan_first n = L12 \<longleftrightarrow> n = 0x2D" "scan_first n = L13 \<longleftrightarrow> n = 0x30"
  "scan_first n = L17 \<longleftrightarrow> n = 0x3A" "scan_first n = L19 \<longleftrightarrow> n = 0x5B" "scan_first n = L21 \<longleftrightarrow> n = 0x5D"
  "scan_first n = L23 \<longleftrightarrow> n = 0x66" "scan_first n = L24 \<longleftrightarrow> n = 0x6E" "scan_first n = L25 \<longleftrightarrow> n = 0x74"
  "scan_first n = L26 \<longleftrightarrow> n = 0x7B" "scan_first n = L28 \<longleftrightarrow> n = 0x7D"
  if "n < 256"
  using that by (auto simp: scan_first_def)

section \<open>Numbers\<close>

lemma follows_ends:
  assumes "follows r"
  obtains y r' where "r = y # r'" and "ends_number y"
proof -
  obtain y r' where r: "r = y # r'" "is_white y \<or> y \<in> {CHR '','', CHR '']'', CHR ''}'', NUL, CHR 0xEF}"
    using assms by (auto simp: follows_def)
  then have "ends_number y" by (auto simp: ends_number_def is_digit_def is_white_def)
  with r(1) show thesis by (rule that)
qed

text \<open>The labels read every number of the grammar to its end.\<close>

lemma reads_47:
  "list_all is_digit ds \<Longrightarrow> ends_number y \<Longrightarrow>
   basic_json_parser_47 cur (ds @ y # r) = Some (value_number, cur + length ds)"
  by (induction ds arbitrary: cur) (auto simp: ends_number_def is_digit_def)

lemma reads_46:
  "digits ds \<Longrightarrow> ends_number y \<Longrightarrow>
   basic_json_parser_46 m cur (ds @ y # r) = Some (value_number, cur + length ds)"
  using reads_47 [of "tl ds" y "Suc cur" r]
  by (cases ds) (auto simp: digits_def basic_json_parser_46_def is_digit_def)

lemma reads_38:
  assumes "digits ds" and "sg \<in> {'''', ''+'', ''-''}" and "ends_number y"
  shows "basic_json_parser_38 m cur (sg @ ds @ y # r) = Some (value_number, cur + length sg + length ds)"
  using assms reads_46 [OF assms(1,3), of m "Suc cur" r] reads_47 [of "tl ds" y "Suc cur" r]
  by (cases ds) (auto simp: digits_def basic_json_parser_38_def is_digit_def)

text \<open>An exponent behind a label's digits, or the end of the number.\<close>

lemma exponent_cases:
  assumes "exponent e"
  obtains "e = []" | c sg ds where "e = c # sg @ ds" and "code c = 0x45 \<or> code c = 0x65"
    and "sg \<in> {'''', ''+'', ''-''}" and "digits ds"
proof (cases "e = []")
  case False
  then obtain c sg ds where "e = c # sg @ ds" "c \<in> {CHR ''e'', CHR ''E''}" "sg \<in> {'''', ''+'', ''-''}" "digits ds"
    using assms by (auto simp only: exponent_def)
  moreover from this(2) have "code c = 0x45 \<or> code c = 0x65" by auto
  ultimately show thesis by (intro that(2))
qed (rule that(1))

lemma reads_44:
  assumes "list_all is_digit ds" and e: "exponent e" and y: "ends_number y"
  shows "basic_json_parser_44 cur (ds @ e @ y # r) = Some (value_number, cur + length ds + length e)"
  using assms(1)
proof (induction ds arbitrary: cur)
  case Nil
  from e show ?case
  proof (cases rule: exponent_cases)
    case 1
    then show ?thesis using y by (auto simp: ends_number_def is_digit_def)
  next
    case (2 c sg es)
    then show ?thesis using reads_38 [OF 2(4,3) y, of cur "Suc cur" r] by auto
  qed
qed (simp add: is_digit_def)

lemma reads_37:
  "digits ds \<Longrightarrow> exponent e \<Longrightarrow> ends_number y \<Longrightarrow>
   basic_json_parser_37 m cur (ds @ e @ y # r) = Some (value_number, cur + length ds + length e)"
  using reads_44 [of "tl ds" e y "Suc cur" r]
  by (cases ds) (auto simp: digits_def basic_json_parser_37_def is_digit_def)

lemma reads_13:
  assumes f: "fraction f" and e: "exponent e" and y: "ends_number y"
  shows "basic_json_parser_13 cur (f @ e @ y # r) = Some (value_number, cur + length f + length e)"
proof (cases "f = []")
  case True
  from e show ?thesis
  proof (cases rule: exponent_cases)
    case 1
    then show ?thesis using y True by (auto simp: ends_number_def is_digit_def basic_json_parser_13_def)
  next
    case (2 c sg es)
    then show ?thesis using True reads_38 [OF 2(4,3) y, of cur "Suc cur" r]
      by (auto simp: basic_json_parser_13_def)
  qed
next
  case False
  then obtain ds where "f = CHR ''.'' # ds" "digits ds" using f by (auto simp: fraction_def)
  then show ?thesis using reads_37 [OF _ e y, of ds cur "Suc cur" r]
    by (simp add: basic_json_parser_13_def)
qed

lemma label_15_13:
  "r \<noteq> [] \<Longrightarrow> \<not> is_digit (hd r) \<Longrightarrow> basic_json_parser_15 cur r = basic_json_parser_13 cur r"
  by (cases r) (auto simp: basic_json_parser_13_def)

lemma reads_15:
  assumes "list_all is_digit ds" and f: "fraction f" and e: "exponent e" and y: "ends_number y"
  shows "basic_json_parser_15 cur (ds @ f @ e @ y # r) =
    Some (value_number, cur + length ds + length f + length e)"
  using assms(1)
proof (induction ds arbitrary: cur)
  case Nil
  have "\<not> is_digit (hd (f @ e @ y # r))"
    using f e y by (auto simp: fraction_def exponent_def ends_number_def is_digit_def)
  then have "basic_json_parser_15 cur (f @ e @ y # r) = basic_json_parser_13 cur (f @ e @ y # r)"
    by (intro label_15_13) auto
  then show ?case using reads_13 [OF f e y, of cur r] by simp
qed simp

text \<open>And what they read is a number of the grammar.\<close>

lemma code_number:
  "code c = 0x2B \<longleftrightarrow> c = CHR ''+''" "code c = 0x2D \<longleftrightarrow> c = CHR ''-''" "code c = 0x2E \<longleftrightarrow> c = CHR ''.''"
  "code c = 0x30 \<longleftrightarrow> c = CHR ''0''" "code c = 0x45 \<longleftrightarrow> c = CHR ''E''" "code c = 0x65 \<longleftrightarrow> c = CHR ''e''"
  using code_eq_iff [of c "CHR ''+''"] code_eq_iff [of c "CHR ''-''"] code_eq_iff [of c "CHR ''.''"]
    code_eq_iff [of c "CHR ''0''"] code_eq_iff [of c "CHR ''E''"] code_eq_iff [of c "CHR ''e''"]
  by simp_all

lemma scanned_47:
  "basic_json_parser_47 cur r = Some (t, c) \<Longrightarrow>
   \<exists>ds r'. r = ds @ r' \<and> list_all is_digit ds \<and> c = cur + length ds"
proof (induction cur r rule: basic_json_parser_47.induct)
  case (2 cur y r)
  show ?case
  proof (cases "is_digit y")
    case True
    then have "basic_json_parser_47 (cur + 1) r = Some (t, c)" "\<not> code y \<le> 0x2F" "code y \<le> 0x39"
      using 2(2) by (auto simp: is_digit_def)
    from 2(1) [OF this(2,3,1)] obtain ds r' where "r = ds @ r'" "list_all is_digit ds" "c = Suc cur + length ds"
      by auto
    with True show ?thesis by (intro exI [of _ "y # ds"] exI [of _ r']) simp
  next
    case False
    then have "c = cur" using 2(2) by (auto simp: is_digit_def split: if_splits)
    then show ?thesis by - (rule exI [of _ "[]"], rule exI [of _ "y # r"], simp)
  qed
qed simp

text \<open>What a label reads, or it goes back to the marker.\<close>

lemma scanned_46:
  assumes "basic_json_parser_46 m cur r = Some (t, c)"
  shows "c = m \<or> (\<exists>ds r'. r = ds @ r' \<and> digits ds \<and> c = cur + length ds)"
proof (cases r)
  case (Cons y r1)
  show ?thesis
  proof (cases "is_digit y")
    case True
    then have "basic_json_parser_47 (Suc cur) r1 = Some (t, c)"
      using assms Cons by (auto simp: basic_json_parser_46_def is_digit_def split: if_splits)
    from scanned_47 [OF this] obtain ds r' where "r1 = ds @ r'" "list_all is_digit ds" "c = Suc cur + length ds"
      by blast
    with True Cons show ?thesis by (intro disjI2 exI [of _ "y # ds"] exI [of _ r']) (simp add: digits_def)
  next
    case False
    then show ?thesis using assms Cons by (auto simp: basic_json_parser_46_def is_digit_def split: if_splits)
  qed
qed (use assms in \<open>simp add: basic_json_parser_46_def\<close>)

lemma label_38:
  "basic_json_parser_38 m cur (y # r) =
    (if y = CHR ''+'' \<or> y = CHR ''-'' then basic_json_parser_46 m (Suc cur) r
     else basic_json_parser_46 m cur (y # r))"
  by (auto simp: basic_json_parser_38_def basic_json_parser_46_def code_number [symmetric])

lemma scanned_38:
  assumes "basic_json_parser_38 m cur r = Some (t, c)" and "y = CHR ''e'' \<or> y = CHR ''E''"
  shows "c = m \<or> (\<exists>e r'. y # r = e @ r' \<and> exponent e \<and> Suc c = cur + length e)"
proof (cases r)
  case (Cons z r1)
  have e: "exponent (y # sg @ ds)" if "sg \<in> {'''', ''+'', ''-''}" "digits ds" for sg ds
    using assms(2) that unfolding exponent_def by blast
  show ?thesis
  proof (cases "z = CHR ''+'' \<or> z = CHR ''-''")
    case True
    then have "basic_json_parser_46 m (Suc cur) r1 = Some (t, c)" using assms(1) Cons by (simp add: label_38)
    then consider "c = m" | ds r' where "r1 = ds @ r'" "digits ds" "c = Suc cur + length ds"
      using scanned_46 by blast
    then show ?thesis
    proof cases
      case (2 ds r')
      then show ?thesis using e [of "[z]" ds] True Cons
        by (intro disjI2 exI [of _ "y # [z] @ ds"] exI [of _ r']) auto
    qed simp
  next
    case False
    then have "basic_json_parser_46 m cur r = Some (t, c)" using assms(1) Cons by (simp add: label_38)
    then consider "c = m" | ds r' where "r = ds @ r'" "digits ds" "c = cur + length ds"
      using scanned_46 by blast
    then show ?thesis
    proof cases
      case (2 ds r')
      then show ?thesis using e [of "[]" ds] by (intro disjI2 exI [of _ "y # [] @ ds"] exI [of _ r']) auto
    qed simp
  qed
qed (use assms in \<open>simp add: basic_json_parser_38_def\<close>)

lemma scanned_44:
  "basic_json_parser_44 cur r = Some (t, c) \<Longrightarrow>
   \<exists>ds e r'. r = ds @ e @ r' \<and> list_all is_digit ds \<and> exponent e \<and> c = cur + length ds + length e"
proof (induction cur r rule: basic_json_parser_44.induct)
  case (2 cur y r)
  have stop: ?case if "c = cur"
    by (rule exI [of _ "[]"], rule exI [of _ "[]"], rule exI [of _ "y # r"]) (simp add: that exponent_def)
  show ?case
  proof (cases "is_digit y")
    case True
    then have "basic_json_parser_44 (cur + 1) r = Some (t, c)" "code y \<le> 0x44" "\<not> code y \<le> 0x2F" "code y \<le> 0x39"
      using 2(2) by (auto simp: is_digit_def)
    from 2(1) [OF this(2-4,1)] obtain ds e r' where "r = ds @ e @ r'" "list_all is_digit ds" "exponent e"
        "c = Suc cur + length ds + length e" by auto
    with True show ?thesis by (intro exI [of _ "y # ds"] exI [of _ e] exI [of _ r']) simp
  next
    case no_digit: False
    show ?thesis
    proof (cases "y = CHR ''e'' \<or> y = CHR ''E''")
      case True
      then have "basic_json_parser_38 cur (Suc cur) r = Some (t, c)" using 2(2) by (auto simp: code_number)
      from scanned_38 [OF this True] consider "c = cur" | e r' where "y # r = e @ r'" "exponent e" "c = cur + length e"
        by auto
      then show ?thesis
      proof cases
        case (2 e r')
        then show ?thesis by - (rule exI [of _ "[]"], rule exI [of _ e], rule exI [of _ r'], simp)
      qed (rule stop)
    next
      case False
      then have "code y \<noteq> 0x45" "code y \<noteq> 0x65" by (simp_all add: code_number)
      then have "c = cur" using no_digit 2(2) by (auto simp: is_digit_def split: if_splits)
      then show ?thesis by (rule stop)
    qed
  qed
qed simp

lemma scanned_37:
  assumes "basic_json_parser_37 m cur r = Some (t, c)"
  shows "c = m \<or> (\<exists>ds e r'. r = ds @ e @ r' \<and> digits ds \<and> exponent e \<and> c = cur + length ds + length e)"
proof (cases r)
  case (Cons y r1)
  show ?thesis
  proof (cases "is_digit y")
    case True
    then have "basic_json_parser_44 (Suc cur) r1 = Some (t, c)"
      using assms Cons by (auto simp: basic_json_parser_37_def is_digit_def split: if_splits)
    from scanned_44 [OF this] obtain ds e r' where "r1 = ds @ e @ r'" "list_all is_digit ds" "exponent e"
        "c = Suc cur + length ds + length e" by blast
    with True Cons show ?thesis
      by (intro disjI2 exI [of _ "y # ds"] exI [of _ e] exI [of _ r']) (simp add: digits_def)
  next
    case False
    then show ?thesis using assms Cons by (auto simp: basic_json_parser_37_def is_digit_def split: if_splits)
  qed
qed (use assms in \<open>simp add: basic_json_parser_37_def\<close>)

lemma label_13:
  "basic_json_parser_13 cur (y # r) =
    (if y = CHR ''.'' then basic_json_parser_37 cur (Suc cur) r
     else if y = CHR ''e'' \<or> y = CHR ''E'' then basic_json_parser_38 cur (Suc cur) r
     else Some (value_number, cur))"
  by (auto simp: basic_json_parser_13_def code_number [symmetric])

lemma scanned_13:
  assumes "basic_json_parser_13 cur r = Some (t, c)"
  shows "\<exists>f e r'. r = f @ e @ r' \<and> fraction f \<and> exponent e \<and> c = cur + length f + length e"
proof (cases r)
  case (Cons y r1)
  have stop: ?thesis if "c = cur"
    by (rule exI [of _ "[]"], rule exI [of _ "[]"], rule exI [of _ r])
      (simp add: that exponent_def fraction_def)
  consider "y = CHR ''.''" | "y = CHR ''e'' \<or> y = CHR ''E''" | "y \<notin> {CHR ''.'', CHR ''e'', CHR ''E''}" by blast
  then show ?thesis
  proof cases
    case 1
    then have "basic_json_parser_37 cur (Suc cur) r1 = Some (t, c)" using assms Cons by (simp add: label_13)
    from scanned_37 [OF this] consider "c = cur" | ds e r' where "r1 = ds @ e @ r'" "digits ds" "exponent e"
        "c = Suc cur + length ds + length e" by blast
    then show ?thesis
    proof cases
      case (2 ds e r')
      with 1 Cons show ?thesis
        by (intro exI [of _ "CHR ''.'' # ds"] exI [of _ e] exI [of _ r']) (simp add: fraction_def)
    qed (rule stop)
  next
    case 2
    then have "basic_json_parser_38 cur (Suc cur) r1 = Some (t, c)" using assms Cons by (auto simp: label_13)
    from scanned_38 [OF this 2] consider "c = cur" | e r' where "y # r1 = e @ r'" "exponent e" "c = cur + length e"
      by auto
    then show ?thesis
    proof cases
      case (2 e r')
      then show ?thesis using Cons
        by - (rule exI [of _ "[]"], rule exI [of _ e], rule exI [of _ r'], simp add: fraction_def)
    qed (rule stop)
  next
    case 3
    then show ?thesis using assms Cons stop by (simp add: label_13)
  qed
qed (use assms in \<open>simp add: basic_json_parser_13_def\<close>)

lemma scanned_15:
  "basic_json_parser_15 cur r = Some (t, c) \<Longrightarrow>
   \<exists>ds f e r'. r = ds @ f @ e @ r' \<and> list_all is_digit ds \<and> fraction f \<and> exponent e \<and>
     c = cur + length ds + length f + length e"
proof (induction r arbitrary: cur)
  case (Cons y r)
  show ?case
  proof (cases "is_digit y")
    case True
    then have "basic_json_parser_15 (Suc cur) r = Some (t, c)" using Cons.prems by simp
    from Cons.IH [OF this] obtain ds f e r' where "r = ds @ f @ e @ r'" "list_all is_digit ds" "fraction f"
        "exponent e" "c = Suc cur + length ds + length f + length e" by blast
    with True show ?thesis
      by (intro exI [of _ "y # ds"] exI [of _ f] exI [of _ e] exI [of _ r']) simp
  next
    case False
    then have "basic_json_parser_13 cur (y # r) = Some (t, c)"
      using Cons.prems label_15_13 [of "y # r" cur] by simp
    from scanned_13 [OF this] show ?thesis by - (rule exI [of _ "[]"], simp)
  qed
qed simp

text \<open>The integer part, and the whole number.\<close>

lemma int_part_cases:
  assumes "int_part ip"
  obtains "ip = ''0''" | i ds where "ip = i # ds" and "0x31 \<le> code i" and "code i \<le> 0x39"
    and "list_all is_digit ds"
proof (cases ip)
  case (Cons i ds)
  show ?thesis
  proof (cases "ip = ''0''")
    case False
    then have "is_digit i" "i \<noteq> CHR ''0''" "list_all is_digit ds"
      using assms Cons by (auto simp: int_part_def digits_def)
    with code_number(4) [of i] show ?thesis by (intro that(2) [OF Cons]) (auto simp: is_digit_def)
  qed (rule that(1))
qed (use assms in \<open>simp add: int_part_def digits_def\<close>)

lemma int_partI: "0x31 \<le> code i \<Longrightarrow> code i \<le> 0x39 \<Longrightarrow> list_all is_digit ds \<Longrightarrow> int_part (i # ds)"
  by (auto simp: int_part_def digits_def is_digit_def)

lemma reads_int_part:
  assumes ip: "int_part ip" and f: "fraction f" and e: "exponent e" and y: "ends_number y"
  shows "\<exists>i ds. ip = i # ds \<and> scan_token q i (ds @ f @ e @ y # r) =
      Some (Inl (value_number, q + length ip + length f + length e))"
    and "basic_json_parser_12 q (ip @ f @ e @ y # r) =
      Some (value_number, q + length ip + length f + length e)"
proof -
  have "(\<exists>i ds. ip = i # ds \<and> scan_token q i (ds @ f @ e @ y # r) =
      Some (Inl (value_number, q + length ip + length f + length e))) \<and>
    basic_json_parser_12 q (ip @ f @ e @ y # r) =
      Some (value_number, q + length ip + length f + length e)"
    using ip
  proof (cases rule: int_part_cases)
    case 1
    then show ?thesis using reads_13 [OF f e y]
      by (simp add: scan_token_def scan_first_def basic_json_parser_12_def)
  next
    case (2 i ds)
    then have "scan_first (code i) = L15" by (simp add: scan_first_def)
    then show ?thesis using reads_15 [OF _ f e y] 2
      by (simp add: scan_token_def basic_json_parser_12_def)
  qed
  then show "\<exists>i ds. ip = i # ds \<and> scan_token q i (ds @ f @ e @ y # r) =
      Some (Inl (value_number, q + length ip + length f + length e))"
    "basic_json_parser_12 q (ip @ f @ e @ y # r) = Some (value_number, q + length ip + length f + length e)"
    by simp_all
qed

lemma number_reads:
  assumes "number_text s" and "follows r"
  shows "\<exists>y t. s = y # t \<and> scan_token q y (t @ r) = Some (Inl (value_number, q + length s))"
proof -
  obtain sign ip f e where s: "s = sign @ ip @ f @ e" "sign \<in> {'''', ''-''}" "int_part ip" "fraction f" "exponent e"
    using assms(1) by (auto simp only: number_text_def)
  obtain y r' where r: "r = y # r'" "ends_number y" using follows_ends [OF assms(2)] .
  show ?thesis
  proof (cases "sign = []")
    case True
    then show ?thesis using reads_int_part(1) [OF s(3-5) r(2), of q r'] s(1) r(1) by auto
  next
    case False
    then have "s = CHR ''-'' # ip @ f @ e" using s(1,2) by auto
    moreover have "scan_token q (CHR ''-'') ((ip @ f @ e) @ r) =
        Some (Inl (value_number, q + 1 + length ip + length f + length e))"
      using reads_int_part(2) [OF s(3-5) r(2), of "Suc q" r'] r(1)
      by (simp add: scan_token_def scan_first_def)
    ultimately show ?thesis by simp
  qed
qed

lemma scanned_int_part:
  assumes "scan_first (code y) = L13 \<and> basic_json_parser_13 (Suc q) r = Some (t, c) \<or>
    scan_first (code y) = L15 \<and> basic_json_parser_15 (Suc q) r = Some (t, c)"
  shows "\<exists>ip f e r'. y # r = ip @ f @ e @ r' \<and> int_part ip \<and> fraction f \<and> exponent e \<and>
    c = q + length ip + length f + length e"
  using assms
proof (elim disjE conjE)
  assume l: "scan_first (code y) = L13" "basic_json_parser_13 (Suc q) r = Some (t, c)"
  then have "y = CHR ''0''" using code_number(4) [of y] by (simp add: scan_first_codes)
  moreover obtain f e r' where "r = f @ e @ r'" "fraction f" "exponent e" "c = Suc q + length f + length e"
    using scanned_13 [OF l(2)] by blast
  ultimately show ?thesis
    by - (rule exI [of _ "''0''"], rule exI [of _ f], rule exI [of _ e], rule exI [of _ r'],
      simp add: int_part_def digits_def is_digit_def)
next
  assume l: "scan_first (code y) = L15" "basic_json_parser_15 (Suc q) r = Some (t, c)"
  then have "0x31 \<le> code y" "code y \<le> 0x39" by (auto simp: scan_first_def split: if_splits)
  moreover obtain ds f e r' where "r = ds @ f @ e @ r'" "list_all is_digit ds" "fraction f" "exponent e"
      "c = Suc q + length ds + length f + length e"
    using scanned_15 [OF l(2)] by blast
  ultimately show ?thesis
    by - (rule exI [of _ "y # ds"], rule exI [of _ f], rule exI [of _ e], rule exI [of _ r'],
      simp add: int_partI)
qed

lemma scanned_12:
  assumes "basic_json_parser_12 q r = Some (value_number, c)"
  shows "\<exists>ip f e r'. r = ip @ f @ e @ r' \<and> int_part ip \<and> fraction f \<and> exponent e \<and>
    c = q + length ip + length f + length e"
proof (cases r)
  case (Cons y r1)
  have "scan_first (code y) = L13 \<and> basic_json_parser_13 (Suc q) r1 = Some (value_number, c) \<or>
    scan_first (code y) = L15 \<and> basic_json_parser_15 (Suc q) r1 = Some (value_number, c)"
    using assms Cons by (auto simp: basic_json_parser_12_def scan_first_def split: if_splits)
  from scanned_int_part [OF this] Cons show ?thesis by simp
qed (use assms in \<open>simp add: basic_json_parser_12_def\<close>)

section \<open>Tokens are those of the grammar\<close>

text \<open>The characters of a token.\<close>

fun lexeme :: "token_type \<Rightarrow> char list \<Rightarrow> bool" where
  "lexeme literal_true w \<longleftrightarrow> w = ''true''"
| "lexeme literal_false w \<longleftrightarrow> w = ''false''"
| "lexeme literal_null w \<longleftrightarrow> w = ''null''"
| "lexeme value_string w \<longleftrightarrow> (\<exists>b. w = CHR 0x22 # b @ [CHR 0x22] \<and> string_body b)"
| "lexeme value_number w \<longleftrightarrow> number_text w"
| "lexeme begin_array w \<longleftrightarrow> w = ''[''"
| "lexeme begin_object w \<longleftrightarrow> w = ''{''"
| "lexeme end_array w \<longleftrightarrow> w = '']''"
| "lexeme end_object w \<longleftrightarrow> w = ''}''"
| "lexeme name_separator w \<longleftrightarrow> w = '':''"
| "lexeme value_separator w \<longleftrightarrow> w = '',''"
| "lexeme end_of_input w \<longleftrightarrow> w = [NUL]"
| "lexeme parse_error w \<longleftrightarrow> True"
| "lexeme uninitialized w \<longleftrightarrow> False"

definition reads_lexeme :: "nat \<Rightarrow> char list \<Rightarrow> (token_type \<times> nat) option \<Rightarrow> bool" where
  "reads_lexeme q s x \<longleftrightarrow> (\<forall>t c. x = Some (t, c) \<longrightarrow> t = parse_error \<or>
     (\<exists>w r. s = w @ r \<and> lexeme t w \<and> c = q + length w))"

lemma reads_lexeme_one [simp]:
  "reads_lexeme q (y # r) (Some (t, Suc q)) \<longleftrightarrow> t = parse_error \<or> (\<exists>w r'. y # r = w @ r' \<and> lexeme t w \<and> length w = 1)"
  by (auto simp: reads_lexeme_def)

lemma numberI:
  "sign \<in> {'''', ''-''} \<Longrightarrow> int_part ip \<Longrightarrow> fraction f \<Longrightarrow> exponent e \<Longrightarrow> number_text (sign @ ip @ f @ e)"
  unfolding number_text_def by blast

lemma number_lexeme:
  "scan_first (code y) = L13 \<Longrightarrow> reads_lexeme q (y # r) (basic_json_parser_13 (Suc q) r)"
  "scan_first (code y) = L15 \<Longrightarrow> reads_lexeme q (y # r) (basic_json_parser_15 (Suc q) r)"
proof -
  have "\<exists>w r'. y # r = w @ r' \<and> lexeme value_number w \<and> c = q + length w"
    if n: "scan_first (code y) = L13 \<and> basic_json_parser_13 (Suc q) r = Some (t, c) \<or>
      scan_first (code y) = L15 \<and> basic_json_parser_15 (Suc q) r = Some (t, c)" for t c
  proof -
    obtain ip f e r' where "y # r = ip @ f @ e @ r'" "int_part ip" "fraction f" "exponent e"
        "c = q + length ip + length f + length e"
      using scanned_int_part [OF n] by blast
    then show ?thesis using numberI [of "''''" ip f e]
      by (intro exI [of _ "ip @ f @ e"] exI [of _ r']) simp
  qed
  note n = this
  show "reads_lexeme q (y # r) (basic_json_parser_13 (Suc q) r)" if "scan_first (code y) = L13"
    using n that number_tokens(4) [of "Suc q" r] unfolding reads_lexeme_def by metis
  show "reads_lexeme q (y # r) (basic_json_parser_15 (Suc q) r)" if "scan_first (code y) = L15"
    using n that number_tokens(3) [of "Suc q" r] unfolding reads_lexeme_def by metis
qed

lemma minus_lexeme: "reads_lexeme q (CHR ''-'' # r) (basic_json_parser_12 (Suc q) r)"
  unfolding reads_lexeme_def
proof (intro allI impI)
  fix t c assume l: "basic_json_parser_12 (Suc q) r = Some (t, c)"
  show "t = parse_error \<or> (\<exists>w r'. CHR ''-'' # r = w @ r' \<and> lexeme t w \<and> c = q + length w)"
  proof (cases "t = value_number")
    case True
    from scanned_12 [OF l [unfolded True]] obtain ip f e r' where "r = ip @ f @ e @ r'" "int_part ip" "fraction f" "exponent e"
        "c = Suc q + length ip + length f + length e" by blast
    then show ?thesis using numberI [of "''-''" ip f e] True
      by (intro disjI2 exI [of _ "''-'' @ ip @ f @ e"] exI [of _ r']) simp
  next
    case False
    then show ?thesis using l number_tokens(3,4)
      by (fastforce simp: basic_json_parser_12_def split: list.splits if_splits)
  qed
qed

lemma code_letters:
  "code c = 0x61 \<longleftrightarrow> c = CHR ''a''" "code c = 0x6C \<longleftrightarrow> c = CHR ''l''" "code c = 0x73 \<longleftrightarrow> c = CHR ''s''"
  using code_eq_iff [of c "CHR ''a''"] code_eq_iff [of c "CHR ''l''"] code_eq_iff [of c "CHR ''s''"]
  by simp_all

lemma literal_lexemes:
  "reads_lexeme q (CHR ''f'' # r) (basic_json_parser_23 (Suc q) r)"
  "reads_lexeme q (CHR ''n'' # r) (basic_json_parser_24 (Suc q) r)"
  "reads_lexeme q (CHR ''t'' # r) (basic_json_parser_25 (Suc q) r)"
  unfolding reads_lexeme_def literal_defs
  by (auto simp: code_letters code_values code_number split: list.splits if_splits)

lemma string_lexeme: "reads_lexeme q (CHR 0x22 # r) (basic_json_parser_9 (Suc q) r)"
proof -
  have t: "t \<in> {value_string, parse_error}" if "basic_json_parser_31 l m cur r = Some (t, c)" for l m cur r t c
    using that by (induction l m cur r rule: basic_json_parser_31.induct) (auto simp: Let_def split: if_splits)
  have st: "scan_token q (CHR 0x22) r = map_option Inl (basic_json_parser_9 (Suc q) r)"
    by (simp add: scan_token_def scan_first_def)
  show ?thesis unfolding reads_lexeme_def
  proof (intro allI impI)
    fix t c assume l: "basic_json_parser_9 (Suc q) r = Some (t, c)"
    show "t = parse_error \<or> (\<exists>w r'. CHR 0x22 # r = w @ r' \<and> lexeme t w \<and> c = q + length w)"
    proof (cases "t = value_string")
      case True
      then obtain b r' where "r = b @ CHR 0x22 # r'" "string_body b" "c = q + length b + 2"
        using string_token [of q r c] l st by auto
      then show ?thesis using True
        by (intro disjI2 exI [of _ "CHR 0x22 # b @ [CHR 0x22]"] exI [of _ r']) simp
    next
      case False
      then show ?thesis using l t
        by (fastforce simp: basic_json_parser_9_def simp del: basic_json_parser_31.simps
            split: list.splits if_splits)
    qed
  qed
qed

lemma scan_first_char:
  "scan_first (code y) = L2 \<Longrightarrow> y = NUL" "scan_first (code y) = L9 \<Longrightarrow> y = CHR 0x22"
  "scan_first (code y) = L10 \<Longrightarrow> y = CHR '',''" "scan_first (code y) = L12 \<Longrightarrow> y = CHR ''-''"
  "scan_first (code y) = L17 \<Longrightarrow> y = CHR '':''" "scan_first (code y) = L19 \<Longrightarrow> y = CHR ''[''"
  "scan_first (code y) = L21 \<Longrightarrow> y = CHR '']''" "scan_first (code y) = L23 \<Longrightarrow> y = CHR ''f''"
  "scan_first (code y) = L24 \<Longrightarrow> y = CHR ''n''" "scan_first (code y) = L25 \<Longrightarrow> y = CHR ''t''"
  "scan_first (code y) = L26 \<Longrightarrow> y = CHR ''{''" "scan_first (code y) = L28 \<Longrightarrow> y = CHR ''}''"
  using code_eq_iff [of y NUL] code_eq_iff [of y "CHR '',''"] code_eq_iff [of y "CHR ''-''"]
    code_eq_iff [of y "CHR '':''"] code_eq_iff [of y "CHR ''[''"] code_eq_iff [of y "CHR '']''"]
    code_eq_iff [of y "CHR ''f''"] code_eq_iff [of y "CHR ''n''"] code_eq_iff [of y "CHR ''t''"]
    code_eq_iff [of y "CHR ''{''"] code_eq_iff [of y "CHR ''}''"] scan_first_quote [of y]
  by (simp_all add: scan_first_codes)

lemma label_lexeme:
  "scan_first (code y) = L9 \<Longrightarrow> reads_lexeme q (y # r) (basic_json_parser_9 (Suc q) r)"
  "scan_first (code y) = L12 \<Longrightarrow> reads_lexeme q (y # r) (basic_json_parser_12 (Suc q) r)"
  "scan_first (code y) = L13 \<Longrightarrow> reads_lexeme q (y # r) (basic_json_parser_13 (Suc q) r)"
  "scan_first (code y) = L15 \<Longrightarrow> reads_lexeme q (y # r) (basic_json_parser_15 (Suc q) r)"
  "scan_first (code y) = L23 \<Longrightarrow> reads_lexeme q (y # r) (basic_json_parser_23 (Suc q) r)"
  "scan_first (code y) = L24 \<Longrightarrow> reads_lexeme q (y # r) (basic_json_parser_24 (Suc q) r)"
  "scan_first (code y) = L25 \<Longrightarrow> reads_lexeme q (y # r) (basic_json_parser_25 (Suc q) r)"
  using number_lexeme [of y q r] minus_lexeme [of q r] literal_lexemes [of q r] string_lexeme [of q r]
    scan_first_char [of y] by blast+

lemma reads_lexeme_char: "lexeme t [y] \<Longrightarrow> reads_lexeme q (y # r) (Some (t, Suc q))"
  by (simp, rule disjI2, rule exI [of _ "[y]"], simp)

lemma scanned_reads:
  assumes "scan_token q y r = Some (Inl (t, c))"
  shows "reads_lexeme q (y # r) (Some (t, c))"
proof -
  have bom: "t = parse_error" if "basic_json_parser_30 (Suc q) r = Some (Inl (t, c))" for t c
    using that by (auto simp: basic_json_parser_30_def basic_json_parser_42_def split: list.splits if_splits)
  have error: "reads_lexeme q s (Some (parse_error, c))" for s c
    by (simp add: reads_lexeme_def)
  show ?thesis
    using assms label_lexeme [of y q r]
    by (cases "scan_first (code y)")
      (auto simp: scan_token_def scan_first_char simp del: reads_lexeme_one intro!: reads_lexeme_char error dest!: bom)
qed

lemma scanned_lexeme:
  assumes "scan_token q y r = Some (Inl (t, c))" and "t \<noteq> parse_error"
  shows "\<exists>w r'. y # r = w @ r' \<and> lexeme t w \<and> c = q + length w"
  using scanned_reads [OF assms(1)] assms(2) by (simp add: reads_lexeme_def)

lemma on_lexeme:
  assumes "on p s" and "last_token p \<noteq> parse_error"
  shows "\<exists>w. here p = w @ behind p \<and> lexeme (last_token p) w \<and>
    m_cursor (m_lexer p) = m_start (m_lexer p) + length w"
proof -
  obtain y r where yr: "here p = y # r"
      "scan_token (m_start (m_lexer p)) y r = Some (Inl (last_token p, m_cursor (m_lexer p)))"
    using on_here_scan [OF assms(1)] .
  obtain w r' where w: "y # r = w @ r'" "lexeme (last_token p) w"
      "m_cursor (m_lexer p) = m_start (m_lexer p) + length w"
    using scanned_lexeme [OF yr(2) assms(2)] by blast
  have "behind p = drop (length w) (here p)"
    unfolding behind_def here_def w(3) by (simp only: drop_drop add.commute)
  then show ?thesis using w yr(1) by (intro exI [of _ w]) simp
qed

section \<open>The values of tokens\<close>

lemma take_all_digits: "list_all is_digit ds \<Longrightarrow> follows r \<Longrightarrow> takeWhile is_digit (ds @ r) = ds"
  by (erule follows_ends) (simp add: ends_number_def takeWhile_append list_all_iff)

lemma take_fewer_digits: "\<not> list_all is_digit ds \<Longrightarrow> length (takeWhile is_digit (ds @ r)) < length ds"
  by (induction ds) auto

lemma number_first:
  assumes "number_text s"
  shows "\<exists>y t. s = y # t \<and> (if y = CHR ''-'' then t \<noteq> [] \<and> is_digit (hd t) else is_digit y)"
proof -
  obtain sign ip f e where s: "s = sign @ ip @ f @ e" "sign \<in> {'''', ''-''}" "int_part ip"
    using assms by (auto simp only: number_text_def)
  obtain i ds where ip: "ip = i # ds" "is_digit i"
    using s(3) by (cases ip) (auto simp: int_part_def digits_def)
  then have i: "i \<noteq> CHR ''-''" by (auto simp: is_digit_def)
  have "s = i # ds @ f @ e \<or> s = CHR ''-'' # i # ds @ f @ e" using s(1,2) ip(1) by auto
  then show ?thesis
  proof
    assume "s = i # ds @ f @ e"
    then show ?thesis using i ip(2) by (intro exI [of _ i] exI [of _ "ds @ f @ e"]) simp
  next
    assume "s = CHR ''-'' # i # ds @ f @ e"
    then show ?thesis using ip(2) by (intro exI [of _ "CHR ''-''"] exI [of _ "i # ds @ f @ e"]) simp
  qed
qed

lemma digits_value_nonneg: "list_all is_digit ds \<Longrightarrow> 0 \<le> digits_value ds"
proof (induction ds rule: rev_induct)
  case (snoc d ds)
  have "(of_char d :: int) = int (code d)" by (simp only: of_nat_of_char)
  with snoc show ?case by (simp add: digits_value_append is_digit_def)
qed (simp add: digits_value_def)

lemma minus_no_digit [simp]: "\<not> is_digit (CHR ''-'')"
  by (simp add: is_digit_def)

lemma attempt_cast_negative:
  "- (2 ^ 63) \<le> n \<Longrightarrow> n \<le> 0 \<Longrightarrow> attempt_cast True n = (word_of_int n, True)"
  by (simp add: attempt_cast_def Let_def signed_of_int signed_take_bit_int_eq_self)

lemma get_number_reads:
  assumes F: "strtod_reads F" and l: "drop (m_start l) (m_content l @ [NUL]) = s @ r"
    and c: "m_cursor l = m_start l + length s" and s: "number_text s" and r: "follows r"
  shows "get_number F l = Inr (number_value F s)"
proof -
  have double: "f_strtod F (s @ r) = (double_of F s, length s)"
    using F s r by (simp add: strtod_reads_def)
  obtain y t where y: "s = y # t" "if y = CHR ''-'' then t \<noteq> [] \<and> is_digit (hd t) else is_digit y"
    using number_first [OF s] by blast
  consider "y \<noteq> CHR ''-''" "list_all is_digit s" | "y = CHR ''-''" "list_all is_digit t"
    | "y \<noteq> CHR ''-''" "\<not> list_all is_digit s" | "y = CHR ''-''" "\<not> list_all is_digit t" by blast
  then show ?thesis
  proof cases
    case 1
    have n: "0 \<le> digits_value s" using 1(2) by (rule digits_value_nonneg)
    have t: "takeWhile is_digit (s @ r) = s" using 1(2) r by (rule take_all_digits)
    have "attempt_cast False (digits_value s) = (word_of_int (digits_value s), True)" if "digits_value s < 2 ^ 64"
      using n that by (simp add: attempt_cast_def Let_def unsigned_of_int take_bit_int_eq_self)
    then show ?thesis
      unfolding get_number_def l using 1 t y(1) c double
      by (auto simp: strtoull_def Let_def number_value_def is_number_float_def split: prod.split)
  next
    case 2
    have n: "0 \<le> digits_value t" using 2(2) by (rule digits_value_nonneg)
    have t: "takeWhile is_digit (t @ r) = t" using 2(2) r by (rule take_all_digits)
    have "attempt_cast True (- digits_value t) = (word_of_int (- digits_value t), True)" if "digits_value t \<le> 2 ^ 63"
      using n that attempt_cast_negative [of "- digits_value t"] by simp
    then show ?thesis
      unfolding get_number_def l using 2 t y c double
      by (auto simp: strtoll_def Let_def number_value_def is_number_float_def split: prod.split)
  next
    case 3
    then have "length (takeWhile is_digit (s @ r)) < length s" by (intro take_fewer_digits)
    then show ?thesis
      unfolding get_number_def l using 3 y(1) c double
      by (auto simp: strtoull_def Let_def number_value_def split: prod.split)
  next
    case 4
    then have "length (takeWhile is_digit (t @ r)) < length t" by (intro take_fewer_digits)
    then show ?thesis
      unfolding get_number_def l using 4 y(1) c double
      by (auto simp: strtoll_def Let_def number_value_def split: prod.split)
  qed
qed

inductive_simps string_means_simps:
  "string_means [] v"
  "string_means (c # s) v"

lemma u_no_escape [simp]: "CHR ''u'' \<notin> escape_letters"
  by (simp add: escape_letters_def)

text \<open>What the code computes for an escape is what it means.\<close>

lemma byte_code: "code (byte w) = n \<Longrightarrow> byte w = char_of n"
  by auto

lemma utf8_bytes_encode:
  assumes "unat w < 0x110000"
  shows "utf8_bytes w = Inr (utf8_encode (unat w))"
proof -
  note marked = byte_code [OF marked_bytes(1)] byte_code [OF marked_bytes(2)] byte_code [OF marked_bytes(3)]
    byte_code [OF marked_bytes(4)] byte_code [OF marked_bytes(5)] byte_code [OF marked_byte_last]
  have "unat w div 0x40 mod 0x20 = unat w div 0x40" if "unat w < 0x800"
    by (rule mod_less) (use that in \<open>simp add: less_mult_imp_div_less\<close>)
  moreover have "unat w div 0x1000 mod 0x10 = unat w div 0x1000" if "unat w < 0x10000"
    by (rule mod_less) (use that in \<open>simp add: less_mult_imp_div_less\<close>)
  moreover have "unat w div 0x40000 mod 0x08 = unat w div 0x40000"
    by (rule mod_less) (use assms in \<open>simp add: less_mult_imp_div_less\<close>)
  ultimately show ?thesis
    using assms unfolding utf8_bytes_def utf8_encode_def marked byte_def [of w] unat_drop_bit_eq
    by (simp add: drop_bit_eq_div)
qed

lemma to_unicode_one:
  assumes "unat w < 0x10000" and "\<not> (0xD800 \<le> unat w \<and> unat w < 0xDC00)"
  shows "to_unicode w m = Inr (utf8_encode (unat w))"
  using assms utf8_bytes_encode [of w] unfolding to_unicode_bytes if_not_P [OF assms(2)] by simp

lemma to_unicode_two:
  assumes "0xD800 \<le> unat a \<and> unat a < 0xDC00"
  shows "to_unicode a b = Inr u \<longleftrightarrow> 0xDC00 \<le> unat b \<and> unat b < 0xE000 \<and>
    u = utf8_encode (0x10000 + (unat a - 0xD800) * 0x400 + (unat b - 0xDC00))"
proof (cases "0xDC00 \<le> unat b \<and> unat b < 0xE000")
  case True
  let ?n = "0x10000 + (unat a - 0xD800) * 0x400 + (unat b - 0xDC00)"
  have n: "?n < 0x110000" "unat a * 0x400 + unat b = ?n + 0x35FDC00" using assms True by auto
  have "push_bit 10 a + b = of_nat (unat a * 0x400 + unat b)" by (simp add: push_bit_eq_mult mult.commute)
  then have sum: "push_bit 10 a + b - 0x35FDC00 = of_nat ?n" unfolding n(2) by simp
  have n': "unat (of_nat ?n :: u64) = ?n" by (rule unat_of_nat_64) (use n(1) in simp)
  have "to_unicode a b = utf8_bytes (of_nat ?n)"
    unfolding to_unicode_bytes if_P [OF assms] if_P [OF True] sum ..
  also have "\<dots> = Inr (utf8_encode ?n)" using utf8_bytes_encode [of "of_nat ?n"] n(1) unfolding n' by blast
  finally have "to_unicode a b = Inr (utf8_encode ?n)" .
  with True show ?thesis by auto
next
  case False
  then show ?thesis unfolding to_unicode_bytes if_P [OF assms] if_not_P [OF False] by blast
qed

lemma simple_escape_one: "d \<in> escape_letters \<Longrightarrow> \<exists>c. simple_escape d = [c]"
  by (auto simp: escape_letters_def simple_escape_def)

lemma string_means_escape:
  "d \<noteq> CHR ''u'' \<Longrightarrow> string_means (CHR 0x5C # d # s) x \<longleftrightarrow>
    (\<exists>v. d \<in> escape_letters \<and> string_means s v \<and> x = simple_escape d @ v)"
  by (subst string_means_simps(2)) (use simple_escape_one [of d] in \<open>auto simp: escapes_letters\<close>)

lemma string_means_unicode:
  assumes "list_all is_hex [a, b, c, d]"
  shows "string_means (CHR 0x5C # CHR ''u'' # a # b # c # d # s) x \<longleftrightarrow>
    (let n = strtoul_hex [a, b, c, d] in
     if 0xD800 \<le> n \<and> n \<le> 0xDBFF
     then (\<exists>a' b' c' d' s' u v. s = CHR 0x5C # CHR ''u'' # a' # b' # c' # d' # s' \<and>
         list_all is_hex [a', b', c', d'] \<and> to_unicode n (strtoul_hex [a', b', c', d']) = Inr u \<and>
         string_means s' v \<and> x = u @ v)
     else (\<exists>u v. to_unicode n 0 = Inr u \<and> string_means s v \<and> x = u @ v))"
proof -
  let ?n = "strtoul_hex [a, b, c, d]"
  have small: "unat ?n < 0x10000" by (rule strtoul_hex_bound) simp
  have high: "0xD800 \<le> ?n \<and> ?n \<le> 0xDBFF \<longleftrightarrow> 0xD800 \<le> unat ?n \<and> unat ?n < 0xDC00"
    by (auto simp: word_le_nat_alt)
  show ?thesis
  proof (cases "0xD800 \<le> unat ?n \<and> unat ?n < 0xDC00")
    case True
    then show ?thesis
      unfolding Let_def high if_P [OF True] to_unicode_two [OF True]
      using assms by (subst string_means_simps(2)) (auto simp: escapes_letters code_unit_value)
  next
    case False
    then show ?thesis
      unfolding Let_def high if_not_P [OF False] to_unicode_one [OF small False]
      using assms by (subst string_means_simps(2)) (auto simp: escapes_letters code_unit_value)
  qed
qed

lemma get_string_unicode:
  assumes "i < stop" and "at inp i = Some (CHR 0x5C)" and "at inp (i + 1) = Some (CHR ''u'')"
    and "i + 6 \<le> length inp"
  shows "get_string_loop inp limit stop i res =
    (let n = strtoul_hex (take 4 (drop (i + 2) inp)) in
     if 0xD800 \<le> n \<and> n \<le> 0xDBFF then
       (if limit \<le> i + 7 \<or> at inp (i + 6) \<noteq> Some (CHR 0x5C) \<or> at inp (i + 7) \<noteq> Some (CHR ''u'')
        then Some (Inl (Invalid_Argument_Error ''missing low surrogate''))
        else if length inp < i + 12 then None
        else (case to_unicode n (strtoul_hex (take 4 (drop (i + 8) inp))) of
            Inl e \<Rightarrow> Some (Inl e)
          | Inr u \<Rightarrow> get_string_loop inp limit stop (i + 12) (res @ u)))
     else (case to_unicode n 0 of
            Inl e \<Rightarrow> Some (Inl e)
          | Inr u \<Rightarrow> get_string_loop inp limit stop (i + 6) (res @ u)))"
proof -
  have e: "i + 1 + 1 = i + 2" "i + 1 + 5 = i + 6" "i + 1 + 6 = i + 7" "i + 1 + 7 = i + 8" "i + 1 + 11 = i + 12"
    "\<not> length inp < i + 6" using assms(4) by simp_all
  show ?thesis
    by (subst get_string_loop.simps, simp only: assms(1-3) e Let_def option.case if_True if_False simp_thms)
qed

lemma get_string_means:
  assumes "string_body s" and "inp = pre @ s @ CHR 0x22 # r" and "length inp = Suc limit"
  shows "get_string_loop inp limit (length pre + length s) (length pre) res = Some (Inr x) \<longleftrightarrow>
    (\<exists>v. x = res @ v \<and> string_means s v)"
  using assms(1,2)
proof (induction s arbitrary: pre res rule: length_induct)
  case (1 s)
  note at = at_here [OF "1.prems"(2)]
  have IH: "get_string_loop inp limit (length (pre @ w) + length t) (length (pre @ w)) res' = Some (Inr x) \<longleftrightarrow>
      (\<exists>v. x = res' @ v \<and> string_means t v)" if "s = w @ t" "w \<noteq> []" "string_body t" for w t res'
  proof (rule "1.IH" [rule_format, of t "pre @ w" res'])
    show "length t < length s" "string_body t" "inp = (pre @ w) @ t @ CHR 0x22 # r"
      using that "1.prems"(2) by auto
  qed
  from "1.prems"(1) show ?case
  proof cases
    case empty
    then show ?thesis by (subst get_string_loop.simps) (auto simp: string_means_simps)
  next
    case (plain_char c t)
    then show ?thesis
      using at [of 0] IH [of "[c]" t "res @ [c]"]
      by (subst get_string_loop.simps) (auto simp: at_def string_means_simps)
  next
    case (escape d t)
    have "d \<noteq> CHR ''u''" using escape(2) by (auto simp: escape_letters_def)
    then show ?thesis
      using escape at [of 0] at [of 1] IH [of "[CHR 0x5C, d]" t "res @ simple_escape d"]
      by (subst get_string_loop.simps) (auto simp: at_def string_means_escape)
  next
    case (unicode a b c d t)
    let ?n = "strtoul_hex [a, b, c, d]"
    define stop where "stop = length pre + length s"
    have hex: "list_all is_hex [a, b, c, d]" using unicode by simp
    have here: "at inp (length pre) = Some (CHR 0x5C)" "at inp (length pre + 1) = Some (CHR ''u'')"
      using at [of 0] at [of 1] unicode(1) by (simp_all add: at_def)
    have i: "length pre < stop" "length pre + 6 \<le> length inp"
      using unicode(1) "1.prems"(2) by (simp_all add: stop_def)
    have n: "take 4 (drop (length pre + 2) inp) = [a, b, c, d]" using unicode(1) "1.prems"(2) by simp
    note loop = get_string_unicode [OF i(1) here i(2), of limit res, unfolded n Let_def]
    note means = string_means_unicode [OF hex, of t, folded unicode(1), unfolded Let_def]
    show ?thesis unfolding stop_def [symmetric]
    proof (cases "0xD800 \<le> ?n \<and> ?n \<le> 0xDBFF")
      case False
      have ih: "get_string_loop inp limit stop (length pre + 6) res' = Some (Inr x) \<longleftrightarrow>
          (\<exists>v. x = res' @ v \<and> string_means t v)" for res'
        using IH [of "[CHR 0x5C, CHR ''u'', a, b, c, d]" t res'] unicode(1,6)
        by (simp add: numeral_eq_Suc stop_def)
      show "get_string_loop inp limit stop (length pre) res = Some (Inr x) \<longleftrightarrow>
          (\<exists>v. x = res @ v \<and> string_means s v)"
        unfolding loop means if_not_P [OF False] by (cases "to_unicode ?n 0") (auto simp: ih)
    next
      case high: True
      show "get_string_loop inp limit stop (length pre) res = Some (Inr x) \<longleftrightarrow>
          (\<exists>v. x = res @ v \<and> string_means s v)"
      proof (cases "at inp (length pre + 6) = Some (CHR 0x5C) \<and> at inp (length pre + 7) = Some (CHR ''u'')")
        case True
        then have "at (t @ CHR 0x22 # r) 0 = Some (CHR 0x5C)" "at (t @ CHR 0x22 # r) 1 = Some (CHR ''u'')"
          using at [of 6] at [of 7] unicode(1) by (simp_all add: at_def)
        from string_body_surrogate [OF unicode(6) this] obtain a' b' c' d' t' where
          t: "t = CHR 0x5C # CHR ''u'' # a' # b' # c' # d' # t'" "string_body t'" .
        let ?m = "strtoul_hex [a', b', c', d']"
        have hex2: "list_all is_hex [a', b', c', d']"
          using unicode(6) unfolding t(1) by (cases rule: string_body.cases) auto
        have m: "take 4 (drop (length pre + 8) inp) = [a', b', c', d']"
          using unicode(1) t(1) "1.prems"(2) by simp
        have len: "\<not> limit \<le> length pre + 7" "\<not> length inp < length pre + 12"
          using unicode(1) t(1) "1.prems"(2) assms(3) by simp_all
        have ih: "get_string_loop inp limit stop (length pre + 12) res' = Some (Inr x) \<longleftrightarrow>
            (\<exists>v. x = res' @ v \<and> string_means t' v)" for res'
          using IH [of "[CHR 0x5C, CHR ''u'', a, b, c, d, CHR 0x5C, CHR ''u'', a', b', c', d']" t' res'] unicode(1) t
          by (simp add: numeral_eq_Suc stop_def)
        have "string_means s y \<longleftrightarrow> (\<exists>u v. to_unicode ?n ?m = Inr u \<and> string_means t' v \<and> y = u @ v)" for y
          unfolding means if_P [OF high] using hex2 t(1) by auto
        moreover have "get_string_loop inp limit stop (length pre) res = (case to_unicode ?n ?m of
            Inl e \<Rightarrow> Some (Inl e)
          | Inr u \<Rightarrow> get_string_loop inp limit stop (length pre + 12) (res @ u))"
          unfolding loop if_P [OF high] m using True len by simp
        ultimately show ?thesis by (cases "to_unicode ?n ?m") (auto simp: ih)
      next
        case False
        have "t \<noteq> CHR 0x5C # CHR ''u'' # t'" for t'
          using False at [of 6] at [of 7] unicode(1) by (auto simp: at_def)
        then have "\<not> string_means s y" for y unfolding means if_P [OF high] by auto
        then show ?thesis unfolding loop if_P [OF high] using False by auto
      qed
    qed
  qed
qed

lemma get_string_here:
  assumes p: "on p s" and h: "here p = CHR 0x22 # b @ CHR 0x22 # r" and b: "string_body b"
    and c: "m_cursor (m_lexer p) = m_start (m_lexer p) + length b + 2"
  shows "get_string (m_lexer p) = Some (Inr x) \<longleftrightarrow> string_means b x"
proof -
  let ?s = "m_start (m_lexer p)" and ?inp = "text_of p"
  have "?s \<le> length ?inp" using p by (simp add: on_def lexed_def)
  then have len: "length (take ?s ?inp @ [CHR 0x22]) = ?s + 1" by simp
  have "?inp = (take ?s ?inp @ [CHR 0x22]) @ b @ CHR 0x22 # r"
    using append_take_drop_id [of ?s ?inp] h unfolding here_def
    by (metis append.assoc append_Cons append_Nil)
  from get_string_means [OF b this, of "m_limit (m_lexer p)" "[]" x] show ?thesis
    unfolding get_string_def c len by simp
qed

text \<open>A string token, read from either side.\<close>

lemma string_on:
  assumes p: "on p s" and s: "gap s (CHR 0x22 # b @ CHR 0x22 # r)" and b: "string_means b v"
  shows "last_token p = value_string" and "behind p = r" and "get_string (m_lexer p) = Some (Inr v)"
proof -
  have body: "string_body b" by (rule string_means_body [OF b])
  have t: "scan_token q (CHR 0x22) (b @ CHR 0x22 # r) = Some (Inl (value_string, q + (length b + 2)))" for q
    unfolding string_token using body by auto
  note scan = on_scan [OF p s t]
  show "last_token p = value_string" and "behind p = r" using scan(1,2) by simp_all
  obtain w where "here p = w @ behind p" "m_cursor (m_lexer p) = m_start (m_lexer p) + length w"
    using on_lexeme [OF p] scan(1) by auto
  moreover have "length (here p) = length b + 2 + length r" using scan(3) by simp
  ultimately have "m_cursor (m_lexer p) = m_start (m_lexer p) + length b + 2" using scan(2) by simp
  from get_string_here [OF p scan(3) body this] b show "get_string (m_lexer p) = Some (Inr v)" by simp
qed

lemma string_from:
  assumes p: "on p s" and t: "last_token p = value_string" and v: "get_string (m_lexer p) = Some (Inr v)"
  obtains b where "here p = CHR 0x22 # b @ CHR 0x22 # behind p" and "string_means b v"
proof -
  obtain w where w: "here p = w @ behind p" "lexeme value_string w"
      "m_cursor (m_lexer p) = m_start (m_lexer p) + length w"
    using on_lexeme [OF p] t by auto
  then obtain b where b: "w = CHR 0x22 # b @ [CHR 0x22]" "string_body b" by auto
  then have h: "here p = CHR 0x22 # b @ CHR 0x22 # behind p" using w(1) by simp
  have "string_means b v" using get_string_here [OF p h b(2), of v] v w(3) b(1) by simp
  with h show thesis by (rule that)
qed

text \<open>A number token.\<close>

lemma get_number_here:
  assumes F: "strtod_reads F" and p: "on p s" and t: "last_token p = value_number" and r: "follows (behind p)"
  obtains w where "here p = w @ behind p" and "number_text w" and "get_number F (m_lexer p) = Inr (number_value F w)"
proof -
  obtain w where w: "here p = w @ behind p" "lexeme value_number w"
      "m_cursor (m_lexer p) = m_start (m_lexer p) + length w"
    using on_lexeme [OF p] t by auto
  then have "get_number F (m_lexer p) = Inr (number_value F w)"
    using get_number_reads [OF F _ w(3) _ r] unfolding here_def by simp
  with w show thesis by (intro that) simp_all
qed

lemma number_on:
  assumes F: "strtod_reads F" and p: "on p (w @ r)" and w: "number_text w" and r: "follows r"
  shows "last_token p = value_number" and "behind p = r" and "get_number F (m_lexer p) = Inr (number_value F w)"
proof -
  obtain y t where "w = y # t" using number_first [OF w] by blast
  then have yt: "w = y # t" "\<And>q. scan_token q y (t @ r) = Some (Inl (value_number, q + length w))"
    using number_reads [OF w r] by auto
  have "gap (w @ r) (y # t @ r)" by (simp add: yt(1) gap.none)
  note scan = on_scan [OF p this yt(2)]
  show l: "last_token p = value_number" and b: "behind p = r" using scan(1,2) by (simp_all add: yt(1))
  obtain w' where w': "here p = w' @ behind p" "get_number F (m_lexer p) = Inr (number_value F w')"
    using get_number_here [OF F p l] r b by auto
  then have "w' = w" using scan(3) b yt(1) by simp
  with w'(2) show "get_number F (m_lexer p) = Inr (number_value F w)" by simp
qed

section \<open>A strtod that reads numbers\<close>

text \<open>The text of a number itself serves as its value.\<close>

definition text_floats :: "char list float_ops" where
  "text_floats = \<lparr>f_of_int = show_int, f_to_int = (\<lambda>_. 0), f_eq = (=), f_less = (\<lambda>_ _. False), f_zero = ''0'',
     f_is_whole = (\<lambda>_. False), f_fixed = (\<lambda>_ x. x), f_general = (\<lambda>_ x. x),
     f_strtod = (\<lambda>s. case scan_token 0 (hd s) (tl s) of
       Some (Inl (value_number, n)) \<Rightarrow> (take n s, n) | _ \<Rightarrow> ([], 0))\<rparr>"

lemma text_strtod:
  assumes "number_text s" and "follows r"
  shows "f_strtod text_floats (s @ r) = (s, length s)"
proof -
  obtain y t where "s = y # t" "scan_token 0 y (t @ r) = Some (Inl (value_number, length s))"
    using number_reads [OF assms, of 0] by auto
  then show ?thesis by (simp add: text_floats_def)
qed

lemma text_reads: "strtod_reads text_floats"
proof -
  have "follows [NUL]" by (simp add: follows_def)
  then show ?thesis by (simp add: strtod_reads_def double_of_def text_strtod)
qed

end
