(* ===== verification/Json_Accepts.thy ===== *)
theory Json_Accepts
  imports Json_Reads Json_Throws
begin

text \<open>
  Without a callback, \<open>parse\<close> accepts exactly the texts of the grammar \<open>json_text\<close>, with the
  grammar's values.
\<close>

section \<open>The steps of the parser\<close>

text \<open>One element of an array, behind the separator.\<close>

definition parse_element ::
    "(bool \<Rightarrow> 'f json_parser \<Rightarrow> ('f json \<times> 'f json_parser) parse_result) \<Rightarrow> nat \<Rightarrow> bool \<Rightarrow> 'f json \<Rightarrow>
     'f json_parser \<Rightarrow> ('f json \<times> 'f json_parser) parse_result" where
  "parse_element rec fuel keep result p =
     and_then (rec keep p) (\<lambda>(v, p).
     and_then (Some (if keep \<and> \<not> is_discarded v then push_back result v else Inr result)) (\<lambda>result.
       if last_token p = value_separator then parse_elements rec fuel keep result p
       else Some (Inr (result, p))))"

lemma parse_elements_eq:
  "parse_elements rec (Suc fuel) keep result p =
     and_then (if last_token p = value_separator then next_token p else Some (Inr p))
       (parse_element rec fuel keep result)"
  by (simp add: parse_element_def [abs_def])

lemma parse_member_eq:
  assumes "callback p = None"
  shows "parse_member rec fuel True (JObject acc) p =
     and_then (expect value_string p) (\<lambda>_.
     and_then (get_string (m_lexer p)) (\<lambda>k.
     and_then (next_token p) (\<lambda>p.
     and_then (expect name_separator p) (\<lambda>_.
     and_then (next_token p) (\<lambda>p.
     and_then (rec True p) (\<lambda>(v, p).
     and_then (Some (if \<not> is_discarded v then set_key (JObject acc) k v else Inr (JObject acc))) (\<lambda>result.
       if last_token p = value_separator then parse_members rec fuel True result p
       else Some (Inr (result, p)))))))))"
  by (simp add: parse_member_def assms)

lemma map_assign_insert: "map_assign k v (map_insert k u m) = map_assign k v m"
  by (induction k u m rule: map_insert.induct) auto

lemma set_key_assign: "set_key (JObject acc) k v = Inr (JObject (map_assign k v acc))"
  by (simp add: set_key_def subscript_key_def is_null_def Let_def map_assign_insert)

lemma push_back_array: "push_back (JArray acc) v = Inr (JArray (acc @ [v]))"
  by (simp add: push_back_def is_null_def is_array_def)

lemma parse_start_plain: "callback p = None \<Longrightarrow> parse_start event v True p = (True, v, p)"
  by (simp add: parse_start_def)

lemma parse_end_plain: "callback p = None \<Longrightarrow> parse_end event keep v p = (v, p)"
  by (simp add: parse_end_def)

text \<open>An array or an object without callback.\<close>

lemma parse_brackets:
  assumes "callback p = None"
  shows "parse_array rec fuel True p =
     and_then (next_token p) (\<lambda>p.
       if last_token p = end_array then
         and_then (next_token p) (\<lambda>p. Some (Inr (parse_end array_end True (JArray []) p)))
       else
         and_then (unexpect value_separator p) (\<lambda>_.
         and_then (parse_elements rec fuel True (JArray []) p) (\<lambda>(result, p).
         and_then (expect end_array p) (\<lambda>_.
         and_then (next_token p) (\<lambda>p. Some (Inr (parse_end array_end True result p)))))))"
    and "parse_object rec fuel True p =
     and_then (next_token p) (\<lambda>p.
       if last_token p = end_object then
         and_then (next_token p) (\<lambda>p. Some (Inr (parse_end object_end True (JObject []) p)))
       else
         and_then (unexpect value_separator p) (\<lambda>_.
         and_then (parse_members rec fuel True (JObject []) p) (\<lambda>(result, p).
         and_then (expect end_object p) (\<lambda>_.
         and_then (next_token p) (\<lambda>p. Some (Inr (parse_end object_end True result p)))))))"
  by (simp_all add: parse_array_def parse_object_def parse_start_plain [OF assms])

section \<open>Facts of the grammar\<close>

lemma text_lengths:
  "value_text F v s r \<Longrightarrow> length r < length s"
  "elements_text F vs s r \<Longrightarrow> length r < length s"
  "members_text F ms s r \<Longrightarrow> length r < length s"
proof (induction rule: value_text_elements_text_members_text.inducts)
  case (number ds r)
  then show ?case using number_first [of ds] by auto
qed (auto dest!: gap_length)

lemma not_discarded_value: "value_text F v s r \<Longrightarrow> \<not> is_discarded v"
  by (cases rule: value_text.cases) (auto simp: is_discarded_def number_value_def split: if_splits)

definition starts_value :: "char list \<Rightarrow> bool" where
  "starts_value s \<longleftrightarrow> (\<exists>y t. s = y # t \<and> \<not> is_white y \<and> y \<notin> {CHR 0xEF, CHR '','', CHR '']'', CHR ''}''})"

lemma value_starts:
  assumes "value_text F v s r"
  shows "starts_value s"
  using assms
proof (cases rule: value_text.cases)
  case (number ds)
  obtain y t where "ds = y # t" "y = CHR ''-'' \<or> is_digit y"
    using number_first [OF number(3)] by (auto split: if_splits)
  then show ?thesis using number(2) by (auto simp: starts_value_def is_white_def is_digit_def)
qed (auto simp: starts_value_def is_white_def)

lemma elements_start: "elements_text F vs s r \<Longrightarrow> \<exists>s'. gap s s' \<and> starts_value s'"
  by (cases rule: elements_text.cases) (auto dest: value_starts)

lemma members_start: "members_text F ms s r \<Longrightarrow> \<exists>s'. gap s s' \<and> starts_value s'"
  by (cases rule: members_text.cases) (force simp: starts_value_def is_white_def)+

text \<open>Then the parser's last token is none that closes or separates.\<close>

lemma on_value:
  assumes "on p s" and "gap s s'" and "starts_value s'"
  shows "last_token p \<notin> {value_separator, end_array, end_object}"
proof -
  have "solid s'" using assms(3) by (auto simp: starts_value_def solid_def)
  then have h: "here p = s'" using assms(1,2) gap_solid [OF _ \<open>solid s'\<close>] gap_to_solid lexed_solid
    unfolding on_def by metis
  show ?thesis
  proof
    assume t: "last_token p \<in> {value_separator, end_array, end_object}"
    then have "last_token p \<noteq> parse_error" by auto
    with on_lexeme [OF assms(1)] obtain w where "here p = w @ behind p" "lexeme (last_token p) w" by blast
    with t h assms(3) show False by (auto simp: starts_value_def)
  qed
qed

text \<open>A token of one character.\<close>

lemma on_char:
  assumes "on p s" and "gap s (y # r)" and "(y, t) \<in> {(CHR '','', value_separator), (CHR '':'', name_separator),
    (CHR ''['', begin_array), (CHR '']'', end_array), (CHR ''{'', begin_object), (CHR ''}'', end_object),
    (NUL, end_of_input)}"
  shows "last_token p = t" and "behind p = r"
proof -
  have scan: "scan_token q y r = Some (Inl (t, q + 1))" for q
    using assms(3) by auto
  show "last_token p = t" and "behind p = r"
    using on_scan [OF assms(1,2) scan] by simp_all
qed

section \<open>Every text of the grammar is accepted\<close>

definition accepts :: "nat \<Rightarrow> 'f float_ops \<Rightarrow> 'f json \<Rightarrow> char list \<Rightarrow> char list \<Rightarrow> bool" where
  "accepts n F v s r \<longleftrightarrow>
     (\<forall>p. on p s \<longrightarrow> (\<exists>p'. parse_internal F n True p = Some (Inr (v, p')) \<and> on p' r))"

lemma acceptsD:
  "accepts n F v s r \<Longrightarrow> on p s \<Longrightarrow> \<exists>p'. parse_internal F n True p = Some (Inr (v, p')) \<and> on p' r"
  by (simp add: accepts_def)

lemma next_to:
  assumes "on p s" and "last_token p \<noteq> end_of_input" and "behind p = r"
  shows "\<exists>p'. next_token p = Some (Inr p') \<and> on p' r"
  using next_on [OF assms(1,2)] assms(3) by simp

lemma accepts_primitive:
  fixes F :: "'f float_ops"
  assumes "\<And>p :: 'f json_parser. on p s \<Longrightarrow>
    last_token p \<in> {literal_null, literal_true, literal_false, value_string, value_number} \<and> behind p = r \<and>
    parse_value F p = and_then (next_token p) (\<lambda>p. Some (Inr (v, p)))"
  shows "accepts (Suc n) F v s r"
  unfolding accepts_def
proof (intro allI impI)
  fix p :: "'f json_parser" assume p: "on p s"
  note a = assms [OF p]
  obtain p' where p': "next_token p = Some (Inr p')" "on p' r" using next_to [OF p] a by auto
  have "parse_internal F (Suc n) True p = Some (Inr (v, p'))"
    using a p' on_callback [OF p'(2)] by auto
  with p'(2) show "\<exists>p'. parse_internal F (Suc n) True p = Some (Inr (v, p')) \<and> on p' r" by blast
qed

lemma accepts_literals:
  "accepts (Suc n) F JNull (''null'' @ r) r"
  "accepts (Suc n) F (JBoolean b) ((if b then ''true'' else ''false'') @ r) r"
proof -
  show "accepts (Suc n) F JNull (''null'' @ r) r"
  proof (rule accepts_primitive)
    fix p :: "'a json_parser" assume p: "on p (''null'' @ r)"
    have "gap (''null'' @ r) (CHR ''n'' # (''ull'' @ r))" by (simp add: gap.none)
    note on_scan [OF p this scan_literals(3)]
    then show "last_token p \<in> {literal_null, literal_true, literal_false, value_string, value_number} \<and>
        behind p = r \<and> parse_value F p = and_then (next_token p) (\<lambda>p. Some (Inr (JNull, p)))"
      by (simp add: parse_value_def)
  qed
  show "accepts (Suc n) F (JBoolean b) ((if b then ''true'' else ''false'') @ r) r"
  proof (rule accepts_primitive)
    fix p :: "'a json_parser" assume p: "on p ((if b then ''true'' else ''false'') @ r)"
    show "last_token p \<in> {literal_null, literal_true, literal_false, value_string, value_number} \<and>
        behind p = r \<and> parse_value F p = and_then (next_token p) (\<lambda>p. Some (Inr (JBoolean b, p)))"
    proof (cases b)
      case True
      then have "gap ((if b then ''true'' else ''false'') @ r) (CHR ''t'' # (''rue'' @ r))" by (simp add: gap.none)
      from on_scan [OF p this scan_literals(1)] True show ?thesis by (simp add: parse_value_def)
    next
      case False
      then have "gap ((if b then ''true'' else ''false'') @ r) (CHR ''f'' # (''alse'' @ r))" by (simp add: gap.none)
      from on_scan [OF p this scan_literals(2)] False show ?thesis by (simp add: parse_value_def)
    qed
  qed
qed

lemma accepts_string:
  assumes "string_means b v"
  shows "accepts (Suc n) F (JString v) (CHR 0x22 # b @ CHR 0x22 # r) r"
proof (rule accepts_primitive)
  fix p :: "'a json_parser" assume p: "on p (CHR 0x22 # b @ CHR 0x22 # r)"
  from string_on [OF p gap.none assms]
  show "last_token p \<in> {literal_null, literal_true, literal_false, value_string, value_number} \<and>
      behind p = r \<and> parse_value F p = and_then (next_token p) (\<lambda>p. Some (Inr (JString v, p)))"
    by (simp add: parse_value_def)
qed

lemma accepts_number:
  assumes "strtod_reads F" and "number_text ds" and "follows r"
  shows "accepts (Suc n) F (number_value F ds) (ds @ r) r"
proof (rule accepts_primitive)
  fix p :: "'a json_parser" assume p: "on p (ds @ r)"
  from number_on [OF assms(1) p assms(2,3)]
  show "last_token p \<in> {literal_null, literal_true, literal_false, value_string, value_number} \<and>
      behind p = r \<and> parse_value F p = and_then (next_token p) (\<lambda>p. Some (Inr (number_value F ds, p)))"
    by (simp add: parse_value_def)
qed

lemma element_accepts:
  assumes rec: "accepts m F v s1 s2" and v: "\<not> is_discarded v" and p: "on p s" and s: "gap s s1"
  shows "\<exists>p'. on p' s2 \<and> parse_element (parse_internal F m) n True (JArray acc) p =
    (if last_token p' = value_separator then parse_elements (parse_internal F m) n True (JArray (acc @ [v])) p'
     else Some (Inr (JArray (acc @ [v]), p')))"
proof -
  obtain p' where "parse_internal F m True p = Some (Inr (v, p'))" "on p' s2"
    using acceptsD [OF rec] p on_gap [OF s] by blast
  with v show ?thesis
    by (intro exI [of _ p']) (simp add: parse_element_def push_back_array del: parse_internal.simps)
qed

lemma member_accepts:
  assumes s: "gap s (CHR 0x22 # b @ CHR 0x22 # s1)" and b: "string_means b k" and s1: "gap s1 (CHR '':'' # s2)"
    and s2: "gap s2 s3" and rec: "accepts m F v s3 s4" and v: "\<not> is_discarded v" and p: "on p s"
  shows "\<exists>p'. on p' s4 \<and> parse_member (parse_internal F m) n True (JObject acc) p =
    (if last_token p' = value_separator then parse_members (parse_internal F m) n True (JObject (map_assign k v acc)) p'
     else Some (Inr (JObject (map_assign k v acc), p')))"
proof -
  note t = string_on [OF p s b]
  obtain p1 where p1: "next_token p = Some (Inr p1)" "on p1 s1" using next_to [OF p _ t(2)] t(1) by auto
  note t1 = on_char [OF p1(2) s1, of name_separator]
  obtain p2 where p2: "next_token p1 = Some (Inr p2)" "on p2 s2" using next_to [OF p1(2) _ t1(2)] t1(1) by auto
  obtain p' where "parse_internal F m True p2 = Some (Inr (v, p'))" "on p' s4"
    using acceptsD [OF rec] p2(2) on_gap [OF s2] by blast
  with t p1 t1 p2 v show ?thesis
    by (intro exI [of _ p'])
      (simp add: parse_member_eq [OF on_callback [OF p]] expect_def set_key_assign del: parse_internal.simps)
qed

definition accepts_elements ::
    "nat \<Rightarrow> nat \<Rightarrow> 'f float_ops \<Rightarrow> 'f json list \<Rightarrow> char list \<Rightarrow> char list \<Rightarrow> bool" where
  "accepts_elements m n F vs s r \<longleftrightarrow> (\<forall>p acc. on p s \<longrightarrow>
     (\<exists>p'. parse_element (parse_internal F m) n True (JArray acc) p = Some (Inr (JArray (acc @ vs), p')) \<and> on p' r))"

definition accepts_members ::
    "nat \<Rightarrow> nat \<Rightarrow> 'f float_ops \<Rightarrow> (char list \<times> 'f json) list \<Rightarrow> char list \<Rightarrow> char list \<Rightarrow> bool" where
  "accepts_members m n F ms s r \<longleftrightarrow> (\<forall>p acc. on p s \<longrightarrow>
     (\<exists>p'. parse_member (parse_internal F m) n True (JObject acc) p = Some (Inr (JObject (object_of ms acc), p')) \<and> on p' r))"

lemma accepts_last_element:
  assumes "accepts m F v s1 s2" and "\<not> is_discarded v" and "gap s s1" and r: "gap s2 (CHR '']'' # r)"
  shows "accepts_elements m n F [v] s (CHR '']'' # r)"
  unfolding accepts_elements_def
proof (intro allI impI)
  fix p :: "'a json_parser" and acc assume "on p s"
  from element_accepts [OF assms(1,2) this assms(3), of n acc] obtain p' where p': "on p' s2"
    "parse_element (parse_internal F m) n True (JArray acc) p =
      (if last_token p' = value_separator then parse_elements (parse_internal F m) n True (JArray (acc @ [v])) p'
       else Some (Inr (JArray (acc @ [v]), p')))" by blast
  with on_char(1) [OF p'(1) r, of end_array] on_gap [OF r, of p']
  show "\<exists>p'. parse_element (parse_internal F m) n True (JArray acc) p = Some (Inr (JArray (acc @ [v]), p')) \<and>
      on p' (CHR '']'' # r)" by auto
qed

lemma accepts_next_element:
  assumes "accepts m F v s1 s2" and "\<not> is_discarded v" and "gap s s1" and s3: "gap s2 (CHR '','' # s3)"
    and vs: "accepts_elements m n F vs s3 r"
  shows "accepts_elements m (Suc n) F (v # vs) s r"
  unfolding accepts_elements_def
proof (intro allI impI)
  fix p :: "'a json_parser" and acc assume "on p s"
  from element_accepts [OF assms(1,2) this assms(3), of "Suc n" acc] obtain p' where p': "on p' s2"
    "parse_element (parse_internal F m) (Suc n) True (JArray acc) p =
      (if last_token p' = value_separator then parse_elements (parse_internal F m) (Suc n) True (JArray (acc @ [v])) p'
       else Some (Inr (JArray (acc @ [v]), p')))" by blast
  note t = on_char [OF p'(1) s3, of value_separator]
  obtain p2 where p2: "next_token p' = Some (Inr p2)" "on p2 s3" using next_to [OF p'(1) _ t(2)] t(1) by auto
  have "parse_element (parse_internal F m) (Suc n) True (JArray acc) p =
      parse_element (parse_internal F m) n True (JArray (acc @ [v])) p2"
    using p'(2) t(1) p2(1) by (simp add: parse_elements_eq del: parse_elements.simps)
  moreover obtain p3 where "parse_element (parse_internal F m) n True (JArray (acc @ [v])) p2 =
      Some (Inr (JArray ((acc @ [v]) @ vs), p3))" "on p3 r"
    using vs p2(2) unfolding accepts_elements_def by blast
  ultimately show "\<exists>p'. parse_element (parse_internal F m) (Suc n) True (JArray acc) p =
      Some (Inr (JArray (acc @ v # vs), p')) \<and> on p' r" by simp
qed

lemma accepts_last_member:
  assumes m: "gap s (CHR 0x22 # b @ CHR 0x22 # s1)" "string_means b k" "gap s1 (CHR '':'' # s2)" "gap s2 s3"
      "accepts m F v s3 s4" "\<not> is_discarded v"
    and r: "gap s4 (CHR ''}'' # r)"
  shows "accepts_members m n F [(k, v)] s (CHR ''}'' # r)"
  unfolding accepts_members_def
proof (intro allI impI)
  fix p :: "'a json_parser" and acc assume "on p s"
  from member_accepts [OF m this, of n acc] obtain p' where p': "on p' s4"
    "parse_member (parse_internal F m) n True (JObject acc) p =
      (if last_token p' = value_separator then parse_members (parse_internal F m) n True (JObject (map_assign k v acc)) p'
       else Some (Inr (JObject (map_assign k v acc), p')))" by blast
  with on_char(1) [OF p'(1) r, of end_object] on_gap [OF r, of p']
  show "\<exists>p'. parse_member (parse_internal F m) n True (JObject acc) p =
      Some (Inr (JObject (object_of [(k, v)] acc), p')) \<and> on p' (CHR ''}'' # r)"
    by (auto simp: object_of_def)
qed

lemma parse_members_next:
  "last_token p = value_separator \<Longrightarrow> next_token p = Some (Inr p') \<Longrightarrow>
   parse_members rec (Suc n) keep result p = parse_member rec n keep result p'"
  by (simp add: parse_members_eq del: parse_members.simps)

lemma accepts_next_member:
  assumes m: "gap s (CHR 0x22 # b @ CHR 0x22 # s1)" "string_means b k" "gap s1 (CHR '':'' # s2)" "gap s2 s3"
      "accepts m F v s3 s4" "\<not> is_discarded v"
    and s5: "gap s4 (CHR '','' # s5)" and ms: "accepts_members m n F ms s5 r"
  shows "accepts_members m (Suc n) F ((k, v) # ms) s r"
  unfolding accepts_members_def
proof (intro allI impI)
  fix p :: "'a json_parser" and acc assume "on p s"
  from member_accepts [OF m this, of "Suc n" acc] obtain p' where p': "on p' s4"
    "parse_member (parse_internal F m) (Suc n) True (JObject acc) p =
      (if last_token p' = value_separator
       then parse_members (parse_internal F m) (Suc n) True (JObject (map_assign k v acc)) p'
       else Some (Inr (JObject (map_assign k v acc), p')))" by blast
  note t = on_char [OF p'(1) s5, of value_separator]
  obtain p2 where p2: "next_token p' = Some (Inr p2)" "on p2 s5" using next_to [OF p'(1) _ t(2)] t(1) by auto
  have "parse_member (parse_internal F m) (Suc n) True (JObject acc) p =
      parse_member (parse_internal F m) n True (JObject (map_assign k v acc)) p2"
    using p'(2) t(1) parse_members_next [OF _ p2(1)] by (simp del: parse_members.simps)
  moreover obtain p3 where "parse_member (parse_internal F m) n True (JObject (map_assign k v acc)) p2 =
      Some (Inr (JObject (object_of ms (map_assign k v acc)), p3))" "on p3 r"
    using ms p2(2) unfolding accepts_members_def by blast
  ultimately show "\<exists>p'. parse_member (parse_internal F m) (Suc n) True (JObject acc) p =
      Some (Inr (JObject (object_of ((k, v) # ms) acc), p')) \<and> on p' r" by (simp add: object_of_def)
qed

text \<open>The brackets.\<close>

lemma accepts_empty_array:
  assumes s: "gap s (CHR '']'' # r)"
  shows "accepts (Suc n) F (JArray []) (CHR ''['' # s) r"
  unfolding accepts_def
proof (intro allI impI)
  fix p :: "'a json_parser" assume p: "on p (CHR ''['' # s)"
  note t = on_char [OF p gap.none, of begin_array]
  obtain p1 where p1: "next_token p = Some (Inr p1)" "on p1 s" using next_to [OF p _ t(2)] t(1) by auto
  note t1 = on_char [OF p1(2) s, of end_array]
  obtain p2 where p2: "next_token p1 = Some (Inr p2)" "on p2 r" using next_to [OF p1(2) _ t1(2)] t1(1) by auto
  show "\<exists>p'. parse_internal F (Suc n) True p = Some (Inr (JArray [], p')) \<and> on p' r"
    using t(1) p1(1) t1(1) p2
    by (intro exI [of _ p2]) (simp add: parse_brackets on_callback [OF p] parse_end_plain on_callback [OF p2(2)])
qed

lemma accepts_empty_object:
  assumes s: "gap s (CHR ''}'' # r)"
  shows "accepts (Suc n) F (JObject []) (CHR ''{'' # s) r"
  unfolding accepts_def
proof (intro allI impI)
  fix p :: "'a json_parser" assume p: "on p (CHR ''{'' # s)"
  note t = on_char [OF p gap.none, of begin_object]
  obtain p1 where p1: "next_token p = Some (Inr p1)" "on p1 s" using next_to [OF p _ t(2)] t(1) by auto
  note t1 = on_char [OF p1(2) s, of end_object]
  obtain p2 where p2: "next_token p1 = Some (Inr p2)" "on p2 r" using next_to [OF p1(2) _ t1(2)] t1(1) by auto
  show "\<exists>p'. parse_internal F (Suc n) True p = Some (Inr (JObject [], p')) \<and> on p' r"
    using t(1) p1(1) t1(1) p2
    by (intro exI [of _ p2]) (simp add: parse_brackets on_callback [OF p] parse_end_plain on_callback [OF p2(2)])
qed

lemma accepts_array:
  assumes e: "accepts_elements (Suc n) n F vs s (CHR '']'' # r)" and s: "gap s s'" "starts_value s'"
  shows "accepts (Suc (Suc n)) F (JArray vs) (CHR ''['' # s) r"
  unfolding accepts_def
proof (intro allI impI)
  fix p :: "'a json_parser" assume p: "on p (CHR ''['' # s)"
  note t = on_char [OF p gap.none, of begin_array]
  obtain p1 where p1: "next_token p = Some (Inr p1)" "on p1 s" using next_to [OF p _ t(2)] t(1) by auto
  note t1 = on_value [OF p1(2) s]
  obtain p2 where p2: "parse_element (parse_internal F (Suc n)) n True (JArray []) p1 =
      Some (Inr (JArray ([] @ vs), p2))" "on p2 (CHR '']'' # r)"
    using e p1(2) unfolding accepts_elements_def by blast
  note t2 = on_char [OF p2(2) gap.none, of end_array]
  obtain p3 where p3: "next_token p2 = Some (Inr p3)" "on p3 r" using next_to [OF p2(2) _ t2(2)] t2(1) by auto
  show "\<exists>p'. parse_internal F (Suc (Suc n)) True p = Some (Inr (JArray vs, p')) \<and> on p' r"
    unfolding parse_internal.simps(2) [of F "Suc n"] using t(1) p1(1) t1 p2(1) t2(1) p3
    by (intro exI [of _ p3]) (auto simp: parse_brackets on_callback [OF p] parse_end_plain on_callback [OF p3(2)]
      parse_elements_eq unexpect_def expect_def simp del: parse_internal.simps parse_elements.simps)
qed

lemma accepts_object:
  assumes e: "accepts_members (Suc n) n F ms s (CHR ''}'' # r)" and s: "gap s s'" "starts_value s'"
  shows "accepts (Suc (Suc n)) F (JObject (object_of ms [])) (CHR ''{'' # s) r"
  unfolding accepts_def
proof (intro allI impI)
  fix p :: "'a json_parser" assume p: "on p (CHR ''{'' # s)"
  note t = on_char [OF p gap.none, of begin_object]
  obtain p1 where p1: "next_token p = Some (Inr p1)" "on p1 s" using next_to [OF p _ t(2)] t(1) by auto
  note t1 = on_value [OF p1(2) s]
  obtain p2 where p2: "parse_member (parse_internal F (Suc n)) n True (JObject []) p1 =
      Some (Inr (JObject (object_of ms []), p2))" "on p2 (CHR ''}'' # r)"
    using e p1(2) unfolding accepts_members_def by blast
  note t2 = on_char [OF p2(2) gap.none, of end_object]
  obtain p3 where p3: "next_token p2 = Some (Inr p3)" "on p3 r" using next_to [OF p2(2) _ t2(2)] t2(1) by auto
  show "\<exists>p'. parse_internal F (Suc (Suc n)) True p = Some (Inr (JObject (object_of ms []), p')) \<and> on p' r"
    unfolding parse_internal.simps(2) [of F "Suc n"] using t(1) p1(1) t1 p2(1) t2(1) p3
    by (intro exI [of _ p3]) (auto simp: parse_brackets on_callback [OF p] parse_end_plain on_callback [OF p3(2)]
      parse_members_eq unexpect_def expect_def simp del: parse_internal.simps parse_members.simps)
qed

text \<open>Fuel for the length of the text is enough.\<close>

lemma accepts_grammar:
  assumes F: "strtod_reads F"
  shows "value_text F v s r \<Longrightarrow> follows r \<Longrightarrow> length s < m \<Longrightarrow> accepts m F v s r"
    and "elements_text F vs s r \<Longrightarrow> r = CHR '']'' # r' \<Longrightarrow> length s < m \<Longrightarrow> length s \<le> n \<Longrightarrow>
      accepts_elements m n F vs s r"
    and "members_text F ms s r \<Longrightarrow> r = CHR ''}'' # r' \<Longrightarrow> length s < m \<Longrightarrow> length s \<le> n \<Longrightarrow>
      accepts_members m n F ms s r"
proof (induction arbitrary: m and m n r' and m n r' rule: value_text_elements_text_members_text.inducts)
  case (null r)
  then obtain k where "m = Suc k" by (cases m) auto
  then show ?case using accepts_literals(1) by blast
next
  case (boolean b r)
  then obtain k where "m = Suc k" by (cases m) auto
  then show ?case using accepts_literals(2) by blast
next
  case (string b v r)
  then obtain k where "m = Suc k" by (cases m) auto
  then show ?case using accepts_string [OF string(1)] by blast
next
  case (number ds r)
  then obtain k where "m = Suc k" by (cases m) auto
  then show ?case using accepts_number [OF F number(1,2)] by blast
next
  case (empty_array s r)
  then obtain k where "m = Suc k" by (cases m) auto
  then show ?case using accepts_empty_array [OF empty_array(1)] by blast
next
  case (empty_object s r)
  then obtain k where "m = Suc k" by (cases m) auto
  then show ?case using accepts_empty_object [OF empty_object(1)] by blast
next
  case (array vs s r)
  then have "Suc (Suc (length s)) \<le> m" by simp
  then obtain k where k: "m = Suc (Suc k)" "length s \<le> k" by (metis Suc_le_D Suc_le_mono)
  obtain s' where "gap s s'" "starts_value s'" using elements_start [OF array(1)] by blast
  then show ?case unfolding k(1) using array(2) k(2) by (intro accepts_array) auto
next
  case (object ms s r)
  then have "Suc (Suc (length s)) \<le> m" by simp
  then obtain k where k: "m = Suc (Suc k)" "length s \<le> k" by (metis Suc_le_D Suc_le_mono)
  obtain s' where "gap s s'" "starts_value s'" using members_start [OF object(1)] by blast
  then show ?case unfolding k(1) using object(2) k(2) by (intro accepts_object) auto
next
  case (last_element s s1 v s2 r)
  have "length s1 < m" using last_element.prems(2) gap_length [OF last_element(1)] by simp
  moreover have "follows s2" using follows_gap [of s2 "CHR '']''" r'] last_element(2,5) by simp
  ultimately have "accepts m F v s1 s2" using last_element(4) by blast
  from accepts_last_element [OF this not_discarded_value [OF last_element(3)] last_element(1)]
  show ?case using last_element(2,5) by simp
next
  case (next_element s s1 v s2 s3 vs r)
  have "length s1 < m" using next_element.prems(2) gap_length [OF next_element(1)] by simp
  moreover have "follows s2" using follows_gap [OF next_element(2)] by simp
  ultimately have a: "accepts m F v s1 s2" using next_element(4) by blast
  have len: "length s3 < length s"
    using gap_length [OF next_element(1)] text_lengths(1) [OF next_element(3)] gap_length [OF next_element(2)] by simp
  then obtain k where n: "n = Suc k" "length s3 \<le> k" using next_element.prems(3) by (cases n) auto
  have "length s3 < m" using next_element.prems(2) len by simp
  then have "accepts_elements m k F vs s3 r" using next_element(6) [OF next_element.prems(1) _ n(2)] by blast
  from accepts_next_element [OF a not_discarded_value [OF next_element(3)] next_element(1,2) this]
  show ?case unfolding n(1) .
next
  case (last_member s b s1 k s2 s3 v s4 r)
  have len: "length s3 < length s"
    using gap_length [OF last_member(1)] gap_length [OF last_member(3)] gap_length [OF last_member(4)] by simp
  have "accepts m F v s3 s4"
    using last_member.prems len last_member(5) follows_gap [of s4 "CHR ''}''" r'] by (intro last_member(7)) auto
  from accepts_last_member [OF last_member(1-4) this not_discarded_value [OF last_member(6)]]
  show ?case using last_member(5,8) by simp
next
  case (next_member s b s1 k s2 s3 v s4 s5 ms r)
  have l3: "length s3 < length s"
    using gap_length [OF next_member(1)] gap_length [OF next_member(3)] gap_length [OF next_member(4)] by simp
  have a: "accepts m F v s3 s4"
    using next_member.prems l3 follows_gap [OF next_member(5)] by (intro next_member(7)) auto
  have len: "length s5 < length s"
    using l3 text_lengths(1) [OF next_member(6)] gap_length [OF next_member(5)] by simp
  then obtain n' where n: "n = Suc n'" "length s5 \<le> n'" using next_member.prems by (cases n) auto
  have "accepts_members m n' F ms s5 r"
    using next_member.prems len n by (intro next_member(9)) auto
  from accepts_next_member [OF next_member(1-4) a not_discarded_value [OF next_member(6)] next_member(5) this]
  show ?case unfolding n(1) .
qed

section \<open>Every accepted text is one of the grammar\<close>

lemma and_then_Inr:
  "and_then r f = Some (Inr x) \<longleftrightarrow> (\<exists>y. r = Some (Inr y) \<and> f y = Some (Inr x))"
  by (auto simp: and_then_def split: option.splits sum.splits)

lemma expect_Inr:
  "expect t p = Some (Inr u) \<longleftrightarrow> last_token p = t"
  "unexpect t p = Some (Inr u) \<longleftrightarrow> last_token p \<noteq> t"
  by (auto simp: expect_def unexpect_def)

definition closing :: "token_type set" where
  "closing = {value_separator, end_array, end_object, end_of_input}"

lemma next_from:
  "next_token p = Some (Inr p') \<Longrightarrow> on p s \<Longrightarrow> last_token p \<noteq> end_of_input \<Longrightarrow> on p' (behind p)"
  using next_on by fastforce

lemma on_gap_here: "on p s \<Longrightarrow> gap s (here p)"
  by (simp add: on_def)

text \<open>What is here, for a token with only one lexeme.\<close>

lemma here_char:
  assumes "on p s" and "(y, last_token p) \<in> {(CHR '','', value_separator), (CHR '':'', name_separator),
    (CHR ''['', begin_array), (CHR '']'', end_array), (CHR ''{'', begin_object), (CHR ''}'', end_object),
    (NUL, end_of_input)}"
  shows "here p = y # behind p"
proof -
  have "last_token p \<noteq> parse_error" using assms(2) by auto
  with on_lexeme [OF assms(1)] obtain w where "here p = w @ behind p" "lexeme (last_token p) w" by blast
  with assms(2) show ?thesis by auto
qed

lemma here_literal:
  assumes "on p s"
  shows "last_token p = literal_null \<Longrightarrow> here p = ''null'' @ behind p"
    and "last_token p = literal_true \<Longrightarrow> here p = ''true'' @ behind p"
    and "last_token p = literal_false \<Longrightarrow> here p = ''false'' @ behind p"
  using on_lexeme [OF assms] by auto

lemma follows_closing:
  assumes "on p r" and "last_token p \<in> closing"
  shows "follows r"
proof -
  have f: "follows r" if "here p = y # behind p" "y \<in> {CHR '','', CHR '']'', CHR ''}'', NUL}" for y
    using follows_gap [OF _ that(2), of r "behind p"] on_gap_here [OF assms(1)] that(1) by simp
  note h = here_char [OF assms(1)]
  from assms(2) consider "last_token p = value_separator" | "last_token p = end_array"
    | "last_token p = end_object" | "last_token p = end_of_input" by (auto simp: closing_def)
  then show ?thesis
  proof cases
    case 1
    then show ?thesis using h [of "CHR '',''"] by (intro f [of "CHR '',''"]) simp_all
  next
    case 2
    then show ?thesis using h [of "CHR '']''"] by (intro f [of "CHR '']''"]) simp_all
  next
    case 3
    then show ?thesis using h [of "CHR ''}''"] by (intro f [of "CHR ''}''"]) simp_all
  next
    case 4
    then show ?thesis using h [of NUL] by (intro f [of NUL]) simp_all
  qed
qed

lemma value_from:
  assumes F: "strtod_reads F" and p: "on p s" and v: "parse_value F p = Some (Inr (v, p'))"
    and c: "last_token p' \<in> closing"
  shows "value_text F v (here p) (behind p) \<and> on p' (behind p)"
proof -
  have n: "next_token p = Some (Inr p') \<and> last_token p \<noteq> end_of_input"
    using v by (auto simp: parse_value_def and_then_Inr expect_Inr split: token_type.splits)
  then have p': "on p' (behind p)" using next_from p by blast
  then have f: "follows (behind p)" using follows_closing c by blast
  have "value_text F v (here p) (behind p)"
  proof (cases "last_token p")
    case literal_null
    then show ?thesis using v here_literal(1) [OF p] value_text_elements_text_members_text.null [of F "behind p"]
      by (simp add: parse_value_def and_then_Inr)
  next
    case literal_true
    then show ?thesis
      using v here_literal(2) [OF p] value_text_elements_text_members_text.boolean [of F True "behind p"]
      by (simp add: parse_value_def and_then_Inr)
  next
    case literal_false
    then show ?thesis
      using v here_literal(3) [OF p] value_text_elements_text_members_text.boolean [of F False "behind p"]
      by (simp add: parse_value_def and_then_Inr)
  next
    case value_string
    then obtain x where x: "get_string (m_lexer p) = Some (Inr x)" "v = JString x"
      using v by (auto simp: parse_value_def and_then_Inr)
    obtain b where "here p = CHR 0x22 # b @ CHR 0x22 # behind p" "string_means b x"
      using string_from [OF p value_string x(1)] .
    then show ?thesis using x(2) value_text_elements_text_members_text.string by metis
  next
    case value_number
    obtain w where "here p = w @ behind p" "number_text w" "get_number F (m_lexer p) = Inr (number_value F w)"
      using get_number_here [OF F p value_number f] .
    then show ?thesis using v value_number value_text_elements_text_members_text.number [of w F "behind p"]
      by (auto simp: parse_value_def and_then_Inr)
  qed (use v in \<open>simp_all add: parse_value_def and_then_Inr expect_Inr\<close>)
  with p' show ?thesis by simp
qed

definition reads_grammar :: "nat \<Rightarrow> 'f float_ops \<Rightarrow> bool" where
  "reads_grammar m F \<longleftrightarrow> (\<forall>p s v p'. on p s \<longrightarrow> parse_internal F m True p = Some (Inr (v, p')) \<longrightarrow>
     last_token p' \<in> closing \<longrightarrow> (\<exists>r. value_text F v (here p) r \<and> on p' r))"

lemma reads_grammarD:
  "reads_grammar m F \<Longrightarrow> on p s \<Longrightarrow> parse_internal F m True p = Some (Inr (v, p')) \<Longrightarrow>
   last_token p' \<in> closing \<Longrightarrow> \<exists>r. value_text F v (here p) r \<and> on p' r"
  unfolding reads_grammar_def by blast

lemma elements_gap: "gap s s' \<Longrightarrow> elements_text F vs s' r \<Longrightarrow> elements_text F vs s r"
  by (erule elements_text.cases)
    (blast intro: gap_trans value_text_elements_text_members_text.intros)+

lemma members_gap: "gap s s' \<Longrightarrow> members_text F ms s' r \<Longrightarrow> members_text F ms s r"
  by (erule members_text.cases)
    (blast intro: gap_trans value_text_elements_text_members_text.intros)+

lemma element_from:
  assumes rec: "reads_grammar m F" and q: "on q s"
    and p: "parse_element (parse_internal F m) n True (JArray acc) q = Some (Inr (res, p'))"
    and c: "last_token p' = end_array"
  obtains v r p1 where "value_text F v (here q) r" and "on p1 r"
    and "(if last_token p1 = value_separator then parse_elements (parse_internal F m) n True (JArray (acc @ [v])) p1
        else Some (Inr (JArray (acc @ [v]), p1))) = Some (Inr (res, p'))"
proof -
  from p obtain v p1 res1 where p1: "parse_internal F m True q = Some (Inr (v, p1))"
      "(if \<not> is_discarded v then push_back (JArray acc) v else Inr (JArray acc)) = Inr res1"
      "(if last_token p1 = value_separator then parse_elements (parse_internal F m) n True res1 p1
        else Some (Inr (res1, p1))) = Some (Inr (res, p'))"
    by (auto simp: parse_element_def and_then_Inr simp del: parse_internal.simps parse_elements.simps)
  have "last_token p1 \<in> closing" using p1(3) c by (auto simp: closing_def split: if_splits)
  then obtain r where r: "value_text F v (here q) r" "on p1 r"
    using reads_grammarD [OF rec q p1(1)] by blast
  have "res1 = JArray (acc @ [v])"
    using p1(2) not_discarded_value [OF r(1)] by (simp add: push_back_array)
  with p1(3) show thesis using that [OF r] by blast
qed

lemma elements_from:
  assumes rec: "reads_grammar m F"
  shows "on q s \<Longrightarrow> parse_element (parse_internal F m) n True (JArray acc) q = Some (Inr (res, p')) \<Longrightarrow>
    last_token p' = end_array \<Longrightarrow>
    \<exists>vs. res = JArray (acc @ vs) \<and> elements_text F vs (here q) (here p') \<and> on p' (here p')"
proof (induction n arbitrary: q s acc)
  case (0 q s acc)
  obtain v r p1 where a: "value_text F v (here q) r" "on p1 r"
    "(if last_token p1 = value_separator then parse_elements (parse_internal F m) 0 True (JArray (acc @ [v])) p1
        else Some (Inr (JArray (acc @ [v]), p1))) = Some (Inr (res, p'))"
    using element_from [OF rec 0] .
  then have e: "p1 = p'" "res = JArray (acc @ [v])" by (auto split: if_splits)
  show ?case
    using last_element [OF gap.none a(1) on_gap_here [OF a(2)]] e on_here [OF a(2)] by auto
next
  case (Suc n q s acc)
  obtain v r p1 where a: "value_text F v (here q) r" "on p1 r"
    "(if last_token p1 = value_separator
        then parse_elements (parse_internal F m) (Suc n) True (JArray (acc @ [v])) p1
        else Some (Inr (JArray (acc @ [v]), p1))) = Some (Inr (res, p'))"
    using element_from [OF rec Suc(2,3,4)] .
  show ?case
  proof (cases "last_token p1 = value_separator")
    case False
    then have e: "p1 = p'" "res = JArray (acc @ [v])" using a(3) by auto
    show ?thesis
      using last_element [OF gap.none a(1) on_gap_here [OF a(2)]] e on_here [OF a(2)] by auto
  next
    case True
    then obtain q2 where q2: "next_token p1 = Some (Inr q2)"
        "parse_element (parse_internal F m) n True (JArray (acc @ [v])) q2 = Some (Inr (res, p'))"
      using a(3) by (auto simp: parse_elements_eq and_then_Inr simp del: parse_elements.simps)
    have o: "on q2 (behind p1)" using next_from [OF q2(1) a(2)] True by simp
    obtain vs where vs: "res = JArray ((acc @ [v]) @ vs)" "elements_text F vs (here q2) (here p')" "on p' (here p')"
      using Suc.IH [OF o q2(2) Suc(4)] by blast
    have "elements_text F vs (behind p1) (here p')" using elements_gap [OF on_gap_here [OF o] vs(2)] .
    moreover have "gap r (CHR '','' # behind p1)"
      using on_gap_here [OF a(2)] here_char [OF a(2), of "CHR '',''"] True by simp
    ultimately have "elements_text F (v # vs) (here q) (here p')"
      using next_element [OF gap.none a(1)] by blast
    then show ?thesis using vs by auto
  qed
qed

text \<open>One member: its text up to behind the value.\<close>

lemma member_from:
  assumes rec: "reads_grammar m F" and q: "on q s"
    and p: "parse_member (parse_internal F m) n True (JObject acc) q = Some (Inr (res, p'))"
    and c: "last_token p' = end_object"
  obtains b k s2 v s4 p1 where "here q = CHR 0x22 # b @ CHR 0x22 # behind q" and "string_means b k"
    and "gap (behind q) (CHR '':'' # s2)" and "\<exists>s3. gap s2 s3 \<and> value_text F v s3 s4" and "on p1 s4"
    and "(if last_token p1 = value_separator
        then parse_members (parse_internal F m) n True (JObject (map_assign k v acc)) p1
        else Some (Inr (JObject (map_assign k v acc), p1))) = Some (Inr (res, p'))"
proof -
  from p obtain k p1 p2 v p3 res1 where a: "last_token q = value_string" "get_string (m_lexer q) = Some (Inr k)"
      "next_token q = Some (Inr p1)" "last_token p1 = name_separator" "next_token p1 = Some (Inr p2)"
      "parse_internal F m True p2 = Some (Inr (v, p3))"
      "(if \<not> is_discarded v then set_key (JObject acc) k v else Inr (JObject acc)) = Inr res1"
      "(if last_token p3 = value_separator then parse_members (parse_internal F m) n True res1 p3
        else Some (Inr (res1, p3))) = Some (Inr (res, p'))"
    by (auto simp: parse_member_eq [OF on_callback [OF q]] and_then_Inr expect_Inr
        simp del: parse_internal.simps parse_members.simps)
  obtain b where b: "here q = CHR 0x22 # b @ CHR 0x22 # behind q" "string_means b k"
    using string_from [OF q a(1,2)] .
  have o1: "on p1 (behind q)" using next_from [OF a(3) q] a(1) by simp
  have o2: "on p2 (behind p1)" using next_from [OF a(5) o1] a(4) by simp
  have g: "gap (behind q) (CHR '':'' # behind p1)"
    using on_gap_here [OF o1] here_char [OF o1, of "CHR '':''"] a(4) by simp
  have "last_token p3 \<in> closing" using a(8) c by (auto simp: closing_def split: if_splits)
  then obtain r where r: "value_text F v (here p2) r" "on p3 r"
    using reads_grammarD [OF rec o2 a(6)] by blast
  have "res1 = JObject (map_assign k v acc)"
    using a(7) not_discarded_value [OF r(1)] by (simp add: set_key_assign)
  with a(8) show thesis
    using that [OF b g _ r(2)] on_gap_here [OF o2] r(1) by blast
qed

lemma members_from:
  assumes rec: "reads_grammar m F"
  shows "on q s \<Longrightarrow> parse_member (parse_internal F m) n True (JObject acc) q = Some (Inr (res, p')) \<Longrightarrow>
    last_token p' = end_object \<Longrightarrow>
    \<exists>ms. res = JObject (object_of ms acc) \<and> members_text F ms (here q) (here p') \<and> on p' (here p')"
proof (induction n arbitrary: q s acc)
  case (0 q s acc)
  obtain b k s2 v s4 p1 where a: "here q = CHR 0x22 # b @ CHR 0x22 # behind q" "string_means b k"
    "gap (behind q) (CHR '':'' # s2)" "\<exists>s3. gap s2 s3 \<and> value_text F v s3 s4" "on p1 s4"
    "(if last_token p1 = value_separator
        then parse_members (parse_internal F m) 0 True (JObject (map_assign k v acc)) p1
        else Some (Inr (JObject (map_assign k v acc), p1))) = Some (Inr (res, p'))"
    using member_from [OF rec 0] .
  then have e: "p1 = p'" "res = JObject (map_assign k v acc)" by (auto split: if_splits)
  have "gap (here q) (CHR 0x22 # b @ CHR 0x22 # behind q)" unfolding a(1) by (rule gap.none)
  moreover have "gap s4 (here p')" using on_gap_here [OF a(5)] e(1) by simp
  ultimately have "members_text F [(k, v)] (here q) (here p')"
    using a(2-4) by (blast intro: last_member)
  then show ?case using e on_here [OF a(5)] by (intro exI [of _ "[(k, v)]"]) (simp add: object_of_def)
next
  case (Suc n q s acc)
  obtain b k s2 v s4 p1 where a: "here q = CHR 0x22 # b @ CHR 0x22 # behind q" "string_means b k"
    "gap (behind q) (CHR '':'' # s2)" "\<exists>s3. gap s2 s3 \<and> value_text F v s3 s4" "on p1 s4"
    "(if last_token p1 = value_separator
        then parse_members (parse_internal F m) (Suc n) True (JObject (map_assign k v acc)) p1
        else Some (Inr (JObject (map_assign k v acc), p1))) = Some (Inr (res, p'))"
    using member_from [OF rec Suc(2,3,4)] .
  have g: "gap (here q) (CHR 0x22 # b @ CHR 0x22 # behind q)" unfolding a(1) by (rule gap.none)
  show ?case
  proof (cases "last_token p1 = value_separator")
    case False
    then have e: "p1 = p'" "res = JObject (map_assign k v acc)" using a(6) by auto
    have "gap s4 (here p')" using on_gap_here [OF a(5)] e(1) by simp
    with g have "members_text F [(k, v)] (here q) (here p')"
      using a(2-4) by (blast intro: last_member)
    then show ?thesis using e on_here [OF a(5)] by (intro exI [of _ "[(k, v)]"]) (simp add: object_of_def)
  next
    case True
    then obtain q2 where q2: "next_token p1 = Some (Inr q2)"
        "parse_member (parse_internal F m) n True (JObject (map_assign k v acc)) q2 = Some (Inr (res, p'))"
      using a(6) by (auto simp: parse_members_eq and_then_Inr simp del: parse_members.simps)
    have o: "on q2 (behind p1)" using next_from [OF q2(1) a(5)] True by simp
    obtain ms where ms: "res = JObject (object_of ms (map_assign k v acc))" "members_text F ms (here q2) (here p')"
        "on p' (here p')"
      using Suc.IH [OF o q2(2) Suc(4)] by blast
    have "members_text F ms (behind p1) (here p')" using members_gap [OF on_gap_here [OF o] ms(2)] .
    moreover have "gap s4 (CHR '','' # behind p1)"
      using on_gap_here [OF a(5)] here_char [OF a(5), of "CHR '',''"] True by simp
    ultimately have "members_text F ((k, v) # ms) (here q) (here p')"
      using g a(2-4) by (blast intro: next_member)
    then show ?thesis using ms by (intro exI [of _ "(k, v) # ms"]) (simp add: object_of_def)
  qed
qed

lemma array_from:
  assumes rec: "reads_grammar m F" and p: "on p s" and t: "last_token p = begin_array"
    and a: "parse_array (parse_internal F m) n True p = Some (Inr (v, p'))"
  shows "\<exists>r. value_text F v (here p) r \<and> on p' r"
proof -
  have h: "here p = CHR ''['' # behind p" using here_char [OF p, of "CHR ''[''"] t by simp
  from a obtain p1 where p1: "next_token p = Some (Inr p1)"
      "(if last_token p1 = end_array then
         and_then (next_token p1) (\<lambda>p. Some (Inr (parse_end array_end True (JArray []) p)))
       else
         and_then (unexpect value_separator p1) (\<lambda>_.
         and_then (parse_elements (parse_internal F m) n True (JArray []) p1) (\<lambda>(result, p).
         and_then (expect end_array p) (\<lambda>_.
         and_then (next_token p) (\<lambda>p. Some (Inr (parse_end array_end True result p))))))) = Some (Inr (v, p'))"
    unfolding parse_brackets [OF on_callback [OF p]] by (auto simp only: and_then_Inr)
  have o1: "on p1 (behind p)" using next_from [OF p1(1) p] t by simp
  show ?thesis
  proof (cases "last_token p1 = end_array")
    case True
    then obtain p2 where p2: "next_token p1 = Some (Inr p2)" "parse_end array_end True (JArray []) p2 = (v, p')"
      using p1(2) by (auto simp: and_then_Inr)
    have o2: "on p2 (behind p1)" using next_from [OF p2(1) o1] True by simp
    have "gap (behind p) (CHR '']'' # behind p1)"
      using on_gap_here [OF o1] here_char [OF o1, of "CHR '']''"] True by simp
    then have "value_text F (JArray []) (here p) (behind p1)" unfolding h by (rule empty_array)
    then show ?thesis using p2(2) o2 by (auto simp: parse_end_plain on_callback [OF o2])
  next
    case False
    then obtain res p2 p3 where b: "last_token p1 \<noteq> value_separator"
        "parse_elements (parse_internal F m) n True (JArray []) p1 = Some (Inr (res, p2))"
        "last_token p2 = end_array" "next_token p2 = Some (Inr p3)" "parse_end array_end True res p3 = (v, p')"
      using p1(2) by (auto simp: and_then_Inr expect_Inr simp del: parse_elements.simps)
    obtain k where k: "n = Suc k" using b(2) by (cases n) auto
    have "parse_element (parse_internal F m) k True (JArray []) p1 = Some (Inr (res, p2))"
      using b(1,2) k by (simp add: parse_elements_eq del: parse_elements.simps)
    from elements_from [OF rec o1 this b(3)] obtain vs where
      vs: "res = JArray vs" "elements_text F vs (here p1) (here p2)" "on p2 (here p2)" by auto
    have o3: "on p3 (behind p2)" using next_from [OF b(4) vs(3)] b(3) by simp
    have "elements_text F vs (behind p) (CHR '']'' # behind p2)"
      using elements_gap [OF on_gap_here [OF o1] vs(2)] here_char [OF vs(3), of "CHR '']''"] b(3) by simp
    then have "value_text F (JArray vs) (here p) (behind p2)"
      unfolding h by (rule value_text_elements_text_members_text.array)
    then show ?thesis using b(5) vs(1) o3 by (auto simp: parse_end_plain on_callback [OF o3])
  qed
qed

lemma object_from:
  assumes rec: "reads_grammar m F" and p: "on p s" and t: "last_token p = begin_object"
    and a: "parse_object (parse_internal F m) n True p = Some (Inr (v, p'))"
  shows "\<exists>r. value_text F v (here p) r \<and> on p' r"
proof -
  have h: "here p = CHR ''{'' # behind p" using here_char [OF p, of "CHR ''{''"] t by simp
  from a obtain p1 where p1: "next_token p = Some (Inr p1)"
      "(if last_token p1 = end_object then
         and_then (next_token p1) (\<lambda>p. Some (Inr (parse_end object_end True (JObject []) p)))
       else
         and_then (unexpect value_separator p1) (\<lambda>_.
         and_then (parse_members (parse_internal F m) n True (JObject []) p1) (\<lambda>(result, p).
         and_then (expect end_object p) (\<lambda>_.
         and_then (next_token p) (\<lambda>p. Some (Inr (parse_end object_end True result p))))))) = Some (Inr (v, p'))"
    unfolding parse_brackets [OF on_callback [OF p]] by (auto simp only: and_then_Inr)
  have o1: "on p1 (behind p)" using next_from [OF p1(1) p] t by simp
  show ?thesis
  proof (cases "last_token p1 = end_object")
    case True
    then obtain p2 where p2: "next_token p1 = Some (Inr p2)" "parse_end object_end True (JObject []) p2 = (v, p')"
      using p1(2) by (auto simp: and_then_Inr)
    have o2: "on p2 (behind p1)" using next_from [OF p2(1) o1] True by simp
    have "gap (behind p) (CHR ''}'' # behind p1)"
      using on_gap_here [OF o1] here_char [OF o1, of "CHR ''}''"] True by simp
    then have "value_text F (JObject []) (here p) (behind p1)" unfolding h by (rule empty_object)
    then show ?thesis using p2(2) o2 by (auto simp: parse_end_plain on_callback [OF o2])
  next
    case False
    then obtain res p2 p3 where b: "last_token p1 \<noteq> value_separator"
        "parse_members (parse_internal F m) n True (JObject []) p1 = Some (Inr (res, p2))"
        "last_token p2 = end_object" "next_token p2 = Some (Inr p3)" "parse_end object_end True res p3 = (v, p')"
      using p1(2) by (auto simp: and_then_Inr expect_Inr simp del: parse_members.simps)
    obtain k where k: "n = Suc k" using b(2) by (cases n) auto
    have "parse_member (parse_internal F m) k True (JObject []) p1 = Some (Inr (res, p2))"
      using b(1,2) k by (simp add: parse_members_eq del: parse_members.simps)
    from members_from [OF rec o1 this b(3)] obtain ms where
      ms: "res = JObject (object_of ms [])" "members_text F ms (here p1) (here p2)" "on p2 (here p2)" by auto
    have o3: "on p3 (behind p2)" using next_from [OF b(4) ms(3)] b(3) by simp
    have "members_text F ms (behind p) (CHR ''}'' # behind p2)"
      using members_gap [OF on_gap_here [OF o1] ms(2)] here_char [OF ms(3), of "CHR ''}''"] b(3) by simp
    then have "value_text F (JObject (object_of ms [])) (here p) (behind p2)"
      unfolding h by (rule value_text_elements_text_members_text.object)
    then show ?thesis using b(5) ms(1) o3 by (auto simp: parse_end_plain on_callback [OF o3])
  qed
qed

lemma parse_internal_from:
  assumes F: "strtod_reads F"
  shows "reads_grammar m F"
proof (induction m)
  case (Suc m)
  have "\<exists>r. value_text F v (here p) r \<and> on p' r"
    if p: "on p s" "parse_internal F (Suc m) True p = Some (Inr (v, p'))" "last_token p' \<in> closing" for p s v p'
  proof -
    consider "last_token p = begin_object" | "last_token p = begin_array"
      | "last_token p \<noteq> begin_object" "last_token p \<noteq> begin_array" by blast
    then show ?thesis
    proof cases
      case 1
      then show ?thesis using object_from [OF Suc p(1) 1] p(2) by simp
    next
      case 2
      then show ?thesis using array_from [OF Suc p(1) 2] p(2) by simp
    next
      case 3
      then have e: "parse_internal F (Suc m) True p = and_then (parse_value F p) (\<lambda>(result, q).
          case callback q of None \<Rightarrow> Some (Inr (result, q))
          | Some cb \<Rightarrow> (let (kept, result) = cb (depth q) value_event result
                      in Some (Inr (if kept then result else JDiscarded, q))))"
        by (cases "last_token p") simp_all
      obtain v1 q where q: "parse_value F p = Some (Inr (v1, q))"
        using p(2) unfolding e by (auto simp: and_then_Inr)
      have "callback q = None" using q next_token_gap(2) [of p q] on_callback [OF p(1)]
        by (auto simp: parse_value_def and_then_Inr expect_Inr split: token_type.splits)
      then have "v1 = v" "q = p'" using p(2) q unfolding e by simp_all
      with q value_from [OF F p(1) _ p(3)] show ?thesis by blast
    qed
  qed
  then show ?case unfolding reads_grammar_def by blast
qed (simp add: reads_grammar_def)

section \<open>The parser and the grammar\<close>

lemma parse_accepts:
  assumes F: "strtod_reads F" and s: "json_text F v s"
  shows "parse F s None = Some (Inr v)"
proof -
  obtain s1 s2 r where t: "gap (s @ [NUL]) s1" "value_text F v s1 s2" "gap s2 (NUL # r)"
    using s by (cases rule: json_text.cases) blast
  obtain p :: "'a json_parser" where p: "parser_of s None = Some (Inr p)" "on p (s @ [NUL])" "m_content (m_lexer p) = s"
    using parser_of_on by blast
  have "length s1 < length s + 2" using gap_length [OF t(1)] by simp
  then have "accepts (length s + 2) F v s1 s2"
    using accepts_grammar(1) [OF F t(2)] follows_gap [OF t(3)] by simp
  then obtain p' where p': "parse_internal F (length s + 2) True p = Some (Inr (v, p'))" "on p' s2"
    using acceptsD p(2) on_gap [OF t(1)] by blast
  then show ?thesis
    using on_char(1) [OF p'(2) t(3), of end_of_input] p not_discarded_value [OF t(2)]
    by (simp add: parse_def parser_parse_def expect_def del: parse_internal.simps)
qed

lemma parse_accepted:
  assumes F: "strtod_reads F" and s: "parse F s None = Some (Inr v)"
  shows "json_text F v s"
proof -
  obtain p :: "'a json_parser" where p: "parser_of s None = Some (Inr p)" "on p (s @ [NUL])" "m_content (m_lexer p) = s"
    using parser_of_on by blast
  obtain v1 p' where p': "parse_internal F (length s + 2) True p = Some (Inr (v1, p'))"
      "last_token p' = end_of_input" "v = (if is_discarded v1 then JNull else v1)"
    using s p(1,3) by (auto simp: parse_def parser_parse_def and_then_Inr expect_Inr simp del: parse_internal.simps)
  obtain r where r: "value_text F v1 (here p) r" "on p' r"
    using reads_grammarD [OF parse_internal_from [OF F] p(2) p'(1)] p'(2) by (auto simp: closing_def)
  have "gap r (NUL # behind p')"
    using on_gap_here [OF r(2)] here_char [OF r(2), of NUL] p'(2) by simp
  moreover have "v = v1" using p'(3) not_discarded_value [OF r(1)] by simp
  ultimately show ?thesis using json_text.intros [OF on_gap_here [OF p(2)]] r(1) by blast
qed

text \<open>
  C2: without a callback the parser returns a value exactly for the texts of the grammar
  \<open>json_text\<close>, which is stated apart from scanner and parser, and it is the value the grammar
  gives; in an object with a repeated key the last member counts.  Of \<open>strtod\<close> only what it
  reads is used.
\<close>

theorem parse_is_grammar:
  assumes "strtod_reads F"
  shows "parse F s None = Some (Inr v) \<longleftrightarrow> json_text F v s"
  using parse_accepts [OF assms] parse_accepted [OF assms] by blast

text \<open>An array of a number with a fraction and a literal.\<close>

lemma number_1_5: "number_text ''1.5''"
proof -
  have "int_part ''1''" "fraction ''.5''" "exponent ''''"
    by (simp_all add: int_part_def fraction_def exponent_def digits_def is_digit_def)
  from numberI [OF _ this, of "''''"] show ?thesis by simp
qed

lemma array_text: "json_text text_floats (JArray [JFloat ''1.5'', JNull]) ''[1.5 , null]''"
proof -
  have f: "follows [NUL]" by (simp add: follows_def)
  have v: "number_value text_floats ''1.5'' = JFloat ''1.5''"
    using text_strtod [OF number_1_5 f] by (simp add: number_value_def double_of_def is_digit_def)
  have w: "is_white (CHR '' '')" by (simp add: is_white_def)
  have "elements_text text_floats [JNull] (CHR '' '' # ''null'' @ '']'' @ [NUL]) ('']'' @ [NUL])"
    by (rule last_element [OF gap.white [OF w gap.none] value_text_elements_text_members_text.null gap.none])
  from next_element [OF gap.none value_text_elements_text_members_text.number [OF number_1_5]
      gap.white [OF w gap.none] this]
  have "elements_text text_floats [JFloat ''1.5'', JNull] (''1.5 , null]'' @ [NUL]) ('']'' @ [NUL])"
    unfolding v by simp
  then have "value_text text_floats (JArray [JFloat ''1.5'', JNull]) (''[1.5 , null]'' @ [NUL]) [NUL]"
    using value_text_elements_text_members_text.array [of text_floats _ _ "[NUL]"] by simp
  from json_text [OF gap.none this gap.none] show ?thesis .
qed

lemma parse_is_grammar_witness:
  "parse text_floats ''[1.5 , null]'' None = Some (Inr (JArray [JFloat ''1.5'', JNull]))"
  using parse_is_grammar [OF text_reads] array_text by blast



end
