(* ===== verification/Json_Dumped.thy ===== *)
theory Json_Dumped
  imports Json_Accepts Json_Correct
begin

text \<open>
  What \<open>dump\<close> writes, with any indentation, is a text of the grammar, so the parser reads it
  back.
\<close>

section \<open>Dumped strings and numbers\<close>

lemma is_hex_0 [simp]: "is_hex (CHR ''0'')"
  by (simp add: is_hex_def)

lemma string_means_escape_char: "string_means s v \<Longrightarrow> string_means (escape_char c @ s) (c # v)"
proof -
  assume s: "string_means s v"
  let ?E = "{CHR 0x22, CHR 0x5C, CHR 0x08, CHR 0x0C, CHR 0x0A, CHR 0x0D, CHR 0x09}"
  consider "c \<in> ?E" | "c \<notin> ?E" "code c \<le> 0x1F" | "c \<notin> ?E" "\<not> code c \<le> 0x1F" by blast
  then show ?thesis
  proof cases
    case 1
    then obtain d where "escape_char c = [CHR 0x5C, d]" "(d, c) \<in> set escapes"
      by (auto simp: escape_char_def escapes_def)
    then show ?thesis using string_means.escape [OF _ s, of d] by simp
  next
    case 2
    let ?h = "hexify (code c div 16)" and ?l = "hexify (code c mod 16)"
    have hex: "list_all is_hex [CHR ''0'', CHR ''0'', ?h, ?l]" using 2(2) by (simp add: is_hex_hexify)
    have "code c < 2 ^ 64" using 2(2) by simp
    then have unit: "code_unit [CHR ''0'', CHR ''0'', ?h, ?l] (code c)"
      using hex strtoul_escape [OF 2(2)] by (simp add: code_unit_value unat_of_nat_64)
    have uni: "\<not> (0xD800 \<le> code c \<and> code c < 0xDC00)" "utf8_encode (code c) = [c]"
      using 2(2) by (simp_all add: utf8_encode_def)
    have "escape_char c = [CHR 0x5C, CHR ''u'', CHR ''0'', CHR ''0'', ?h, ?l]"
      using 2 by (simp add: escape_char_def)
    then show ?thesis using string_means.unicode [OF unit uni(1) s] uni(2) by simp
  next
    case 3
    then show ?thesis using string_means.plain_char [OF _ _ _ s, of c] by (simp add: escape_char_def)
  qed
qed

lemma string_means_escaped: "string_means (escape_string s) s"
  unfolding escape_string_concat by (induction s) (auto intro: string_means.empty string_means_escape_char)

lemma number_text_nat: "int_part (show_nat n)"
proof (cases "n = 0")
  case True
  have "show_nat 0 = [char_of (48 :: nat)]" by (simp add: show_nat.simps)
  moreover have "code (CHR ''0'') = 48" by simp
  then have "(char_of (48 :: nat) :: char) = CHR ''0''" by (metis char_of_char)
  ultimately show ?thesis using True by (simp add: int_part_def digits_def is_digit_def)
next
  case False
  obtain y r where y: "show_nat n = y # r" using show_nat_nonempty by (meson neq_Nil_conv)
  have "0x31 \<le> code y" "code y \<le> 0x39" using show_nat_first [OF y] False by simp_all
  then show ?thesis using y show_nat_digits [of n] by (auto simp: list_all_iff intro: int_partI)
qed

lemma number_text_int: "number_text (show_int n)"
  using numberI [of "''''" "show_nat (nat n)" "[]" "[]"] numberI [of "''-''" "show_nat (nat (- n))" "[]" "[]"]
    number_text_nat
  by (simp add: show_int_def fraction_def exponent_def)

lemma number_value_int:
  assumes "- (2 ^ 63) \<le> n" and "n < 2 ^ 64"
  shows "number_value F (show_int n) = (if n < 0 then JInteger (word_of_int n) else JUnsigned (word_of_int n))"
  using assms show_nat_digits [of "nat \<bar>n\<bar>"]
  by (auto simp: number_value_def show_int_def digits_value_show_nat list_all_iff)

section \<open>Dumped arrays and objects\<close>

definition white :: "char list \<Rightarrow> bool" where
  "white w \<longleftrightarrow> (\<forall>c \<in> set w. is_white c)"

lemma white_simps [simp]:
  "white []" "white (c # w) \<longleftrightarrow> is_white c \<and> white w" "white (u @ w) \<longleftrightarrow> white u \<and> white w" "white (spaces n)"
  "is_white (CHR 0x0A)" "is_white (CHR '' '')"
  by (auto simp: white_def spaces_def is_white_def)

lemma gap_over: "white w \<Longrightarrow> gap (w @ s) s"
  unfolding white_def by (rule gap_white) (auto intro: gap.none)

text \<open>Items between separators that end with white space.\<close>

lemma elements_separated:
  assumes "white w" and "white ws" and "white post"
    and "\<And>x r. x \<in> set (x0 # xs) \<Longrightarrow> value_text F (f x) (d x @ r) r"
  shows "elements_text F (map f (x0 # xs))
    (separated (CHR '','' # ws) (map (\<lambda>x. w @ d x) (x0 # xs)) @ post @ CHR '']'' # r) (CHR '']'' # r)"
  using assms(4)
proof (induction xs arbitrary: x0)
  case Nil
  have "value_text F (f x0) (d x0 @ post @ CHR '']'' # r) (post @ CHR '']'' # r)" using Nil by simp
  from last_element [OF gap_over [OF assms(1)] this gap_over [OF assms(3)]]
  show ?case by simp
next
  case (Cons x xs)
  let ?rest = "separated (CHR '','' # ws) (map (\<lambda>x. w @ d x) (x # xs)) @ post @ CHR '']'' # r"
  have "value_text F (f x0) (d x0 @ CHR '','' # ws @ ?rest) (CHR '','' # ws @ ?rest)" using Cons.prems by simp
  moreover have "elements_text F (map f (x # xs)) (ws @ ?rest) (CHR '']'' # r)"
    using Cons by (intro elements_gap [OF gap_over [OF assms(2)]] Cons.IH) auto
  ultimately have "elements_text F (f x0 # map f (x # xs)) (w @ d x0 @ CHR '','' # ws @ ?rest) (CHR '']'' # r)"
    using next_element [OF gap_over [OF assms(1)] _ gap.none] by blast
  then show ?case by simp
qed

lemma members_separated:
  assumes "white w" and "white ws" and "white post" and "white v"
    and "\<And>e r. e \<in> set (e0 # es) \<Longrightarrow> value_text F (f (snd e)) (d (snd e) @ r) r"
  shows "members_text F (map (\<lambda>e. (fst e, f (snd e))) (e0 # es))
    (separated (CHR '','' # ws) (map (\<lambda>e. w @ [CHR 0x22] @ escape_string (fst e) @ [CHR 0x22, CHR '':''] @ v @ d (snd e)) (e0 # es))
      @ post @ CHR ''}'' # r) (CHR ''}'' # r)"
  using assms(5)
proof (induction es arbitrary: e0)
  case Nil
  have "value_text F (f (snd e0)) (d (snd e0) @ post @ CHR ''}'' # r) (post @ CHR ''}'' # r)" using Nil by simp
  from last_member [OF gap_over [OF assms(1)] string_means_escaped gap.none gap_over [OF assms(4)] this gap_over [OF assms(3)]]
  show ?case by simp
next
  case (Cons e es)
  let ?g = "\<lambda>e. w @ [CHR 0x22] @ escape_string (fst e) @ [CHR 0x22, CHR '':''] @ v @ d (snd e)"
  let ?rest = "separated (CHR '','' # ws) (map ?g (e # es)) @ post @ CHR ''}'' # r"
  have val: "value_text F (f (snd e0)) (d (snd e0) @ CHR '','' # ws @ ?rest) (CHR '','' # ws @ ?rest)"
    using Cons.prems by simp
  have "members_text F (map (\<lambda>e. (fst e, f (snd e))) (e # es)) (ws @ ?rest) (CHR ''}'' # r)"
    using Cons by (intro members_gap [OF gap_over [OF assms(2)]] Cons.IH) auto
  from next_member [OF gap_over [OF assms(1)] string_means_escaped gap.none gap_over [OF assms(4)] val gap.none this]
  show ?case by simp
qed

lemma object_of_sorted: "map_ok (acc @ ms) \<Longrightarrow> object_of ms acc = acc @ ms"
proof (induction ms arbitrary: acc)
  case (Cons e ms)
  obtain k v where e: "e = (k, v)" by (cases e)
  have "\<forall>e \<in> set acc. fst e < k" using Cons.prems e by (auto simp: map_ok_def sorted_wrt_append)
  then have "map_assign k v acc = acc @ [(k, v)]"
    using map_assign_insert [of k v v acc] map_insert_last [of acc k v] map_assign_last [of acc k v v] by simp
  then show ?case using Cons.IH [of "acc @ [(k, v)]"] Cons.prems e by (simp add: object_of_def)
qed (simp add: object_of_def)

section \<open>Every dump is a text of the grammar\<close>

lemma dumped_number:
  assumes "dump_to F pretty step i j = show_int n" and "- (2 ^ 63) \<le> n" and "n < 2 ^ 64"
    and "reread j = (if n < 0 then JInteger (word_of_int n) else JUnsigned (word_of_int n))"
  shows "value_text F (reread j) (dump_to F pretty step i j @ r) r"
  using value_text_elements_text_members_text.number [OF number_text_int [of n], of F r]
  unfolding assms(1,4) number_value_int [OF assms(2,3)] .

lemma dumped_text: "textual j \<Longrightarrow> value_text F (reread j) (dump_to F pretty step i j @ r) r"
proof (induction j arbitrary: i r)
  case (JObject kvs)
  show ?case
  proof (cases kvs)
    case Nil
    then show ?thesis using empty_object [OF gap.none, of F r] by simp
  next
    case (Cons e es)
    define n where "n = (if pretty then i + step else i)"
    define nl where "nl = (if pretty then [CHR 0x0A] else [])"
    define v where "v = (if pretty then '' '' else [])"
    define z where "z = nl @ spaces (if pretty then n - step else n)"
    let ?d = "dump_to F pretty step n"
    let ?g = "\<lambda>e. spaces n @ [CHR 0x22] @ escape_string (fst e) @ [CHR 0x22, CHR '':''] @ v @ ?d (snd e)"
    have white: "white (spaces n)" "white nl" "white z" "white v" by (simp_all add: nl_def v_def z_def)
    have d: "dump_to F pretty step i (JObject kvs) =
        ''{'' @ nl @ separated (CHR '','' # nl) (map ?g kvs) @ z @ ''}''"
      using Cons by (simp add: Let_def n_def nl_def v_def z_def)
    have val: "value_text F (reread (snd e')) (?d (snd e') @ r) r" if "e' \<in> set (e # es)" for e' r
    proof -
      obtain a b where e': "e' = (a, b)" by (cases e')
      then have "(a, b) \<in> set kvs" "textual b" using that Cons JObject.prems by (auto simp: list_all_iff)
      then show ?thesis using JObject.IH [of "(a, b)" b] e' by simp
    qed
    have "members_text F (map (\<lambda>e. (fst e, reread (snd e))) kvs)
        (nl @ separated (CHR '','' # nl) (map ?g kvs) @ z @ CHR ''}'' # r) (CHR ''}'' # r)"
      unfolding Cons
      by (rule members_gap [OF gap_over [OF white(2)] members_separated [OF white, where d = ?d]], rule val)
    from value_text_elements_text_members_text.object [OF this]
    have "value_text F (JObject (object_of (map (\<lambda>e. (fst e, reread (snd e))) kvs) []))
        (dump_to F pretty step i (JObject kvs) @ r) r"
      unfolding d by simp
    moreover have "map_ok ([] @ map (\<lambda>e. (fst e, reread (snd e))) kvs)"
      using JObject.prems by (simp add: map_ok_def comp_def)
    ultimately show ?thesis using object_of_sorted by fastforce
  qed
next
  case (JArray xs)
  show ?case
  proof (cases xs)
    case Nil
    then show ?thesis using empty_array [OF gap.none, of F r] by simp
  next
    case (Cons y ys)
    define n where "n = (if pretty then i + step else i)"
    define nl where "nl = (if pretty then [CHR 0x0A] else [])"
    define z where "z = nl @ spaces (if pretty then n - step else n)"
    let ?g = "\<lambda>x. spaces n @ dump_to F pretty step n x"
    have white: "white (spaces n)" "white nl" "white z" by (simp_all add: nl_def z_def)
    have d: "dump_to F pretty step i (JArray xs) =
        ''['' @ nl @ separated (CHR '','' # nl) (map ?g xs) @ z @ '']''"
      using Cons by (simp add: Let_def n_def nl_def z_def)
    have val: "value_text F (reread x) (dump_to F pretty step n x @ r) r" if "x \<in> set (y # ys)" for x r
      using that Cons JArray by (auto simp: list_all_iff)
    have "elements_text F (map reread xs)
        (nl @ separated (CHR '','' # nl) (map ?g xs) @ z @ CHR '']'' # r) (CHR '']'' # r)"
      unfolding Cons
      by (rule elements_gap [OF gap_over [OF white(2)]
        elements_separated [OF white, where d = "dump_to F pretty step n"]], rule val)
    from value_text_elements_text_members_text.array [OF this] show ?thesis unfolding d by simp
  qed
next
  case (JString s)
  then show ?case using value_text_elements_text_members_text.string [OF string_means_escaped, of F s r] by simp
next
  case (JBoolean b)
  then show ?case using value_text_elements_text_members_text.boolean [of F b r] by (simp split: if_splits)
next
  case (JInteger n)
  show ?case using sint_bounds [of n] by (intro dumped_number [of F _ _ _ _ "sint n"]) auto
next
  case (JUnsigned n)
  have "dump_to F pretty step i (JUnsigned n) = show_int (uint n)" by (simp add: show_int_def)
  then show ?case using uint_bounds [of n]
    by (intro dumped_number [of F _ _ _ _ "uint n"]) (auto intro: order_trans [OF _ uint_ge_0])
next
  case JNull
  then show ?case using value_text_elements_text_members_text.null [of F r] by simp
qed auto

lemma dump_text:
  assumes "textual j"
  shows "json_text F (reread j) (dump F indent j)"
  using json_text.intros [OF gap.none, of F "reread j" "dump F indent j" "[NUL]" "[]"]
    dumped_text [OF assms] by (simp add: dump_def gap.none)

text \<open>
  C19: what \<open>dump\<close> writes with any indentation, or none, for a value without floating-point numbers
  and discarded values (\<open>textual\<close>) is a text of the grammar, and the parser gives the value back
  with its integers that are not negative as unsigned ones (\<open>reread\<close>).  A \<open>double\<close> is written with 15
  digits, which do not determine it, and a discarded value as \<open><discarded>\<close>, which is no JSON.
\<close>

theorem parse_dump_indented:
  assumes "textual j" and "strtod_reads F"
  shows "json_text F (reread j) (dump F indent j) \<and>
    parse F (dump F indent j) None = Some (Inr (reread j))"
  using dump_text [OF assms(1)] parse_accepts [OF assms(2)] by blast

lemma parse_dump_indented_witness:
  "json_text text_floats sample (dump text_floats 4 sample) \<and>
   parse text_floats (dump text_floats 4 sample) None = Some (Inr sample)"
  using parse_dump_indented [OF textual_sample text_reads, of 4] by (simp add: sample_def)

end
