(* ===== verification/Json_Iter.thy ===== *)
theory Json_Iter
  imports Json_Ops
begin

text \<open>
  The iterators of class \<open>basic_json\<close> and its operations that take or return them.

  Values live in a heap, so that \<open>this\<close> and the \<open>m_object\<close> of an iterator can be compared.  An
  iterator of the underlying container is the position it stands at, \<open>None\<close> when it is
  singular; its use outside the container is undefined.  An iterator is not used after
  a modification of its container other than the one that returns it.
\<close>

section \<open>Iterators\<close>

record json_iterator =
  m_object :: ptr
  object_iterator :: "nat option"
  array_iterator :: "nat option"
  primitive_iterator :: int

text \<open>Moving and reading in a container of a given length, and the primitive iterator, a \<open>ptrdiff_t\<close>.\<close>

definition shift :: "nat \<Rightarrow> nat option \<Rightarrow> int \<Rightarrow> nat option" where
  "shift len pos n = do {
     i \<leftarrow> pos;
     if 0 \<le> int i + n \<and> int i + n \<le> int len then Some (nat (int i + n)) else None
   }"

definition element :: "'a list \<Rightarrow> nat option \<Rightarrow> 'a option" where
  "element xs pos = do { i \<leftarrow> pos; if i < length xs then Some (xs ! i) else None }"

definition shift_primitive :: "int \<Rightarrow> int \<Rightarrow> int option" where
  "shift_primitive i n = (if - (2 ^ 63) \<le> i + n \<and> i + n < 2 ^ 63 then Some (i + n) else None)"

text \<open>\<open>primitive_iterator_t\<close> starts at \<open>denorm_min()\<close>, which is 0 for an integer type: at its begin.\<close>

definition begin_value :: int where
  "begin_value = 0"

definition end_value :: int where
  "end_value = begin_value + 1"

definition const_iterator :: "'f json heap \<Rightarrow> addr \<Rightarrow> json_iterator option" where
  "const_iterator h a = do {
     load h (Some a);
     Some \<lparr>m_object = Some a, object_iterator = None, array_iterator = None, primitive_iterator = 0\<rparr>
   }"

definition set_begin :: "'f json heap \<Rightarrow> json_iterator \<Rightarrow> json_iterator option" where
  "set_begin h it = do {
     j \<leftarrow> load h (m_object it);
     Some (case j of
       JObject kvs \<Rightarrow> it\<lparr>object_iterator := Some 0\<rparr>
     | JArray xs \<Rightarrow> it\<lparr>array_iterator := Some 0\<rparr>
     | JNull \<Rightarrow> it\<lparr>primitive_iterator := end_value\<rparr>
     | _ \<Rightarrow> it\<lparr>primitive_iterator := begin_value\<rparr>)
   }"

definition set_end :: "'f json heap \<Rightarrow> json_iterator \<Rightarrow> json_iterator option" where
  "set_end h it = do {
     j \<leftarrow> load h (m_object it);
     Some (case j of
       JObject kvs \<Rightarrow> it\<lparr>object_iterator := Some (length kvs)\<rparr>
     | JArray xs \<Rightarrow> it\<lparr>array_iterator := Some (length xs)\<rparr>
     | _ \<Rightarrow> it\<lparr>primitive_iterator := end_value\<rparr>)
   }"

definition json_begin :: "'f json heap \<Rightarrow> addr \<Rightarrow> json_iterator option" where
  "json_begin h a = do { result \<leftarrow> const_iterator h a; set_begin h result }"

definition json_end :: "'f json heap \<Rightarrow> addr \<Rightarrow> json_iterator option" where
  "json_end h a = do { result \<leftarrow> const_iterator h a; set_end h result }"

section \<open>Dereferencing\<close>

definition cannot_get_value :: "'a parse_result" where
  "cannot_get_value = Some (Inl (Out_Of_Range_Error ''cannot get value''))"

definition deref :: "'f json heap \<Rightarrow> json_iterator \<Rightarrow> 'f json parse_result" where
  "deref h it = do {
     j \<leftarrow> load h (m_object it);
     case j of
       JObject kvs \<Rightarrow> map_option (\<lambda>e. Inr (snd e)) (element kvs (object_iterator it))
     | JArray xs \<Rightarrow> map_option Inr (element xs (array_iterator it))
     | JNull \<Rightarrow> cannot_get_value
     | _ \<Rightarrow> (if primitive_iterator it = begin_value then Some (Inr j) else cannot_get_value)
   }"

text \<open>\<open>operator->\<close>, as the value it points to; it has no case for null.\<close>

definition arrow :: "'f json heap \<Rightarrow> json_iterator \<Rightarrow> 'f json parse_result" where
  "arrow h it = do {
     j \<leftarrow> load h (m_object it);
     case j of
       JObject kvs \<Rightarrow> map_option (\<lambda>e. Inr (snd e)) (element kvs (object_iterator it))
     | JArray xs \<Rightarrow> map_option Inr (element xs (array_iterator it))
     | _ \<Rightarrow> (if primitive_iterator it = begin_value then Some (Inr j) else cannot_get_value)
   }"

definition iter_key :: "'f json heap \<Rightarrow> json_iterator \<Rightarrow> char list parse_result" where
  "iter_key h it = do {
     j \<leftarrow> load h (m_object it);
     case j of
       JObject kvs \<Rightarrow> map_option (\<lambda>e. Inr (fst e)) (element kvs (object_iterator it))
     | _ \<Rightarrow> Some (Inl (Domain_Error ''cannot use key() for non-object iterators''))
   }"

definition iter_value :: "'f json heap \<Rightarrow> json_iterator \<Rightarrow> 'f json parse_result" where
  "iter_value h it = deref h it"

definition iter_subscript :: "'f json heap \<Rightarrow> json_iterator \<Rightarrow> int \<Rightarrow> 'f json parse_result" where
  "iter_subscript h it n = do {
     j \<leftarrow> load h (m_object it);
     case j of
       JObject kvs \<Rightarrow> Some (Inl (Domain_Error ''cannot use operator[] for object iterators''))
     | JArray xs \<Rightarrow> map_option Inr (element xs (shift (length xs) (array_iterator it) n))
     | JNull \<Rightarrow> cannot_get_value
     | _ \<Rightarrow> (if primitive_iterator it = - n then Some (Inr j) else cannot_get_value)
   }"

section \<open>Moving\<close>

definition incr :: "'f json heap \<Rightarrow> json_iterator \<Rightarrow> json_iterator option" where
  "incr h it = do {
     j \<leftarrow> load h (m_object it);
     case j of
       JObject kvs \<Rightarrow> do { i \<leftarrow> shift (length kvs) (object_iterator it) 1; Some (it\<lparr>object_iterator := Some i\<rparr>) }
     | JArray xs \<Rightarrow> do { i \<leftarrow> shift (length xs) (array_iterator it) 1; Some (it\<lparr>array_iterator := Some i\<rparr>) }
     | _ \<Rightarrow> do { i \<leftarrow> shift_primitive (primitive_iterator it) 1; Some (it\<lparr>primitive_iterator := i\<rparr>) }
   }"

definition decr :: "'f json heap \<Rightarrow> json_iterator \<Rightarrow> json_iterator option" where
  "decr h it = do {
     j \<leftarrow> load h (m_object it);
     case j of
       JObject kvs \<Rightarrow> do { i \<leftarrow> shift (length kvs) (object_iterator it) (- 1); Some (it\<lparr>object_iterator := Some i\<rparr>) }
     | JArray xs \<Rightarrow> do { i \<leftarrow> shift (length xs) (array_iterator it) (- 1); Some (it\<lparr>array_iterator := Some i\<rparr>) }
     | _ \<Rightarrow> do { i \<leftarrow> shift_primitive (primitive_iterator it) (- 1); Some (it\<lparr>primitive_iterator := i\<rparr>) }
   }"

text \<open>The postfix forms return the old iterator as well.\<close>

definition post_incr :: "'f json heap \<Rightarrow> json_iterator \<Rightarrow> (json_iterator \<times> json_iterator) option" where
  "post_incr h it = (let result = it in do { it \<leftarrow> incr h it; Some (result, it) })"

definition post_decr :: "'f json heap \<Rightarrow> json_iterator \<Rightarrow> (json_iterator \<times> json_iterator) option" where
  "post_decr h it = (let result = it in do { it \<leftarrow> decr h it; Some (result, it) })"

definition iter_add :: "'f json heap \<Rightarrow> json_iterator \<Rightarrow> int \<Rightarrow> json_iterator parse_result" where
  "iter_add h it n = do {
     j \<leftarrow> load h (m_object it);
     case j of
       JObject kvs \<Rightarrow> Some (Inl (Domain_Error ''cannot use offsets with object iterators''))
     | JArray xs \<Rightarrow> do { i \<leftarrow> shift (length xs) (array_iterator it) n; Some (Inr (it\<lparr>array_iterator := Some i\<rparr>)) }
     | _ \<Rightarrow> do { i \<leftarrow> shift_primitive (primitive_iterator it) n; Some (Inr (it\<lparr>primitive_iterator := i\<rparr>)) }
   }"

text \<open>\<open>operator-=\<close>; negating the least \<open>ptrdiff_t\<close> is undefined.\<close>

definition iter_sub :: "'f json heap \<Rightarrow> json_iterator \<Rightarrow> int \<Rightarrow> json_iterator parse_result" where
  "iter_sub h it n = (if - n < 2 ^ 63 then iter_add h it (- n) else None)"

definition iter_diff :: "'f json heap \<Rightarrow> json_iterator \<Rightarrow> json_iterator \<Rightarrow> int parse_result" where
  "iter_diff h it other = do {
     j \<leftarrow> load h (m_object it);
     case j of
       JObject kvs \<Rightarrow> Some (Inl (Domain_Error ''cannot use offsets with object iterators''))
     | JArray xs \<Rightarrow> do { i \<leftarrow> array_iterator it; k \<leftarrow> array_iterator other; Some (Inr (int i - int k)) }
     | _ \<Rightarrow> map_option Inr (shift_primitive (primitive_iterator it) (- primitive_iterator other))
   }"

section \<open>Comparing\<close>

definition different_containers :: "'a parse_result" where
  "different_containers = Some (Inl (Domain_Error ''cannot compare iterators of different containers''))"

definition iter_eq :: "'f json heap \<Rightarrow> json_iterator \<Rightarrow> json_iterator \<Rightarrow> bool parse_result" where
  "iter_eq h it other =
     (if m_object it \<noteq> m_object other then different_containers
      else do {
        j \<leftarrow> load h (m_object it);
        case j of
          JObject kvs \<Rightarrow> do { i \<leftarrow> object_iterator it; k \<leftarrow> object_iterator other; Some (Inr (i = k)) }
        | JArray xs \<Rightarrow> do { i \<leftarrow> array_iterator it; k \<leftarrow> array_iterator other; Some (Inr (i = k)) }
        | _ \<Rightarrow> Some (Inr (primitive_iterator it = primitive_iterator other))
      })"

definition iter_neq :: "'f json heap \<Rightarrow> json_iterator \<Rightarrow> json_iterator \<Rightarrow> bool parse_result" where
  "iter_neq h it other = and_then (iter_eq h it other) (\<lambda>b. Some (Inr (\<not> b)))"

definition iter_less :: "'f json heap \<Rightarrow> json_iterator \<Rightarrow> json_iterator \<Rightarrow> bool parse_result" where
  "iter_less h it other =
     (if m_object it \<noteq> m_object other then different_containers
      else do {
        j \<leftarrow> load h (m_object it);
        case j of
          JObject kvs \<Rightarrow> Some (Inl (Domain_Error ''cannot compare order of object iterators''))
        | JArray xs \<Rightarrow> do { i \<leftarrow> array_iterator it; k \<leftarrow> array_iterator other; Some (Inr (i < k)) }
        | _ \<Rightarrow> Some (Inr (primitive_iterator it < primitive_iterator other))
      })"

definition iter_le :: "'f json heap \<Rightarrow> json_iterator \<Rightarrow> json_iterator \<Rightarrow> bool parse_result" where
  "iter_le h it other = and_then (iter_less h other it) (\<lambda>b. Some (Inr (\<not> b)))"

definition iter_gt :: "'f json heap \<Rightarrow> json_iterator \<Rightarrow> json_iterator \<Rightarrow> bool parse_result" where
  "iter_gt h it other = and_then (iter_le h it other) (\<lambda>b. Some (Inr (\<not> b)))"

definition iter_ge :: "'f json heap \<Rightarrow> json_iterator \<Rightarrow> json_iterator \<Rightarrow> bool parse_result" where
  "iter_ge h it other = and_then (iter_less h it other) (\<lambda>b. Some (Inr (\<not> b)))"

section \<open>Reverse iterators\<close>

text \<open>\<open>std::reverse_iterator\<close> holds the iterator behind the element, its \<open>base()\<close>.\<close>

definition rev_deref :: "'f json heap \<Rightarrow> json_iterator \<Rightarrow> 'f json parse_result" where
  "rev_deref h rit = do { tmp \<leftarrow> decr h rit; deref h tmp }"

definition rev_incr :: "'f json heap \<Rightarrow> json_iterator \<Rightarrow> json_iterator option" where
  "rev_incr h rit = decr h rit"

definition rev_decr :: "'f json heap \<Rightarrow> json_iterator \<Rightarrow> json_iterator option" where
  "rev_decr h rit = incr h rit"

definition rev_add :: "'f json heap \<Rightarrow> json_iterator \<Rightarrow> int \<Rightarrow> json_iterator parse_result" where
  "rev_add h rit n = iter_sub h rit n"

definition rev_sub :: "'f json heap \<Rightarrow> json_iterator \<Rightarrow> int \<Rightarrow> json_iterator parse_result" where
  "rev_sub h rit n = iter_add h rit n"

definition rev_diff :: "'f json heap \<Rightarrow> json_iterator \<Rightarrow> json_iterator \<Rightarrow> int parse_result" where
  "rev_diff h rit other = iter_diff h rit other"

definition rev_subscript :: "'f json heap \<Rightarrow> json_iterator \<Rightarrow> int \<Rightarrow> 'f json parse_result" where
  "rev_subscript h rit n = and_then (rev_add h rit n) (rev_deref h)"

definition rev_key :: "'f json heap \<Rightarrow> json_iterator \<Rightarrow> char list parse_result" where
  "rev_key h rit = do { it \<leftarrow> decr h rit; iter_key h it }"

definition rev_value :: "'f json heap \<Rightarrow> json_iterator \<Rightarrow> 'f json parse_result" where
  "rev_value h rit = do { it \<leftarrow> decr h rit; deref h it }"

definition json_rbegin :: "'f json heap \<Rightarrow> addr \<Rightarrow> json_iterator option" where
  "json_rbegin h a = json_end h a"

definition json_rend :: "'f json heap \<Rightarrow> addr \<Rightarrow> json_iterator option" where
  "json_rend h a = json_begin h a"

section \<open>The wrapper with keys\<close>

record iteration_proxy_internal =
  anchor :: json_iterator
  array_index :: u64

definition proxy_begin :: "'f json heap \<Rightarrow> addr \<Rightarrow> iteration_proxy_internal option" where
  "proxy_begin h container = do { it \<leftarrow> json_begin h container; Some \<lparr>anchor = it, array_index = 0\<rparr> }"

definition proxy_end :: "'f json heap \<Rightarrow> addr \<Rightarrow> iteration_proxy_internal option" where
  "proxy_end h container = do { it \<leftarrow> json_end h container; Some \<lparr>anchor = it, array_index = 0\<rparr> }"

definition proxy_incr ::
    "'f json heap \<Rightarrow> iteration_proxy_internal \<Rightarrow> iteration_proxy_internal option" where
  "proxy_incr h p = do {
     it \<leftarrow> incr h (anchor p);
     Some (p\<lparr>anchor := it, array_index := array_index p + 1\<rparr>)
   }"

definition proxy_neq ::
    "'f json heap \<Rightarrow> iteration_proxy_internal \<Rightarrow> iteration_proxy_internal \<Rightarrow> bool parse_result" where
  "proxy_neq h p other = iter_neq h (anchor p) (anchor other)"

definition proxy_key :: "'f json heap \<Rightarrow> iteration_proxy_internal \<Rightarrow> char list parse_result" where
  "proxy_key h p = do {
     j \<leftarrow> load h (m_object (anchor p));
     case j of
       JArray xs \<Rightarrow> Some (Inr (show_nat (unat (array_index p))))
     | JObject kvs \<Rightarrow> iter_key h (anchor p)
     | _ \<Rightarrow> Some (Inr [])
   }"

definition proxy_value :: "'f json heap \<Rightarrow> iteration_proxy_internal \<Rightarrow> 'f json parse_result" where
  "proxy_value h p = iter_value h (anchor p)"

section \<open>Operations with iterators\<close>

definition json_front :: "'f json heap \<Rightarrow> addr \<Rightarrow> 'f json parse_result" where
  "json_front h this = do { it \<leftarrow> json_begin h this; deref h it }"

definition json_back :: "'f json heap \<Rightarrow> addr \<Rightarrow> 'f json parse_result" where
  "json_back h this = do { tmp \<leftarrow> json_end h this; tmp \<leftarrow> decr h tmp; deref h tmp }"

text \<open>\<open>std::map::find\<close>: the position of the key, or the end.\<close>

fun position_of :: "char list \<Rightarrow> (char list \<times> 'v) list \<Rightarrow> nat" where
  "position_of k [] = 0"
| "position_of k (e # kvs) = (if fst e = k then 0 else Suc (position_of k kvs))"

definition json_find :: "'f json heap \<Rightarrow> addr \<Rightarrow> char list \<Rightarrow> json_iterator option" where
  "json_find h this k = do {
     j \<leftarrow> load h (Some this);
     result \<leftarrow> json_end h this;
     Some (case j of
       JObject kvs \<Rightarrow> result\<lparr>object_iterator := Some (position_of k kvs)\<rparr>
     | _ \<Rightarrow> result)
   }"

text \<open>\<open>erase\<close> of what an iterator points to; a primitive value becomes null.\<close>

definition remove_at :: "nat option \<Rightarrow> 'a list \<Rightarrow> 'a list option" where
  "remove_at pos xs = do { i \<leftarrow> pos; if i < length xs then Some (take i xs @ drop (Suc i) xs) else None }"

definition erase_iterator ::
    "'f json heap \<Rightarrow> addr \<Rightarrow> json_iterator \<Rightarrow> ('f json heap \<times> json_iterator) parse_result" where
  "erase_iterator h this pos =
     (if m_object pos \<noteq> Some this then Some (Inl (Domain_Error ''iterator does not fit current value''))
      else do {
        j \<leftarrow> load h (Some this);
        result \<leftarrow> json_end h this;
        case j of
          JObject kvs \<Rightarrow> do {
            kvs' \<leftarrow> remove_at (object_iterator pos) kvs;
            h \<leftarrow> store h (Some this) (JObject kvs');
            Some (Inr (h, result\<lparr>object_iterator := object_iterator pos\<rparr>)) }
        | JArray xs \<Rightarrow> do {
            xs' \<leftarrow> remove_at (array_iterator pos) xs;
            h \<leftarrow> store h (Some this) (JArray xs');
            Some (Inr (h, result\<lparr>array_iterator := array_iterator pos\<rparr>)) }
        | JNull \<Rightarrow> Some (Inl (cannot_use ''erase()'' j))
        | JDiscarded \<Rightarrow> Some (Inl (cannot_use ''erase()'' j))
        | _ \<Rightarrow> (if primitive_iterator pos \<noteq> begin_value
            then Some (Inl (Out_Of_Range_Error ''iterator out of range''))
            else do { h \<leftarrow> store h (Some this) JNull; Some (Inr (h, result)) })
      })"

text \<open>\<open>[first, last)\<close> must be a range of the container.\<close>

definition range_of :: "nat option \<Rightarrow> nat option \<Rightarrow> 'a list \<Rightarrow> (nat \<times> nat) option" where
  "range_of first_it last_it xs = do {
     i \<leftarrow> first_it; k \<leftarrow> last_it;
     if i \<le> k \<and> k \<le> length xs then Some (i, k) else None
   }"

definition erase_range ::
    "'f json heap \<Rightarrow> addr \<Rightarrow> json_iterator \<Rightarrow> json_iterator \<Rightarrow> ('f json heap \<times> json_iterator) parse_result" where
  "erase_range h this first_it last_it =
     (if m_object first_it \<noteq> Some this \<or> m_object last_it \<noteq> Some this
      then Some (Inl (Domain_Error ''iterators do not fit current value''))
      else do {
        j \<leftarrow> load h (Some this);
        result \<leftarrow> json_end h this;
        case j of
          JObject kvs \<Rightarrow> do {
            (i, k) \<leftarrow> range_of (object_iterator first_it) (object_iterator last_it) kvs;
            h \<leftarrow> store h (Some this) (JObject (take i kvs @ drop k kvs));
            Some (Inr (h, result\<lparr>object_iterator := Some i\<rparr>)) }
        | JArray xs \<Rightarrow> do {
            (i, k) \<leftarrow> range_of (array_iterator first_it) (array_iterator last_it) xs;
            h \<leftarrow> store h (Some this) (JArray (take i xs @ drop k xs));
            Some (Inr (h, result\<lparr>array_iterator := Some i\<rparr>)) }
        | JNull \<Rightarrow> Some (Inl (cannot_use ''erase()'' j))
        | JDiscarded \<Rightarrow> Some (Inl (cannot_use ''erase()'' j))
        | _ \<Rightarrow> (if primitive_iterator first_it \<noteq> begin_value \<or> primitive_iterator last_it \<noteq> end_value
            then Some (Inl (Out_Of_Range_Error ''iterators out of range''))
            else do { h \<leftarrow> store h (Some this) JNull; Some (Inr (h, result)) })
      })"

text \<open>\<open>std::vector::insert\<close> before a position.\<close>

definition insert_at :: "nat option \<Rightarrow> 'a list \<Rightarrow> 'a list \<Rightarrow> 'a list option" where
  "insert_at pos vals xs = do { i \<leftarrow> pos; if i \<le> length xs then Some (take i xs @ vals @ drop i xs) else None }"

definition insert_value ::
    "'f json heap \<Rightarrow> addr \<Rightarrow> json_iterator \<Rightarrow> 'f json \<Rightarrow> ('f json heap \<times> json_iterator) parse_result" where
  "insert_value h this pos val = do {
     j \<leftarrow> load h (Some this);
     case j of
       JArray xs \<Rightarrow>
         if m_object pos \<noteq> Some this then Some (Inl (Domain_Error ''iterator does not fit current value''))
         else do {
           result \<leftarrow> const_iterator h this;
           xs' \<leftarrow> insert_at (array_iterator pos) [val] xs;
           h \<leftarrow> store h (Some this) (JArray xs');
           Some (Inr (h, result\<lparr>array_iterator := array_iterator pos\<rparr>)) }
     | _ \<Rightarrow> Some (Inl (cannot_use ''insert()'' j))
   }"

definition insert_copies ::
    "'f json heap \<Rightarrow> addr \<Rightarrow> json_iterator \<Rightarrow> nat \<Rightarrow> 'f json \<Rightarrow> ('f json heap \<times> json_iterator) parse_result" where
  "insert_copies h this pos cnt val = do {
     j \<leftarrow> load h (Some this);
     case j of
       JArray xs \<Rightarrow>
         if m_object pos \<noteq> Some this then Some (Inl (Domain_Error ''iterator does not fit current value''))
         else do {
           result \<leftarrow> const_iterator h this;
           xs' \<leftarrow> insert_at (array_iterator pos) (replicate cnt val) xs;
           h \<leftarrow> store h (Some this) (JArray xs');
           Some (Inr (h, result\<lparr>array_iterator := array_iterator pos\<rparr>)) }
     | _ \<Rightarrow> Some (Inl (cannot_use ''insert()'' j))
   }"

text \<open>Iterators into a value that is not an array have a singular array iterator.\<close>

definition insert_range ::
    "'f json heap \<Rightarrow> addr \<Rightarrow> json_iterator \<Rightarrow> json_iterator \<Rightarrow> json_iterator \<Rightarrow>
     ('f json heap \<times> json_iterator) parse_result" where
  "insert_range h this pos first_it last_it = do {
     j \<leftarrow> load h (Some this);
     case j of
       JArray xs \<Rightarrow>
         if m_object pos \<noteq> Some this then Some (Inl (Domain_Error ''iterator does not fit current value''))
         else if m_object first_it \<noteq> m_object last_it then Some (Inl (Domain_Error ''iterators do not fit''))
         else if m_object first_it = Some this \<or> m_object last_it = Some this
         then Some (Inl (Domain_Error ''passed iterators may not belong to container''))
         else do {
           result \<leftarrow> const_iterator h this;
           source \<leftarrow> load h (m_object first_it);
           vals \<leftarrow> (case source of
               JArray ys \<Rightarrow> map_option (\<lambda>(i, k). drop i (take k ys))
                 (range_of (array_iterator first_it) (array_iterator last_it) ys)
             | _ \<Rightarrow> None);
           xs' \<leftarrow> insert_at (array_iterator pos) vals xs;
           h \<leftarrow> store h (Some this) (JArray xs');
           Some (Inr (h, result\<lparr>array_iterator := array_iterator pos\<rparr>)) }
     | _ \<Rightarrow> Some (Inl (cannot_use ''insert()'' j))
   }"

definition insert_list ::
    "'f json heap \<Rightarrow> addr \<Rightarrow> json_iterator \<Rightarrow> 'f json list \<Rightarrow> ('f json heap \<times> json_iterator) parse_result" where
  "insert_list h this pos ilist = do {
     j \<leftarrow> load h (Some this);
     case j of
       JArray xs \<Rightarrow>
         if m_object pos \<noteq> Some this then Some (Inl (Domain_Error ''iterator does not fit current value''))
         else do {
           result \<leftarrow> const_iterator h this;
           xs' \<leftarrow> insert_at (array_iterator pos) ilist xs;
           h \<leftarrow> store h (Some this) (JArray xs');
           Some (Inr (h, result\<lparr>array_iterator := array_iterator pos\<rparr>)) }
     | _ \<Rightarrow> Some (Inl (cannot_use ''insert()'' j))
   }"

section \<open>Constructors and assignment\<close>

definition json_copies :: "nat \<Rightarrow> 'f json \<Rightarrow> 'f json" where
  "json_copies cnt val = JArray (replicate cnt val)"

definition json_from_range ::
    "'f json heap \<Rightarrow> json_iterator \<Rightarrow> json_iterator \<Rightarrow> 'f json parse_result" where
  "json_from_range h first_it last_it = do {
     j \<leftarrow> load h (m_object first_it);
     if m_object first_it \<noteq> m_object last_it then Some (Inl (Domain_Error ''iterators are not compatible''))
     else if m_type j \<in> {t_boolean, t_number_float, t_number_integer, t_number_unsigned, t_string} \<and>
       (primitive_iterator first_it \<noteq> begin_value \<or> primitive_iterator last_it \<noteq> end_value)
     then Some (Inl (Out_Of_Range_Error ''iterators out of range''))
     else case j of
       JInteger n \<Rightarrow> Some (Inr (JInteger n))
     | JUnsigned n \<Rightarrow> Some (Inr (JUnsigned n))
     | JFloat x \<Rightarrow> Some (Inr (JFloat x))
     | JBoolean b \<Rightarrow> Some (Inr (JBoolean b))
     | JString s \<Rightarrow> Some (Inr (JString s))
     | JObject kvs \<Rightarrow> map_option (\<lambda>(i, k). Inr (JObject (drop i (take k kvs))))
         (range_of (object_iterator first_it) (object_iterator last_it) kvs)
     | JArray xs \<Rightarrow> map_option (\<lambda>(i, k). Inr (JArray (drop i (take k xs))))
         (range_of (array_iterator first_it) (array_iterator last_it) xs)
     | _ \<Rightarrow> Some (Inl (Domain_Error (''cannot use construct with iterators from '' @ type_name j)))
   }"

text \<open>The copy constructor copies every part; moving leaves null behind.\<close>

fun json_copy :: "'f json \<Rightarrow> 'f json" where
  "json_copy (JObject kvs) = JObject (map (\<lambda>e. (fst e, json_copy (snd e))) kvs)"
| "json_copy (JArray xs) = JArray (map json_copy xs)"
| "json_copy (JString s) = JString s"
| "json_copy (JBoolean b) = JBoolean b"
| "json_copy (JInteger n) = JInteger n"
| "json_copy (JUnsigned n) = JUnsigned n"
| "json_copy (JFloat x) = JFloat x"
| "json_copy JNull = JNull"
| "json_copy JDiscarded = JDiscarded"

definition json_move :: "'f json \<Rightarrow> 'f json \<times> 'f json" where
  "json_move other = (other, JNull)"

definition json_swap :: "'f json heap \<Rightarrow> addr \<Rightarrow> addr \<Rightarrow> 'f json heap option" where
  "json_swap h this other = do {
     x \<leftarrow> load h (Some this);
     y \<leftarrow> load h (Some other);
     h \<leftarrow> store h (Some this) y;
     store h (Some other) x
   }"

text \<open>\<open>max_size\<close> of the containers is a parameter of the implementation.\<close>

fun json_max_size :: "nat \<Rightarrow> nat \<Rightarrow> 'f json \<Rightarrow> nat" where
  "json_max_size array_max object_max (JArray _) = array_max"
| "json_max_size array_max object_max (JObject _) = object_max"
| "json_max_size array_max object_max j = json_size j"

end
