(* ===== verification/Json_Iter_Correct.thy ===== *)
theory Json_Iter_Correct
  imports Json_Iter
begin

text \<open>
  Iterators stand at the positions of a list of elements: what a loop from the begin to the end
  visits, forwards, backwards or with keys (one locale, three interpretations), and what the
  operations with iterators do to that list.
\<close>

section \<open>Loops over a range\<close>

text \<open>
  The loop \<open>for (it = begin; it != end; ++it)\<close>, which a range-based \<open>for\<close> is, collecting what
  \<open>item\<close> reads at each iterator.
\<close>

fun loop_from ::
    "('it \<Rightarrow> 'it option) \<Rightarrow> ('it \<Rightarrow> 'it \<Rightarrow> bool parse_result) \<Rightarrow> ('it \<Rightarrow> 'v parse_result) \<Rightarrow>
     nat \<Rightarrow> 'it \<Rightarrow> 'it \<Rightarrow> 'v list parse_result" where
  "loop_from step differs item 0 it e = None"
| "loop_from step differs item (Suc fuel) it e =
     and_then (differs it e) (\<lambda>more.
       if \<not> more then Some (Inr [])
       else and_then (item it) (\<lambda>v.
         do { it \<leftarrow> step it;
           and_then (loop_from step differs item fuel it e) (\<lambda>vs. Some (Inr (v # vs))) }))"

definition loop_over ::
    "'it option \<Rightarrow> 'it option \<Rightarrow> ('it \<Rightarrow> 'it option) \<Rightarrow> ('it \<Rightarrow> 'it \<Rightarrow> bool parse_result) \<Rightarrow>
     ('it \<Rightarrow> 'v parse_result) \<Rightarrow> nat \<Rightarrow> 'v list parse_result" where
  "loop_over first past step differs item fuel =
     do { it \<leftarrow> first; e \<leftarrow> past; loop_from step differs item fuel it e }"

text \<open>What a container promises of its iterators: they stand at the positions of \<open>items\<close>.\<close>

locale iteration =
  fixes ok :: bool
    and first past :: "'it option"
    and step :: "'it \<Rightarrow> 'it option"
    and differs :: "'it \<Rightarrow> 'it \<Rightarrow> bool parse_result"
    and item :: "'it \<Rightarrow> 'v parse_result"
    and stands_at :: "nat \<Rightarrow> 'it \<Rightarrow> bool"
    and is_past :: "'it \<Rightarrow> bool"
    and items :: "'v list"
  assumes first: "ok \<Longrightarrow> \<exists>it. first = Some it \<and> stands_at 0 it"
    and past: "ok \<Longrightarrow> \<exists>it. past = Some it \<and> is_past it"
    and step: "ok \<Longrightarrow> stands_at i it \<Longrightarrow> i < length items \<Longrightarrow> \<exists>it'. step it = Some it' \<and> stands_at (Suc i) it'"
    and differs: "ok \<Longrightarrow> stands_at i it \<Longrightarrow> is_past e \<Longrightarrow> differs it e = Some (Inr (i \<noteq> length items))"
    and item: "ok \<Longrightarrow> stands_at i it \<Longrightarrow> i < length items \<Longrightarrow> item it = Some (Inr (items ! i))"
begin

lemma loop_from_items:
  assumes ok and "stands_at i it" and "is_past e" and "i + n = length items"
  shows "loop_from step differs item (Suc n) it e = Some (Inr (drop i items))"
  using assms(2,4)
proof (induction n arbitrary: i it)
  case 0
  then show ?case using differs [OF assms(1) 0(1) assms(3)] by simp
next
  case (Suc n)
  then have i: "i < length items" by simp
  obtain it' where it': "step it = Some it'" "stands_at (Suc i) it'"
    using step [OF assms(1) Suc.prems(1) i] by blast
  have "loop_from step differs item (Suc n) it' e = Some (Inr (drop (Suc i) items))"
    using Suc.prems(2) by (intro Suc.IH [OF it'(2)]) simp
  then show ?case
    using differs [OF assms(1) Suc.prems(1) assms(3)] item [OF assms(1) Suc.prems(1) i] it'(1) i
    by (simp add: Cons_nth_drop_Suc)
qed

lemma loop_over_items:
  assumes ok
  shows "loop_over first past step differs item (Suc (length items)) = Some (Inr items)"
proof -
  obtain it e where "first = Some it" "stands_at 0 it" "past = Some e" "is_past e"
    using first [OF assms] past [OF assms] by blast
  then show ?thesis
    using loop_from_items [OF assms, of 0 it e "length items"] by (simp add: loop_over_def del: loop_from.simps)
qed

end

section \<open>Positions\<close>

fun elements :: "'f json \<Rightarrow> 'f json list" where
  "elements (JArray xs) = xs"
| "elements (JObject kvs) = map snd kvs"
| "elements JNull = []"
| "elements j = [j]"

fun members :: "'f json \<Rightarrow> (char list \<times> 'f json) list" where
  "members (JArray xs) = zip (map show_nat [0..<length xs]) xs"
| "members (JObject kvs) = kvs"
| "members JNull = []"
| "members j = [([], j)]"

lemma length_elements [simp]: "length (elements j) = json_size j"
  by (cases j) simp_all

lemma length_members [simp]: "length (members j) = json_size j"
  by (cases j) simp_all

definition stands :: "'f json heap \<Rightarrow> addr \<Rightarrow> nat \<Rightarrow> json_iterator \<Rightarrow> bool" where
  "stands h a i it \<longleftrightarrow> m_object it = Some a \<and> (case cells h a of
     None \<Rightarrow> False
   | Some (JObject kvs) \<Rightarrow> object_iterator it = Some i \<and> i \<le> length kvs
   | Some (JArray xs) \<Rightarrow> array_iterator it = Some i \<and> i \<le> length xs
   | Some JNull \<Rightarrow> i = 0 \<and> primitive_iterator it = end_value
   | Some _ \<Rightarrow> i \<le> 1 \<and> primitive_iterator it = int i)"

lemmas iter_defs = json_begin_def json_end_def const_iterator_def set_begin_def set_end_def deref_def
  incr_def decr_def iter_neq_def iter_eq_def shift_def shift_primitive_def element_def
  begin_value_def end_value_def stands_def

lemma stands_begin: "cells h a = Some j \<Longrightarrow> \<exists>it. json_begin h a = Some it \<and> stands h a 0 it"
  by (cases j) (simp_all add: iter_defs)

lemma stands_end: "cells h a = Some j \<Longrightarrow> \<exists>it. json_end h a = Some it \<and> stands h a (json_size j) it"
  by (cases j) (simp_all add: iter_defs)

lemma stands_incr:
  "cells h a = Some j \<Longrightarrow> stands h a i it \<Longrightarrow> i < json_size j \<Longrightarrow>
    \<exists>it'. incr h it = Some it' \<and> stands h a (Suc i) it'"
  by (cases j) (simp_all add: iter_defs nat_add_distrib)

lemma stands_decr:
  "cells h a = Some j \<Longrightarrow> stands h a (Suc i) it \<Longrightarrow> \<exists>it'. decr h it = Some it' \<and> stands h a i it'"
  by (cases j) (simp_all add: iter_defs)

lemma stands_le: "cells h a = Some j \<Longrightarrow> stands h a i it \<Longrightarrow> i \<le> json_size j"
  by (cases j) (simp_all add: iter_defs)

lemma stands_eq:
  "cells h a = Some j \<Longrightarrow> stands h a i it \<Longrightarrow> stands h a k it' \<Longrightarrow> iter_eq h it it' = Some (Inr (i = k))"
  by (cases j) (auto simp: iter_defs)

lemma stands_neq:
  "cells h a = Some j \<Longrightarrow> stands h a i it \<Longrightarrow> stands h a k it' \<Longrightarrow> iter_neq h it it' = Some (Inr (i \<noteq> k))"
  by (simp add: iter_neq_def stands_eq)

lemma stands_deref:
  "cells h a = Some j \<Longrightarrow> stands h a i it \<Longrightarrow> i < json_size j \<Longrightarrow> deref h it = Some (Inr (elements j ! i))"
  by (cases j) (simp_all add: iter_defs)

section \<open>The three loops\<close>

interpretation forward: iteration "cells h a = Some j" "json_begin h a" "json_end h a" "incr h" "iter_neq h"
    "deref h" "stands h a" "stands h a (json_size j)" "elements j" for h a j
  by unfold_locales
    (use stands_begin stands_end stands_incr stands_neq stands_deref in \<open>simp_all\<close>)

lemma rev_step:
  assumes "cells h a = Some j" and "i \<le> json_size j \<and> stands h a (json_size j - i) rit" and "i < json_size j"
  shows "\<exists>rit'. rev_incr h rit = Some rit' \<and> Suc i \<le> json_size j \<and> stands h a (json_size j - Suc i) rit'"
  using stands_decr [OF assms(1), of "json_size j - Suc i" rit] assms(2,3) by (simp add: rev_incr_def Suc_diff_Suc)

lemma rev_item:
  assumes "cells h a = Some j" and "i \<le> json_size j \<and> stands h a (json_size j - i) rit" and "i < json_size j"
  shows "rev_deref h rit = Some (Inr (rev (elements j) ! i))"
proof -
  from rev_step [OF assms] obtain it where it: "decr h rit = Some it" "stands h a (json_size j - Suc i) it"
    by (auto simp: rev_incr_def)
  have "deref h it = Some (Inr (elements j ! (json_size j - Suc i)))"
    using assms(3) by (intro stands_deref [OF assms(1) it(2)]) simp
  then show ?thesis using it(1) assms(3) by (simp add: rev_deref_def rev_nth)
qed

interpretation backward: iteration "cells h a = Some j" "json_rbegin h a" "json_rend h a" "rev_incr h" "iter_neq h"
    "rev_deref h" "\<lambda>i rit. i \<le> json_size j \<and> stands h a (json_size j - i) rit" "stands h a 0" "rev (elements j)"
  for h a j
proof (unfold_locales, goal_cases)
  case 1
  then show ?case using stands_end by (simp add: json_rbegin_def)
next
  case 2
  then show ?case using stands_begin by (simp add: json_rend_def)
next
  case (3 i it)
  then show ?case using rev_step [of h a j i it] by simp
next
  case (4 i it e)
  then have "iter_neq h it e = Some (Inr (json_size j - i \<noteq> 0))" by (intro stands_neq) auto
  then show ?case using 4(2) by auto
next
  case (5 i it)
  then show ?case using rev_item [of h a j i it] by simp
qed

definition proxy_item ::
    "'f json heap \<Rightarrow> iteration_proxy_internal \<Rightarrow> (char list \<times> 'f json) parse_result" where
  "proxy_item h p =
     and_then (proxy_key h p) (\<lambda>k. and_then (proxy_value h p) (\<lambda>v. Some (Inr (k, v))))"

definition proxy_stands ::
    "'f json heap \<Rightarrow> addr \<Rightarrow> nat \<Rightarrow> iteration_proxy_internal \<Rightarrow> bool" where
  "proxy_stands h a i p \<longleftrightarrow> stands h a i (anchor p) \<and> array_index p = of_nat i"

lemma proxy_members:
  assumes "cells h a = Some j" and "json_size j < 2 ^ 64" and "proxy_stands h a i p" and "i < json_size j"
  shows "proxy_item h p = Some (Inr (members j ! i))"
proof -
  have s: "stands h a i (anchor p)" "unat (array_index p) = i"
    using assms(2-4) by (simp_all add: proxy_stands_def unat_of_nat_64)
  have v: "proxy_value h p = Some (Inr (elements j ! i))"
    unfolding proxy_value_def iter_value_def by (rule stands_deref [OF assms(1) s(1) assms(4)])
  have "proxy_key h p = Some (Inr (fst (members j ! i)))"
    using s assms(1,4) by (cases j) (simp_all add: proxy_key_def iter_key_def stands_def element_def)
  moreover have "snd (members j ! i) = elements j ! i" using assms(4) by (cases j) simp_all
  ultimately show ?thesis using v by (simp add: proxy_item_def prod_eq_iff)
qed

interpretation proxy: iteration "cells h a = Some j \<and> json_size j < 2 ^ 64" "proxy_begin h a" "proxy_end h a"
    "proxy_incr h" "proxy_neq h" "proxy_item h" "proxy_stands h a"
    "\<lambda>p. stands h a (json_size j) (anchor p)" "members j" for h a j
proof (unfold_locales, goal_cases)
  case 1
  then show ?case using stands_begin [of h a j] by (auto simp: proxy_begin_def proxy_stands_def)
next
  case 2
  then show ?case using stands_end [of h a j] by (auto simp: proxy_end_def)
next
  case (3 i p)
  then show ?case using stands_incr [of h a j i "anchor p"] by (auto simp: proxy_incr_def proxy_stands_def)
next
  case (4 i p e)
  then show ?case using stands_neq [of h a j i "anchor p" _ "anchor e"] by (simp add: proxy_neq_def proxy_stands_def)
next
  case (5 i p)
  then show ?case using proxy_members [of h a j i p] by simp
qed

text \<open>
  C28: a loop over a value, from \<open>begin()\<close> to \<open>end()\<close>, ends after \<open>size()\<close> rounds without an
  exception and visits the elements in order; the loop over \<open>rbegin()\<close> and \<open>rend()\<close> visits them
  backwards, and the one over \<open>iterator_wrapper\<close> together with their keys, the index for an array.
\<close>

theorem loops_visit_elements:
  assumes "cells h a = Some j" and "json_size j < 2 ^ 64"
  shows "loop_over (json_begin h a) (json_end h a) (incr h) (iter_neq h) (deref h) (Suc (json_size j))
      = Some (Inr (elements j)) \<and>
    loop_over (json_rbegin h a) (json_rend h a) (rev_incr h) (iter_neq h) (rev_deref h) (Suc (json_size j))
      = Some (Inr (rev (elements j))) \<and>
    loop_over (proxy_begin h a) (proxy_end h a) (proxy_incr h) (proxy_neq h) (proxy_item h) (Suc (json_size j))
      = Some (Inr (members j))"
  using forward.loop_over_items [OF assms(1)] backward.loop_over_items [OF assms(1)]
    proxy.loop_over_items [of h a j] assms by simp_all

text \<open>A heap that holds a few values, for the witnesses.\<close>

definition heap_of :: "'f json list \<Rightarrow> 'f json heap" where
  "heap_of js = \<lparr>cells = (\<lambda>a. if a < length js then Some (js ! a) else None), brk = length js\<rparr>"

lemma cells_heap_of [simp]: "cells (heap_of js) a = (if a < length js then Some (js ! a) else None)"
  by (simp add: heap_of_def)

definition three_items :: "int json" where
  "three_items = JArray [JBoolean True, JNull, JString ''x'']"

lemma loops_visit_elements_witness:
  "loop_over (proxy_begin (heap_of [three_items]) 0) (proxy_end (heap_of [three_items]) 0)
      (proxy_incr (heap_of [three_items])) (proxy_neq (heap_of [three_items])) (proxy_item (heap_of [three_items])) 4
    = Some (Inr [(''0'', JBoolean True), (''1'', JNull), (''2'', JString ''x'')])"
proof -
  have "Suc (json_size three_items) = 4" "json_size three_items < 2 ^ 64"
    "members three_items = [(''0'', JBoolean True), (''1'', JNull), (''2'', JString ''x'')]"
    by (simp_all add: three_items_def show_nat.simps upt_rec char_of_def bit_0)
  with loops_visit_elements [of "heap_of [three_items]" 0 three_items] show ?thesis by simp
qed

section \<open>Erasing and inserting\<close>

lemma nth_skip: "i < length xs \<Longrightarrow> (take i xs @ drop (Suc i) xs) ! i = xs ! Suc i"
  by (simp add: nth_append min_def)

text \<open>A value without its element at a position: a primitive value is its own element.\<close>

fun without_element :: "nat \<Rightarrow> 'f json \<Rightarrow> 'f json" where
  "without_element i (JArray xs) = JArray (take i xs @ drop (Suc i) xs)"
| "without_element i (JObject kvs) = JObject (take i kvs @ drop (Suc i) kvs)"
| "without_element i _ = JNull"

lemma elements_without:
  "i < json_size j \<Longrightarrow> elements (without_element i j) = take i (elements j) @ drop (Suc i) (elements j)"
  by (cases j) (auto simp: take_map drop_map)

lemma erase_iterator_stands:
  assumes "cells h a = Some j" and "stands h a i pos" and "i < json_size j" and "j \<noteq> JDiscarded"
  shows "\<exists>h' it. erase_iterator h a pos = Some (Inr (h', it)) \<and>
    h' = h\<lparr>cells := (cells h)(a \<mapsto> without_element i j)\<rparr> \<and> stands h' a i it"
  using assms by (cases j) (auto simp: erase_iterator_def remove_at_def store_Some iter_defs)

text \<open>
  C29: \<open>erase(pos)\<close> of an iterator at an element takes exactly this element out, from an object with
  its key, and leaves the other elements, their keys and every other value as they are; a primitive
  value is null then.  The iterator it returns stands at the same place, which is the element that
  followed, with its key, or the end.
\<close>

theorem erase_takes_element:
  assumes "cells h a = Some j" and "stands h a i pos" and "i < json_size j" and "j \<noteq> JDiscarded"
  shows "\<exists>h' it j'. erase_iterator h a pos = Some (Inr (h', it)) \<and>
    cells h' = (cells h)(a \<mapsto> j') \<and> j' = without_element i j \<and>
    (i < json_size j' \<longrightarrow> deref h' it = Some (Inr (elements j ! Suc i)) \<and>
      (\<forall>kvs. j = JObject kvs \<longrightarrow> iter_key h' it = Some (Inr (fst (kvs ! Suc i))))) \<and>
    (i = json_size j' \<longrightarrow> (\<exists>e. json_end h' a = Some e \<and> iter_eq h' it e = Some (Inr True)))"
proof -
  let ?j = "without_element i j"
  from erase_iterator_stands [OF assms] obtain h' it where e: "erase_iterator h a pos = Some (Inr (h', it))"
    "h' = h\<lparr>cells := (cells h)(a \<mapsto> ?j)\<rparr>" "stands h' a i it" by blast
  have c: "cells h' a = Some ?j" using e(2) by simp
  have next_one: "deref h' it = Some (Inr (elements j ! Suc i))" if "i < json_size ?j"
    using stands_deref [OF c e(3) that] nth_skip [of i "elements j"] assms(3)
    unfolding elements_without [OF assms(3)] by simp
  have next_key: "iter_key h' it = Some (Inr (fst (kvs ! Suc i)))" if "i < json_size ?j" "j = JObject kvs" for kvs
    using c e(3) that nth_skip [of i kvs] assms(3) by (simp add: iter_key_def stands_def element_def)
  have at_end: "\<exists>e. json_end h' a = Some e \<and> iter_eq h' it e = Some (Inr True)" if "i = json_size ?j"
  proof -
    obtain f where f: "json_end h' a = Some f" "stands h' a (json_size ?j) f" using stands_end [OF c] by blast
    have "iter_eq h' it f = Some (Inr (i = json_size ?j))" by (rule stands_eq [OF c e(3) f(2)])
    then have "iter_eq h' it f = Some (Inr True)" unfolding eqTrueI [OF that] .
    with f(1) show ?thesis by (intro exI conjI)
  qed
  show ?thesis using e(1,2) next_one next_key at_end by (intro exI conjI) auto
qed

lemma erase_takes_element_witness:
  "\<exists>h' it j'. erase_iterator (heap_of [three_items]) 0 \<lparr>m_object = Some 0, object_iterator = None,
      array_iterator = Some 1, primitive_iterator = 0\<rparr> = Some (Inr (h', it)) \<and>
    j' = JArray [JBoolean True, JString ''x''] \<and> cells h' 0 = Some j'"
  using erase_takes_element [of "heap_of [three_items]" 0 three_items 1
      "\<lparr>m_object = Some 0, object_iterator = None, array_iterator = Some 1, primitive_iterator = 0\<rparr>"]
  by (auto simp: three_items_def stands_def)

lemma insert_list_elements:
  assumes "cells h a = Some (JArray xs)" and "stands h a i pos"
  shows "\<exists>h' it. insert_list h a pos vs = Some (Inr (h', it)) \<and>
    h' = h\<lparr>cells := (cells h)(a \<mapsto> JArray (take i xs @ vs @ drop i xs))\<rparr> \<and> stands h' a i it"
  using assms by (auto simp: insert_list_def insert_at_def store_Some iter_defs)

lemma insert_overloads:
  "insert_value h a pos v = insert_list h a pos [v]"
  "insert_copies h a pos n v = insert_list h a pos (replicate n v)"
  by (simp_all add: insert_value_def insert_copies_def insert_list_def cong: json.case_cong option.case_cong)

text \<open>
  \<open>insert\<close> of a list puts its values before the position of the iterator and returns an
  iterator at the first of them; inserting one value, copies of a value, or a range of the
  elements of another array is inserting the list of them.
\<close>

theorem insert_puts_before:
  assumes "cells h a = Some (JArray xs)" and "stands h a i pos"
    and "cells h b = Some (JArray ys)" and "b \<noteq> a" and "stands h b k first_it" and "stands h b m last_it"
    and "k \<le> m"
  shows "(\<exists>h' it. insert_list h a pos vs = Some (Inr (h', it)) \<and>
      cells h' = (cells h)(a \<mapsto> JArray (take i xs @ vs @ drop i xs)) \<and>
      (vs \<noteq> [] \<longrightarrow> deref h' it = Some (Inr (hd vs)))) \<and>
    insert_value h a pos v = insert_list h a pos [v] \<and>
    insert_copies h a pos n v = insert_list h a pos (replicate n v) \<and>
    insert_range h a pos first_it last_it = insert_list h a pos (drop k (take m ys))"
proof -
  have r: "insert_range h a pos first_it last_it = insert_list h a pos (drop k (take m ys))"
    using assms(1-7) by (simp add: insert_range_def insert_list_def stands_def range_of_def)
  from insert_list_elements [OF assms(1,2), of vs] obtain h' it where i:
    "insert_list h a pos vs = Some (Inr (h', it))"
    "h' = h\<lparr>cells := (cells h)(a \<mapsto> JArray (take i xs @ vs @ drop i xs))\<rparr>" "stands h' a i it" by blast
  have le: "i \<le> length xs" using stands_le [OF assms(1,2)] by simp
  have c: "cells h' a = Some (JArray (take i xs @ vs @ drop i xs))" using i(2) by simp
  have "deref h' it = Some (Inr (hd vs))" if "vs \<noteq> []"
  proof -
    have "0 < length vs" using that by simp
    then have "i < json_size (JArray (take i xs @ vs @ drop i xs))" using le by (simp only: json_size.simps length_append length_take length_drop min.absorb2)
    from stands_deref [OF c i(3) this] le that show ?thesis by (simp add: nth_append hd_conv_nth)
  qed
  then show ?thesis using r i(1,2) insert_overloads by auto
qed

lemma insert_puts_before_witness:
  "\<exists>h' it. insert_list (heap_of [three_items, three_items]) 0 \<lparr>m_object = Some 0, object_iterator = None,
      array_iterator = Some 3, primitive_iterator = 0\<rparr> [JNull] = Some (Inr (h', it)) \<and>
    cells h' 0 = Some (JArray [JBoolean True, JNull, JString ''x'', JNull])"
proof -
  let ?it = "\<lambda>a i. \<lparr>m_object = Some a, object_iterator = None, array_iterator = Some i, primitive_iterator = 0\<rparr>"
  have c: "cells (heap_of [three_items, three_items]) 0 = Some (JArray [JBoolean True, JNull, JString ''x''])"
    "cells (heap_of [three_items, three_items]) 1 = Some (JArray [JBoolean True, JNull, JString ''x''])"
    by (simp_all add: three_items_def)
  have "stands (heap_of [three_items, three_items]) 0 3 (?it 0 3)"
    "stands (heap_of [three_items, three_items]) 1 1 (?it 1 1)"
    "stands (heap_of [three_items, three_items]) 1 2 (?it 1 2)"
    by (simp_all add: stands_def three_items_def)
  from insert_puts_before [OF c(1) this(1) c(2) _ this(2,3), of "[JNull]" JNull 0] show ?thesis by auto
qed

section \<open>Finding and copying\<close>

lemma position_of_map: "map_of kvs k = (if position_of k kvs < length kvs then Some (snd (kvs ! position_of k kvs)) else None)"
  by (induction kvs) auto

lemma position_of_le: "position_of k kvs \<le> length kvs"
  by (induction kvs) auto

text \<open>
  \<open>find\<close> agrees with \<open>at\<close>: for a key of the object its iterator reads the value that \<open>at\<close>
  returns, and where \<open>at\<close> throws, for a missing key or a value that is no object, it is the end.
\<close>

theorem find_agrees_with_at:
  assumes "cells h a = Some j"
  shows "\<exists>it e. json_find h a k = Some it \<and> json_end h a = Some e \<and>
    (case at_key j k of
       Inr v \<Rightarrow> deref h it = Some (Inr v) \<and> iter_key h it = Some (Inr k)
     | Inl _ \<Rightarrow> iter_eq h it e = Some (Inr True))"
proof -
  from stands_end [OF assms] obtain e where e: "json_end h a = Some e" "stands h a (json_size j) e" by blast
  show ?thesis
  proof (cases "\<exists>kvs. j = JObject kvs")
    case True
    then obtain kvs where kvs: "j = JObject kvs" ..
    let ?i = "position_of k kvs" and ?it = "e\<lparr>object_iterator := Some (position_of k kvs)\<rparr>"
    have it: "stands h a ?i ?it" using e(2) assms kvs position_of_le by (simp add: stands_def)
    have f: "json_find h a k = Some ?it" using assms e(1) kvs by (simp add: json_find_def)
    have key: "fst (kvs ! ?i) = k" if "?i < length kvs"
      using that by (induction kvs) auto
    show ?thesis
    proof (cases "?i < length kvs")
      case True
      then have "at_key j k = Inr (snd (kvs ! ?i))" using kvs by (simp add: at_key_def position_of_map)
      moreover have "iter_key h ?it = Some (Inr k)"
        using key [OF True] True assms kvs e(2) by (simp add: iter_key_def element_def stands_def)
      ultimately show ?thesis using f e(1) stands_deref [OF assms it] True kvs by simp
    next
      case False
      then have "?i = json_size j" using position_of_le [of k kvs] kvs by simp
      then have "iter_eq h ?it e = Some (Inr True)" using stands_eq [OF assms it e(2)] by simp
      moreover have "\<exists>x. at_key j k = Inl x" using False kvs by (simp add: at_key_def position_of_map)
      ultimately show ?thesis using f e(1) by auto
    qed
  next
    case False
    then have "\<exists>x. at_key j k = Inl x" "json_find h a k = Some e"
      using assms e(1) by (cases j; simp add: at_key_def json_find_def)+
    then show ?thesis using e(1) stands_eq [OF assms e(2) e(2)] by auto
  qed
qed

definition one_member :: "int json" where
  "one_member = JObject [(''k'', JBoolean True)]"

lemma find_agrees_with_at_witness:
  "\<exists>it. json_find (heap_of [one_member]) 0 ''k'' = Some it \<and>
    deref (heap_of [one_member]) it = Some (Inr (JBoolean True))"
proof -
  have "at_key one_member ''k'' = Inr (JBoolean True)" by (simp add: at_key_def one_member_def)
  with find_agrees_with_at [of "heap_of [one_member]" 0 one_member "''k''"] show ?thesis by auto
qed

lemma json_copy_id [simp]: "json_copy j = j"
  by (induction j) (auto intro: map_idI)

text \<open>
  copying a value through its iterators, \<open>basic_json(j.begin(), j.end())\<close>, gives the value
  back, as the copy constructor does; null, whose range is empty, throws instead.
\<close>

theorem range_of_all_copies:
  assumes "cells h a = Some j"
  shows "\<exists>b e. json_begin h a = Some b \<and> json_end h a = Some e \<and>
    json_from_range h b e =
      (if is_null j \<or> is_discarded j
       then Some (Inl (Domain_Error (''cannot use construct with iterators from '' @ type_name j)))
       else Some (Inr (json_copy j)))"
  using assms
  by (cases j) (simp_all add: iter_defs json_from_range_def range_of_def is_null_def is_discarded_def)

lemma range_of_all_copies_witness:
  "\<exists>b e. json_begin (heap_of [three_items]) 0 = Some b \<and> json_end (heap_of [three_items]) 0 = Some e \<and>
    json_from_range (heap_of [three_items]) b e = Some (Inr three_items)"
  using range_of_all_copies [of "heap_of [three_items]" 0 three_items]
  by (simp add: three_items_def is_null_def is_discarded_def del: json_copy.simps)

section \<open>The difference of reverse iterators\<close>

text \<open>
  The difference of reverse iterators has the wrong sign: for \<open>r2 = r1 + n\<close> over an array,
  \<open>r2 - r1\<close> is \<open>-n\<close>, while for iterators it is \<open>n\<close>.
\<close>

lemma reverse_difference_negated:
  assumes "cells h a = Some (JArray xs)" and "stands h a i r1" and "rev_add h r1 n = Some (Inr r2)"
  shows "rev_diff h r2 r1 = Some (Inr (- n)) \<and>
    (\<forall>it. iter_add h r1 n = Some (Inr it) \<longrightarrow> iter_diff h it r1 = Some (Inr n))"
  using assms
  by (auto simp: rev_add_def rev_diff_def iter_sub_def iter_add_def iter_diff_def stands_def shift_def
      split: if_splits)

lemma reverse_difference_three:
  "\<exists>b e. json_rbegin (heap_of [three_items]) 0 = Some b \<and> rev_add (heap_of [three_items]) b 3 = Some (Inr e) \<and>
    json_rend (heap_of [three_items]) 0 = Some e \<and> rev_diff (heap_of [three_items]) e b = Some (Inr (- 3))"
proof -
  let ?b = "\<lparr>m_object = Some 0, object_iterator = None, array_iterator = Some 3, primitive_iterator = 0\<rparr>"
  let ?e = "\<lparr>m_object = Some 0, object_iterator = None, array_iterator = Some 0, primitive_iterator = 0\<rparr>"
  have "json_rbegin (heap_of [three_items]) 0 = Some ?b" "json_rend (heap_of [three_items]) 0 = Some ?e"
    "rev_add (heap_of [three_items]) ?b 3 = Some (Inr ?e)"
    by (simp_all add: three_items_def json_rbegin_def json_rend_def rev_add_def iter_sub_def iter_add_def iter_defs)
  with reverse_difference_negated [of "heap_of [three_items]" 0 "[JBoolean True, JNull, JString ''x'']" 3 ?b 3 ?e]
  show ?thesis by (auto simp: three_items_def stands_def)
qed

end
