(* ===== verification/Json_Memory.thy ===== *)
theory Json_Memory
  imports Json_Laws
begin

text \<open>
  The storage behind class \<open>basic_json\<close> of \<open>src/json/json.hpp\<close>: a value is its tag and a union of
  a number or a pointer it owns; constructors, assignment, destructor and the modifiers that
  create, move and destroy elements, on an explicit memory.

  A read or destruction of memory that is not allocated is undefined (\<open>None\<close>), as is a second
  deallocation.  A program is a list of operations on named variables; the same operations on
  abstract values are beside them.
\<close>

section \<open>Values and blocks\<close>

text \<open>\<open>m_type\<close> with the member of the union \<open>json_value\<close> that it selects.\<close>

datatype 'f node =
    NNull | NObject ptr | NArray ptr | NString ptr | NBoolean bool | NInteger u64 | NUnsigned u64
  | NFloat 'f | NDiscarded

text \<open>What the pointers point to; \<open>Raw\<close> is allocated and not yet constructed.\<close>

datatype 'f block =
    Raw | Object_Block "(char list \<times> 'f node) list" | Array_Block "'f node list" | String_Block "char list"

type_synonym 'f memory = "'f block heap"

fun node_type :: "'f node \<Rightarrow> value_t" where
  "node_type NNull = t_null"
| "node_type (NObject _) = t_object"
| "node_type (NArray _) = t_array"
| "node_type (NString _) = t_string"
| "node_type (NBoolean _) = t_boolean"
| "node_type (NInteger _) = t_number_integer"
| "node_type (NUnsigned _) = t_number_unsigned"
| "node_type (NFloat _) = t_number_float"
| "node_type NDiscarded = t_discarded"

text \<open>\<open>type_name()\<close> reads the tag only.\<close>

fun node_type_name :: "'f node \<Rightarrow> char list" where
  "node_type_name NNull = ''null''"
| "node_type_name (NObject _) = ''object''"
| "node_type_name (NArray _) = ''array''"
| "node_type_name (NString _) = ''string''"
| "node_type_name (NBoolean _) = ''boolean''"
| "node_type_name NDiscarded = ''discarded''"
| "node_type_name _ = ''number''"

definition node_cannot_use :: "char list \<Rightarrow> 'f node \<Rightarrow> json_exn" where
  "node_cannot_use what n = Domain_Error (''cannot use '' @ what @ '' with '' @ node_type_name n)"

section \<open>Construction\<close>

text \<open>\<open>create\<close>: memory is allocated, then the block is constructed in it.\<close>

definition create :: "('f memory \<Rightarrow> ('f block \<times> 'f memory) option) \<Rightarrow> 'f memory \<Rightarrow> (ptr \<times> 'f memory) option" where
  "create construct h = (let (p, h) = alloc h Raw in
     do { (b, h) \<leftarrow> construct h; h \<leftarrow> store h p b; Some (p, h) })"

text \<open>The constructor for the empty value of a type.\<close>

definition node_of_type :: "'f float_ops \<Rightarrow> value_t \<Rightarrow> 'f memory \<Rightarrow> ('f node \<times> 'f memory) option" where
  "node_of_type F t h = (case t of
     t_object \<Rightarrow> do { (p, h) \<leftarrow> create (\<lambda>h. Some (Object_Block [], h)) h; Some (NObject p, h) }
   | t_array \<Rightarrow> do { (p, h) \<leftarrow> create (\<lambda>h. Some (Array_Block [], h)) h; Some (NArray p, h) }
   | t_string \<Rightarrow> do { (p, h) \<leftarrow> create (\<lambda>h. Some (String_Block [], h)) h; Some (NString p, h) }
   | t_boolean \<Rightarrow> Some (NBoolean False, h)
   | t_number_integer \<Rightarrow> Some (NInteger 0, h)
   | t_number_unsigned \<Rightarrow> Some (NUnsigned 0, h)
   | t_number_float \<Rightarrow> Some (NFloat (f_zero F), h)
   | t_null \<Rightarrow> Some (NNull, h)
   | t_discarded \<Rightarrow> Some (NDiscarded, h))"

text \<open>The constructor for strings.\<close>

definition node_of_string :: "char list \<Rightarrow> 'f memory \<Rightarrow> ('f node \<times> 'f memory) option" where
  "node_of_string s h = do { (p, h) \<leftarrow> create (\<lambda>h. Some (String_Block s, h)) h; Some (NString p, h) }"

text \<open>
  The copy constructor copies the elements of a container with itself.  The fuel is the depth of
  nested values.
\<close>

fun copy_elements ::
    "('f node \<Rightarrow> 'f memory \<Rightarrow> ('f node \<times> 'f memory) option) \<Rightarrow> 'f node list \<Rightarrow> 'f memory \<Rightarrow>
     ('f node list \<times> 'f memory) option" where
  "copy_elements copy [] h = Some ([], h)"
| "copy_elements copy (n # ns) h = do { (n, h) \<leftarrow> copy n h; (ns, h) \<leftarrow> copy_elements copy ns h; Some (n # ns, h) }"

fun copy_node :: "nat \<Rightarrow> 'f node \<Rightarrow> 'f memory \<Rightarrow> ('f node \<times> 'f memory) option" where
  "copy_node 0 n h = None"
| "copy_node (Suc fuel) n h = (case n of
     NObject p \<Rightarrow> do {
       b \<leftarrow> load h p;
       case b of
         Object_Block es \<Rightarrow> do {
           (q, h) \<leftarrow> create (\<lambda>h. do { (ns, h) \<leftarrow> copy_elements (copy_node fuel) (map snd es) h;
                                 Some (Object_Block (zip (map fst es) ns), h) }) h;
           Some (NObject q, h) }
       | _ \<Rightarrow> None }
   | NArray p \<Rightarrow> do {
       b \<leftarrow> load h p;
       case b of
         Array_Block es \<Rightarrow> do {
           (q, h) \<leftarrow> create (\<lambda>h. do { (ns, h) \<leftarrow> copy_elements (copy_node fuel) es h;
                                 Some (Array_Block ns, h) }) h;
           Some (NArray q, h) }
       | _ \<Rightarrow> None }
   | NString p \<Rightarrow> do {
       b \<leftarrow> load h p;
       case b of String_Block s \<Rightarrow> node_of_string s h | _ \<Rightarrow> None }
   | _ \<Rightarrow> Some (n, h))"

text \<open>The nested values are at different addresses, so the addresses given out are enough fuel.\<close>

definition copy_constructor :: "'f node \<Rightarrow> 'f memory \<Rightarrow> ('f node \<times> 'f memory) option" where
  "copy_constructor other h = copy_node (Suc (brk h)) other h"

text \<open>The move constructor: the new value and what is left in \<open>other\<close>.\<close>

definition move_constructor :: "'f node \<Rightarrow> 'f node \<times> 'f node" where
  "move_constructor other = (other, NNull)"

section \<open>Destruction and assignment\<close>

fun destroy_elements :: "('f node \<Rightarrow> 'f memory \<Rightarrow> 'f memory option) \<Rightarrow> 'f node list \<Rightarrow> 'f memory \<Rightarrow> 'f memory option" where
  "destroy_elements destroy [] h = Some h"
| "destroy_elements destroy (n # ns) h = do { h \<leftarrow> destroy n h; destroy_elements destroy ns h }"

fun destroy_node :: "nat \<Rightarrow> 'f node \<Rightarrow> 'f memory \<Rightarrow> 'f memory option" where
  "destroy_node 0 n h = None"
| "destroy_node (Suc fuel) n h = (case n of
     NObject p \<Rightarrow> do {
       b \<leftarrow> load h p;
       case b of
         Object_Block es \<Rightarrow> do { h \<leftarrow> destroy_elements (destroy_node fuel) (map snd es) h; release h p }
       | _ \<Rightarrow> None }
   | NArray p \<Rightarrow> do {
       b \<leftarrow> load h p;
       case b of
         Array_Block es \<Rightarrow> do { h \<leftarrow> destroy_elements (destroy_node fuel) es h; release h p }
       | _ \<Rightarrow> None }
   | NString p \<Rightarrow> do { b \<leftarrow> load h p; case b of String_Block s \<Rightarrow> release h p | _ \<Rightarrow> None }
   | _ \<Rightarrow> Some h)"

definition destructor :: "'f node \<Rightarrow> 'f memory \<Rightarrow> 'f memory option" where
  "destructor this h = destroy_node (Suc (brk h)) this h"

text \<open>
  \<open>operator=\<close> takes its argument by value and swaps: the old value of \<open>this\<close> goes with the
  argument at the end.
\<close>

definition assign_node :: "'f node \<Rightarrow> 'f node \<Rightarrow> 'f memory \<Rightarrow> ('f node \<times> 'f memory) option" where
  "assign_node this other h = do { h \<leftarrow> destructor this h; Some (other, h) }"

section \<open>Modifiers\<close>

definition clear_node :: "'f float_ops \<Rightarrow> 'f node \<Rightarrow> 'f memory \<Rightarrow> ('f node \<times> 'f memory) option" where
  "clear_node F n h = (case n of
     NInteger _ \<Rightarrow> Some (NInteger 0, h)
   | NUnsigned _ \<Rightarrow> Some (NUnsigned 0, h)
   | NFloat _ \<Rightarrow> Some (NFloat (f_zero F), h)
   | NBoolean _ \<Rightarrow> Some (NBoolean False, h)
   | NString p \<Rightarrow> do {
       b \<leftarrow> load h p;
       case b of String_Block _ \<Rightarrow> do { h \<leftarrow> store h p (String_Block []); Some (n, h) } | _ \<Rightarrow> None }
   | NArray p \<Rightarrow> do {
       b \<leftarrow> load h p;
       case b of
         Array_Block es \<Rightarrow> do {
           h \<leftarrow> destroy_elements destructor es h;
           h \<leftarrow> store h p (Array_Block []);
           Some (n, h) }
       | _ \<Rightarrow> None }
   | NObject p \<Rightarrow> do {
       b \<leftarrow> load h p;
       case b of
         Object_Block es \<Rightarrow> do {
           h \<leftarrow> destroy_elements destructor (map snd es) h;
           h \<leftarrow> store h p (Object_Block []);
           Some (n, h) }
       | _ \<Rightarrow> None }
   | _ \<Rightarrow> Some (n, h))"

text \<open>A null value becomes an empty container where the operation needs one.\<close>

definition null_to :: "'f float_ops \<Rightarrow> value_t \<Rightarrow> 'f node \<Rightarrow> 'f memory \<Rightarrow> ('f node \<times> 'f memory) option" where
  "null_to F t n h = (if n = NNull then node_of_type F t h else Some (n, h))"

text \<open>\<open>push_back\<close>: first what it does to \<open>*this\<close>, then the new element, copied or moved.\<close>

definition push_back_begin ::
    "'f float_ops \<Rightarrow> 'f node \<Rightarrow> 'f memory \<Rightarrow> ('f node \<times> 'f memory) parse_result" where
  "push_back_begin F n h =
     (if \<not> (node_type n = t_null \<or> node_type n = t_array) then Some (Inl (node_cannot_use ''push_back()'' n))
      else map_option Inr (null_to F t_array n h))"

definition push_element :: "'f node \<Rightarrow> 'f node \<Rightarrow> 'f memory \<Rightarrow> 'f memory option" where
  "push_element n v h = (case n of
     NArray p \<Rightarrow> do {
       b \<leftarrow> load h p;
       case b of Array_Block es \<Rightarrow> store h p (Array_Block (es @ [v])) | _ \<Rightarrow> None }
   | _ \<Rightarrow> None)"

text \<open>\<open>operator[]\<close> for an index fills an array up with null values.\<close>

definition subscript_index_node ::
    "'f float_ops \<Rightarrow> 'f node \<Rightarrow> nat \<Rightarrow> 'f memory \<Rightarrow> ('f node \<times> 'f memory) parse_result" where
  "subscript_index_node F n idx h = do {
     (n, h) \<leftarrow> null_to F t_array n h;
     case n of
       NArray p \<Rightarrow> do {
         b \<leftarrow> load h p;
         case b of
           Array_Block es \<Rightarrow> do {
             h \<leftarrow> store h p (Array_Block (es @ replicate (Suc idx - length es) NNull));
             Some (Inr (n, h)) }
         | _ \<Rightarrow> None }
     | _ \<Rightarrow> Some (Inl (node_cannot_use ''operator[]'' n)) }"

text \<open>\<open>operator[]\<close> for a key.\<close>

definition subscript_key_node ::
    "'f float_ops \<Rightarrow> 'f node \<Rightarrow> char list \<Rightarrow> 'f memory \<Rightarrow> ('f node \<times> 'f memory) parse_result" where
  "subscript_key_node F n k h = do {
     (n, h) \<leftarrow> null_to F t_object n h;
     case n of
       NObject p \<Rightarrow> do {
         b \<leftarrow> load h p;
         case b of
           Object_Block es \<Rightarrow> do {
             h \<leftarrow> store h p (Object_Block (map_insert k NNull es));
             Some (Inr (n, h)) }
         | _ \<Rightarrow> None }
     | _ \<Rightarrow> Some (Inl (node_cannot_use ''operator[]'' n)) }"

text \<open>\<open>operator=\<close> on the element a subscript refers to.\<close>

definition assign_element :: "'f node \<Rightarrow> nat \<Rightarrow> 'f node \<Rightarrow> 'f memory \<Rightarrow> 'f memory option" where
  "assign_element n idx v h = (case n of
     NArray p \<Rightarrow> do {
       b \<leftarrow> load h p;
       case b of
         Array_Block es \<Rightarrow>
           (if idx < length es then do {
              (e, h) \<leftarrow> assign_node (es ! idx) v h;
              store h p (Array_Block (es[idx := e])) }
            else None)
       | _ \<Rightarrow> None }
   | _ \<Rightarrow> None)"

definition assign_member :: "'f node \<Rightarrow> char list \<Rightarrow> 'f node \<Rightarrow> 'f memory \<Rightarrow> 'f memory option" where
  "assign_member n k v h = (case n of
     NObject p \<Rightarrow> do {
       b \<leftarrow> load h p;
       case b of
         Object_Block es \<Rightarrow> do {
           old \<leftarrow> map_of es k;
           (e, h) \<leftarrow> assign_node old v h;
           store h p (Object_Block (map_assign k e es)) }
       | _ \<Rightarrow> None }
   | _ \<Rightarrow> None)"

text \<open>\<open>erase\<close> for a key: the map destroys the member it takes out.\<close>

definition erase_key_node :: "'f node \<Rightarrow> char list \<Rightarrow> 'f memory \<Rightarrow> 'f memory parse_result" where
  "erase_key_node n k h = (case n of
     NObject p \<Rightarrow> do {
       b \<leftarrow> load h p;
       case b of
         Object_Block es \<Rightarrow> do {
           h \<leftarrow> (case map_of es k of None \<Rightarrow> Some h | Some v \<Rightarrow> destructor v h);
           h \<leftarrow> store h p (Object_Block (map_erase k es));
           Some (Inr h) }
       | _ \<Rightarrow> None }
   | _ \<Rightarrow> Some (Inl (node_cannot_use ''erase()'' n)))"

text \<open>
  \<open>erase\<close> for an index: a vector moves the elements behind it one place forward, by assignments
  that swap, and destroys the last place.
\<close>

fun shift_down :: "'f node list \<Rightarrow> 'f node \<Rightarrow> 'f memory \<Rightarrow> ('f node list \<times> 'f memory) option" where
  "shift_down [] old h = do { h \<leftarrow> destructor old h; Some ([], h) }"
| "shift_down (n # ns) old h = (let (moved, rest) = move_constructor n in do {
     (new, h) \<leftarrow> assign_node old moved h;
     (ns, h) \<leftarrow> shift_down ns rest h;
     Some (new # ns, h) })"

definition erase_index_node :: "'f node \<Rightarrow> nat \<Rightarrow> 'f memory \<Rightarrow> 'f memory parse_result" where
  "erase_index_node n idx h = (case n of
     NArray p \<Rightarrow> do {
       b \<leftarrow> load h p;
       case b of
         Array_Block es \<Rightarrow>
           (if idx \<ge> length es then Some (Inl (Out_Of_Range_Error ''index out of range''))
            else do {
              (ns, h) \<leftarrow> shift_down (drop (Suc idx) es) (es ! idx) h;
              h \<leftarrow> store h p (Array_Block (take idx es @ ns));
              Some (Inr h) })
       | _ \<Rightarrow> None }
   | _ \<Rightarrow> Some (Inl (node_cannot_use ''erase()'' n)))"

section \<open>Programs\<close>

text \<open>
  Statements of code that uses values, on variables numbered by the order of their declarations.
  A scope ends by destroying the last variable.  \<open>Set_Key x k y\<close> is
  \<open>auto& e = x[k]; e = y;\<close>, and a statement with \<open>Move\<close> has \<open>std::move(y)\<close> for \<open>y\<close>.
\<close>

datatype stmt =
    Declare value_t | Declare_String "char list" | Declare_Copy nat | Declare_Move nat
  | Assign nat nat | Assign_Move nat nat | Swap nat nat
  | Push_Back nat nat | Push_Back_Move nat nat
  | Set_Index nat nat nat | Set_Index_Move nat nat nat
  | Set_Key nat "char list" nat | Set_Key_Move nat "char list" nat
  | Clear nat | Erase_Key nat "char list" | Erase_Index nat nat
  | Scope_End

type_synonym 'f store = "'f node list \<times> 'f memory"

definition variable :: "'f node list \<Rightarrow> nat \<Rightarrow> 'f node option" where
  "variable V x = (if x < length V then Some (V ! x) else None)"

text \<open>The argument of an assignment or a new element: a copy of a variable, or its content.\<close>

definition copied :: "nat \<Rightarrow> 'f store \<Rightarrow> ('f node \<times> 'f store) option" where
  "copied y s = (case s of (V, h) \<Rightarrow> do {
     n \<leftarrow> variable V y;
     (v, h) \<leftarrow> copy_constructor n h;
     Some (v, V, h) })"

definition moved :: "nat \<Rightarrow> 'f store \<Rightarrow> ('f node \<times> 'f store) option" where
  "moved y s = (case s of (V, h) \<Rightarrow> do {
     n \<leftarrow> variable V y;
     let (v, rest) = move_constructor n;
     Some (v, V[y := rest], h) })"

definition declare_var :: "('f node \<times> 'f store) option \<Rightarrow> 'f store parse_result" where
  "declare_var r = do { (v, V, h) \<leftarrow> r; Some (Inr (V @ [v], h)) }"

definition assign_var :: "nat \<Rightarrow> ('f node \<times> 'f store) option \<Rightarrow> 'f store parse_result" where
  "assign_var x r = do {
     (v, V, h) \<leftarrow> r;
     n \<leftarrow> variable V x;
     (n, h) \<leftarrow> assign_node n v h;
     Some (Inr (V[x := n], h)) }"

text \<open>\<open>swap\<close> exchanges the tags and the unions.\<close>

definition swap_vars :: "nat \<Rightarrow> nat \<Rightarrow> 'f store \<Rightarrow> 'f store parse_result" where
  "swap_vars x y s = (case s of (V, h) \<Rightarrow> do {
     m \<leftarrow> variable V x;
     n \<leftarrow> variable V y;
     Some (Inr (V[x := n, y := m], h)) })"

definition push_var ::
    "'f float_ops \<Rightarrow> nat \<Rightarrow> ('f store \<Rightarrow> ('f node \<times> 'f store) option) \<Rightarrow> 'f store \<Rightarrow> 'f store parse_result" where
  "push_var F x arg s = (case s of (V, h) \<Rightarrow> do {
     n \<leftarrow> variable V x;
     and_then (push_back_begin F n h) (\<lambda>(n, h). do {
       (v, V, h) \<leftarrow> arg (V[x := n], h);
       h \<leftarrow> push_element n v h;
       Some (Inr (V, h)) }) })"

definition set_index_var ::
    "'f float_ops \<Rightarrow> nat \<Rightarrow> nat \<Rightarrow> ('f store \<Rightarrow> ('f node \<times> 'f store) option) \<Rightarrow> 'f store \<Rightarrow>
     'f store parse_result" where
  "set_index_var F x idx arg s = (case s of (V, h) \<Rightarrow> do {
     n \<leftarrow> variable V x;
     and_then (subscript_index_node F n idx h) (\<lambda>(n, h). do {
       (v, V, h) \<leftarrow> arg (V[x := n], h);
       h \<leftarrow> assign_element n idx v h;
       Some (Inr (V, h)) }) })"

definition set_key_var ::
    "'f float_ops \<Rightarrow> nat \<Rightarrow> char list \<Rightarrow> ('f store \<Rightarrow> ('f node \<times> 'f store) option) \<Rightarrow> 'f store \<Rightarrow>
     'f store parse_result" where
  "set_key_var F x k arg s = (case s of (V, h) \<Rightarrow> do {
     n \<leftarrow> variable V x;
     and_then (subscript_key_node F n k h) (\<lambda>(n, h). do {
       (v, V, h) \<leftarrow> arg (V[x := n], h);
       h \<leftarrow> assign_member n k v h;
       Some (Inr (V, h)) }) })"

definition scope_end :: "'f store \<Rightarrow> 'f store parse_result" where
  "scope_end s = (case s of (V, h) \<Rightarrow>
     (if V = [] then None else do { h \<leftarrow> destructor (last V) h; Some (Inr (butlast V, h)) }))"

fun exec :: "'f float_ops \<Rightarrow> stmt \<Rightarrow> 'f store \<Rightarrow> 'f store parse_result" where
  "exec F (Declare t) (V, h) = declare_var (do { (n, h) \<leftarrow> node_of_type F t h; Some (n, V, h) })"
| "exec F (Declare_String s) (V, h) = declare_var (do { (n, h) \<leftarrow> node_of_string s h; Some (n, V, h) })"
| "exec F (Declare_Copy y) s = declare_var (copied y s)"
| "exec F (Declare_Move y) s = declare_var (moved y s)"
| "exec F (Assign x y) s = assign_var x (copied y s)"
| "exec F (Assign_Move x y) s = assign_var x (moved y s)"
| "exec F (Swap x y) s = swap_vars x y s"
| "exec F (Push_Back x y) s = push_var F x (copied y) s"
| "exec F (Push_Back_Move x y) s = push_var F x (moved y) s"
| "exec F (Set_Index x idx y) s = set_index_var F x idx (copied y) s"
| "exec F (Set_Index_Move x idx y) s = set_index_var F x idx (moved y) s"
| "exec F (Set_Key x k y) s = set_key_var F x k (copied y) s"
| "exec F (Set_Key_Move x k y) s = set_key_var F x k (moved y) s"
| "exec F (Clear x) (V, h) = do {
     n \<leftarrow> variable V x; (n, h) \<leftarrow> clear_node F n h; Some (Inr (V[x := n], h)) }"
| "exec F (Erase_Key x k) (V, h) = do {
     n \<leftarrow> variable V x; and_then (erase_key_node n k h) (\<lambda>h. Some (Inr (V, h))) }"
| "exec F (Erase_Index x idx) (V, h) = do {
     n \<leftarrow> variable V x; and_then (erase_index_node n idx h) (\<lambda>h. Some (Inr (V, h))) }"
| "exec F Scope_End s = scope_end s"

text \<open>
  A statement that throws leaves the state as it was (it throws before it changes anything); the
  program catches the exception and goes on.
\<close>

fun run :: "'f float_ops \<Rightarrow> stmt list \<Rightarrow> 'f store \<Rightarrow> (json_exn list \<times> 'f store) option" where
  "run F [] s = Some ([], s)"
| "run F (c # cs) s = do {
     r \<leftarrow> exec F c s;
     case r of
       Inl e \<Rightarrow> do { (es, s) \<leftarrow> run F cs s; Some (e # es, s) }
     | Inr s \<Rightarrow> run F cs s }"

section \<open>The same programs on values\<close>

text \<open>\<open>push_back\<close> reads its argument after it has made an array of a null value.\<close>

definition set_element :: "'f json \<Rightarrow> nat \<Rightarrow> 'f json \<Rightarrow> json_exn + 'f json" where
  "set_element j idx v = (case subscript_index j idx of
     Inl e \<Rightarrow> Inl e
   | Inr (JArray xs, _) \<Rightarrow> Inr (JArray (xs[idx := v]))
   | Inr (_, _) \<Rightarrow> Inl (cannot_use ''operator[]'' j))"

definition update_var :: "nat \<Rightarrow> json_exn + 'f json \<Rightarrow> 'f json list \<Rightarrow> json_exn + 'f json list" where
  "update_var x r E = (case r of Inl e \<Rightarrow> Inl e | Inr j \<Rightarrow> Inr (E[x := j]))"

fun value_exec :: "'f float_ops \<Rightarrow> stmt \<Rightarrow> 'f json list \<Rightarrow> json_exn + 'f json list" where
  "value_exec F (Declare t) E = Inr (E @ [json_value F t])"
| "value_exec F (Declare_String s) E = Inr (E @ [JString s])"
| "value_exec F (Declare_Copy y) E = Inr (E @ [E ! y])"
| "value_exec F (Declare_Move y) E = Inr (E[y := JNull] @ [E ! y])"
| "value_exec F (Assign x y) E = Inr (E[x := E ! y])"
| "value_exec F (Assign_Move x y) E = Inr (E[y := JNull, x := E ! y])"
| "value_exec F (Swap x y) E = Inr (E[x := E ! y, y := E ! x])"
| "value_exec F (Push_Back x y) E =
     (let E = (if is_null (E ! x) then E[x := JArray []] else E) in
      update_var x (push_back (E ! x) (E ! y)) E)"
| "value_exec F (Push_Back_Move x y) E = (case push_back_move (E ! x) (E ! y) of
     Inl e \<Rightarrow> Inl e | Inr (j, v) \<Rightarrow> Inr (E[y := v, x := j]))"
| "value_exec F (Set_Index x idx y) E = (case subscript_index (E ! x) idx of
     Inl e \<Rightarrow> Inl e
   | Inr (j, _) \<Rightarrow> let E = E[x := j] in update_var x (set_element j idx (E ! y)) E)"
| "value_exec F (Set_Index_Move x idx y) E = update_var x (set_element (E ! x) idx (E ! y)) (E[y := JNull])"
| "value_exec F (Set_Key x k y) E = (case subscript_key (E ! x) k of
     Inl e \<Rightarrow> Inl e
   | Inr (j, _) \<Rightarrow> let E = E[x := j] in update_var x (set_key j k (E ! y)) E)"
| "value_exec F (Set_Key_Move x k y) E = update_var x (set_key (E ! x) k (E ! y)) (E[y := JNull])"
| "value_exec F (Clear x) E = Inr (E[x := clear F (E ! x)])"
| "value_exec F (Erase_Key x k) E = (case erase_key (E ! x) k of
     Inl e \<Rightarrow> Inl e | Inr (_, j) \<Rightarrow> Inr (E[x := j]))"
| "value_exec F (Erase_Index x idx) E = update_var x (erase_index (E ! x) idx) E"
| "value_exec F Scope_End E = Inr (butlast E)"

fun value_run :: "'f float_ops \<Rightarrow> stmt list \<Rightarrow> 'f json list \<Rightarrow> json_exn list \<times> 'f json list" where
  "value_run F [] E = ([], E)"
| "value_run F (c # cs) E = (case value_exec F c E of
     Inl e \<Rightarrow> (let (es, E) = value_run F cs E in (e # es, E))
   | Inr E \<Rightarrow> value_run F cs E)"

text \<open>
  The variables a statement leaves when there are \<open>n\<close> before it.  It names declared variables
  only, and a value is not moved into itself.
\<close>

fun scoped :: "stmt \<Rightarrow> nat \<Rightarrow> nat option" where
  "scoped (Declare t) n = Some (Suc n)"
| "scoped (Declare_String s) n = Some (Suc n)"
| "scoped (Declare_Copy y) n = (if y < n then Some (Suc n) else None)"
| "scoped (Declare_Move y) n = (if y < n then Some (Suc n) else None)"
| "scoped (Assign x y) n = (if x < n \<and> y < n then Some n else None)"
| "scoped (Assign_Move x y) n = (if x < n \<and> y < n then Some n else None)"
| "scoped (Swap x y) n = (if x < n \<and> y < n then Some n else None)"
| "scoped (Push_Back x y) n = (if x < n \<and> y < n then Some n else None)"
| "scoped (Push_Back_Move x y) n = (if x < n \<and> y < n \<and> x \<noteq> y then Some n else None)"
| "scoped (Set_Index x i y) n = (if x < n \<and> y < n then Some n else None)"
| "scoped (Set_Index_Move x i y) n = (if x < n \<and> y < n \<and> x \<noteq> y then Some n else None)"
| "scoped (Set_Key x k y) n = (if x < n \<and> y < n then Some n else None)"
| "scoped (Set_Key_Move x k y) n = (if x < n \<and> y < n \<and> x \<noteq> y then Some n else None)"
| "scoped (Clear x) n = (if x < n then Some n else None)"
| "scoped (Erase_Key x k) n = (if x < n then Some n else None)"
| "scoped (Erase_Index x i) n = (if x < n then Some n else None)"
| "scoped Scope_End n = (if 0 < n then Some (n - 1) else None)"

fun scoped_all :: "stmt list \<Rightarrow> nat \<Rightarrow> nat option" where
  "scoped_all [] n = Some n"
| "scoped_all (c # cs) n = do { n \<leftarrow> scoped c n; scoped_all cs n }"

end
