(* ===== verification/Json_Memory_Correct.thy ===== *)
theory Json_Memory_Correct
  imports Json_Memory
begin

text \<open>
  What a node owns: \<open>owns n j m\<close> says that node \<open>n\<close> stands for the value \<open>j\<close> and that its blocks
  are exactly those of the map \<open>m\<close>.  Every operation of class \<open>basic_json\<close> is shown to replace
  one such map by another and to leave the rest of the memory alone.
\<close>

section \<open>Ownership\<close>

inductive owns :: "'f node \<Rightarrow> 'f json \<Rightarrow> (addr \<rightharpoonup> 'f block) \<Rightarrow> bool"
  and owns_all :: "'f node list \<Rightarrow> 'f json list \<Rightarrow> (addr \<rightharpoonup> 'f block) \<Rightarrow> bool"
where
  own_null: "owns NNull JNull Map.empty"
| own_boolean: "owns (NBoolean b) (JBoolean b) Map.empty"
| own_integer: "owns (NInteger i) (JInteger i) Map.empty"
| own_unsigned: "owns (NUnsigned i) (JUnsigned i) Map.empty"
| own_float: "owns (NFloat x) (JFloat x) Map.empty"
| own_discarded: "owns NDiscarded JDiscarded Map.empty"
| own_string: "owns (NString (Some a)) (JString s) [a \<mapsto> String_Block s]"
| own_array: "owns_all ns js m \<Longrightarrow> a \<notin> dom m \<Longrightarrow> owns (NArray (Some a)) (JArray js) (m(a \<mapsto> Array_Block ns))"
| own_object: "owns_all (map snd es) (map snd kvs) m \<Longrightarrow> a \<notin> dom m \<Longrightarrow> map fst es = map fst kvs \<Longrightarrow> map_ok kvs \<Longrightarrow>
    owns (NObject (Some a)) (JObject kvs) (m(a \<mapsto> Object_Block es))"
| own_none: "owns_all [] [] Map.empty"
| own_more: "owns n j m1 \<Longrightarrow> owns_all ns js m2 \<Longrightarrow> dom m1 \<inter> dom m2 = {} \<Longrightarrow>
    owns_all (n # ns) (j # js) (m1 ++ m2)"

inductive_simps owns_null_simp [simp]: "owns NNull j m"
inductive_simps owns_scalar_simps:
  "owns (NBoolean b) j m" "owns (NInteger i) j m" "owns (NUnsigned i) j m" "owns (NFloat x) j m" "owns NDiscarded j m"
inductive_simps owns_null_value: "owns n JNull m"
inductive_simps owns_all_Nil [simp]: "owns_all [] js m"
inductive_cases owns_nodeE: "owns n j m"
inductive_cases owns_all_ConsE: "owns_all (n # ns) js m"

lemma owns_arrayE:
  assumes "owns n (JArray js) m"
  obtains ns m0 a where "n = NArray (Some a)" "m = m0(a \<mapsto> Array_Block ns)" "owns_all ns js m0" "a \<notin> dom m0"
  using assms by (cases rule: owns.cases) auto

lemma owns_objectE:
  assumes "owns n (JObject kvs) m"
  obtains es m0 a where "n = NObject (Some a)" "m = m0(a \<mapsto> Object_Block es)"
    "owns_all (map snd es) (map snd kvs) m0" "a \<notin> dom m0" "map fst es = map fst kvs" "map_ok kvs"
  using assms by (cases rule: owns.cases) auto

lemma owns_all_length: "owns_all ns js m \<Longrightarrow> length ns = length js"
  by (induction ns arbitrary: js m) (auto elim!: owns_all_ConsE)

lemma owns_finite:
  "owns n j m \<Longrightarrow> finite (dom m)" "owns_all ns js m \<Longrightarrow> finite (dom m)"
  by (induction rule: owns_owns_all.inducts) (auto simp del: fun_upd_apply)

lemma owns_type: "owns n j m \<Longrightarrow> node_type n = m_type j"
  by (auto elim: owns_nodeE)

lemma owns_type_name: "owns n j m \<Longrightarrow> node_type_name n = type_name j"
  by (auto elim: owns_nodeE)

lemma owns_cannot_use: "owns n j m \<Longrightarrow> node_cannot_use what n = cannot_use what j"
  by (simp add: node_cannot_use_def cannot_use_def owns_type_name)

lemma owns_all_append:
  "owns_all ns js m1 \<Longrightarrow> owns_all ns' js' m2 \<Longrightarrow> dom m1 \<inter> dom m2 = {} \<Longrightarrow>
   owns_all (ns @ ns') (js @ js') (m1 ++ m2)"
proof (induction ns arbitrary: js m1)
  case (Cons n ns)
  from Cons.prems(1) obtain j js0 ma mb where js: "js = j # js0" "m1 = ma ++ mb" "owns n j ma"
    "owns_all ns js0 mb" "dom ma \<inter> dom mb = {}" by (auto elim: owns_all_ConsE)
  with Cons.prems(3) have d: "dom ma \<inter> (dom mb \<union> dom m2) = {}" "dom mb \<inter> dom m2 = {}" by auto
  have "owns_all (ns @ ns') (js0 @ js') (mb ++ m2)" by (rule Cons.IH [OF js(4) Cons.prems(2) d(2)])
  then have "owns_all (n # ns @ ns') (j # js0 @ js') (ma ++ (mb ++ m2))" using d(1) by (intro own_more [OF js(3)]) auto
  then show ?case using js(1,2) by simp
qed simp

lemma owns_all_split:
  "owns_all (ns @ ns') js m \<Longrightarrow>
   \<exists>js1 js2 m1 m2. js = js1 @ js2 \<and> owns_all ns js1 m1 \<and> owns_all ns' js2 m2 \<and> m = m1 ++ m2 \<and> dom m1 \<inter> dom m2 = {}"
proof (induction ns arbitrary: js m)
  case Nil
  then show ?case by (intro exI [of _ "[]"] exI [of _ js] exI [of _ Map.empty] exI [of _ m]) simp
next
  case (Cons n ns)
  from Cons.prems obtain j js0 ma mb where js: "js = j # js0" "m = ma ++ mb" "owns n j ma"
    "owns_all (ns @ ns') js0 mb" "dom ma \<inter> dom mb = {}" by (auto elim: owns_all_ConsE)
  from Cons.IH [OF js(4)] obtain js1 js2 m1 m2 where r: "js0 = js1 @ js2" "owns_all ns js1 m1"
    "owns_all ns' js2 m2" "mb = m1 ++ m2" "dom m1 \<inter> dom m2 = {}" by blast
  from js r have d: "dom ma \<inter> dom m1 = {}" "dom (ma ++ m1) \<inter> dom m2 = {}" by auto
  have "owns_all (n # ns) (j # js1) (ma ++ m1)" by (rule own_more [OF js(3) r(2) d(1)])
  then show ?case using js(1,2) r d
    by (intro exI [of _ "j # js1"] exI [of _ js2] exI [of _ "ma ++ m1"] exI [of _ m2]) simp
qed

lemma owns_all_single: "owns n j m \<Longrightarrow> owns_all [n] [j] m"
  using own_more [OF _ own_none, of n j m] by simp

lemma owns_all_drop_one: "owns_all [n] js m \<Longrightarrow> \<exists>j. js = [j] \<and> owns n j m"
  by (auto elim!: owns_all_ConsE)

text \<open>One element and what the others own.\<close>

lemma owns_all_nth:
  assumes "owns_all ns js m" and "i < length ns"
  obtains mi mr where "owns (ns ! i) (js ! i) mi" "m = mi ++ mr" "dom mi \<inter> dom mr = {}"
    "\<And>n j mn. owns n j mn \<Longrightarrow> dom mn \<inter> dom mr = {} \<Longrightarrow> owns_all (ns[i := n]) (js[i := j]) (mn ++ mr)"
    "owns_all (take i ns @ drop (Suc i) ns) (take i js @ drop (Suc i) js) mr"
proof -
  from assms(1) id_take_nth_drop [OF assms(2)]
  have "owns_all (take i ns @ [ns ! i] @ drop (Suc i) ns) js m" by simp
  from owns_all_split [OF this] obtain js1 js2 m1 m2 where 1: "js = js1 @ js2" "owns_all (take i ns) js1 m1"
    "owns_all ([ns ! i] @ drop (Suc i) ns) js2 m2" "m = m1 ++ m2" "dom m1 \<inter> dom m2 = {}" by blast
  from owns_all_split [OF 1(3)] obtain js3 js4 mi m3 where 2: "js2 = js3 @ js4" "owns_all [ns ! i] js3 mi"
    "owns_all (drop (Suc i) ns) js4 m3" "m2 = mi ++ m3" "dom mi \<inter> dom m3 = {}" by blast
  from owns_all_drop_one [OF 2(2)] obtain j0 where j: "js3 = [j0]" "owns (ns ! i) j0 mi" by blast
  have len: "length js1 = i" using owns_all_length [OF 1(2)] assms(2) by simp
  have js: "js = js1 @ j0 # js4" using 1(1) 2(1) j(1) by simp
  then have at: "js ! i = j0" "take i js = js1" "drop (Suc i) js = js4" using len by (simp_all add: nth_append)
  have d: "dom mi \<inter> dom (m1 ++ m3) = {}" "dom m1 \<inter> dom m3 = {}" using 1(4,5) 2(4,5) by auto
  have m: "m = mi ++ (m1 ++ m3)"
    using 1(4,5) 2(4) map_add_comm [of m1 mi] by (metis (no_types, lifting) Int_Un_distrib2 Un_empty dom_map_add inf_commute map_add_assoc)
  have upd: "owns_all (ns[i := n]) (js[i := j]) (mn ++ (m1 ++ m3))"
    if n: "owns n j mn" "dom mn \<inter> dom (m1 ++ m3) = {}" for n j mn
  proof -
    from n(2) have dn: "dom mn \<inter> dom m3 = {}" "dom m1 \<inter> dom (mn ++ m3) = {}" "dom m1 \<inter> dom mn = {}" using d(2) by auto
    have "owns_all (n # drop (Suc i) ns) (j # js4) (mn ++ m3)" by (rule own_more [OF n(1) 2(3) dn(1)])
    from owns_all_append [OF 1(2) this dn(2)]
    have "owns_all (ns[i := n]) (js[i := j]) (m1 ++ (mn ++ m3))"
      using assms(2) by (simp add: upd_conv_take_nth_drop js len list_update_append)
    then show ?thesis using map_add_comm [OF dn(3)] by (metis map_add_assoc)
  qed
  show ?thesis
    by (rule that [of mi "m1 ++ m3"]) (use at j(2) m d upd owns_all_append [OF 1(2) 2(3) d(2)] in auto)
qed

section \<open>What an operation does to the memory\<close>

text \<open>The blocks \<open>m\<close> give way to the blocks \<open>m'\<close>, at old addresses or at new ones.\<close>

definition becomes :: "'f memory \<Rightarrow> (addr \<rightharpoonup> 'f block) \<Rightarrow> 'f memory \<Rightarrow> (addr \<rightharpoonup> 'f block) \<Rightarrow> bool" where
  "becomes h m h' m' \<longleftrightarrow> heap_ok h \<and> m \<subseteq>\<^sub>m cells h \<and> cells h' = (cells h |` (- dom m)) ++ m' \<and>
     dom m' \<subseteq> dom m \<union> {brk h..<brk h'} \<and> brk h \<le> brk h'"

lemma map_leD: "m \<subseteq>\<^sub>m f \<Longrightarrow> m a = Some b \<Longrightarrow> f a = Some b"
  by (metis domI map_le_def)

lemma map_leI: "(\<And>a b. m a = Some b \<Longrightarrow> f a = Some b) \<Longrightarrow> m \<subseteq>\<^sub>m f"
  by (auto simp: map_le_def)

lemma map_le_less: "m \<subseteq>\<^sub>m cells h \<Longrightarrow> heap_ok h \<Longrightarrow> m a = Some b \<Longrightarrow> a < brk h"
  by (blast dest: map_leD heap_ok_less)

lemma becomes_at: "becomes h m h' m' \<Longrightarrow>
    cells h' a = (case m' a of Some b \<Rightarrow> Some b | None \<Rightarrow> if m a = None then cells h a else None)"
  by (auto simp: becomes_def map_add_def restrict_map_def domIff split: option.splits)

lemma becomes_new: "becomes h m h' m' \<Longrightarrow> m' a = Some b \<Longrightarrow> m a \<noteq> None \<or> brk h \<le> a \<and> a < brk h'"
  by (auto simp: becomes_def)

lemma becomes_start: "becomes h m h' m' \<Longrightarrow> heap_ok h \<and> m \<subseteq>\<^sub>m cells h \<and> brk h \<le> brk h'"
  by (simp add: becomes_def)

lemma becomes_heap_ok:
  assumes b: "becomes h m h' m'"
  shows "heap_ok h'"
proof -
  have "a < brk h'" if a: "cells h' a = Some x" for a x
  proof (cases "m' a")
    case None
    then have "cells h a = Some x" using a becomes_at [OF b, of a] by (simp split: if_splits)
    then have "a < brk h" using becomes_start [OF b] heap_ok_less [of h a x] by blast
    then show ?thesis using becomes_start [OF b] by linarith
  next
    case (Some y)
    from becomes_new [OF b Some] show ?thesis
    proof
      assume "m a \<noteq> None"
      then obtain z where "m a = Some z" by blast
      then have "a < brk h" using becomes_start [OF b] map_le_less [of m h a z] by blast
      then show ?thesis using becomes_start [OF b] by linarith
    qed simp
  qed
  then show ?thesis by (auto simp: heap_ok_def)
qed

lemma becomes_owned: "becomes h m h' m' \<Longrightarrow> m' \<subseteq>\<^sub>m cells h'"
  by (simp add: becomes_def)

lemma becomesI:
  assumes "heap_ok h" and "m \<subseteq>\<^sub>m cells h" and "brk h \<le> brk h'"
    and "\<And>a. cells h' a = (case m' a of Some b \<Rightarrow> Some b | None \<Rightarrow> if m a = None then cells h a else None)"
    and "\<And>a b. m' a = Some b \<Longrightarrow> m a \<noteq> None \<or> brk h \<le> a \<and> a < brk h'"
  shows "becomes h m h' m'"
proof -
  have "cells h' = (cells h |` (- dom m)) ++ m'"
    by (rule ext) (auto simp: assms(4) map_add_def restrict_map_def domIff split: option.splits)
  then show ?thesis using assms(1-3,5) unfolding becomes_def by fastforce
qed

lemma becomes_disjoint:
  assumes b: "becomes h m h' m'" and r: "r \<subseteq>\<^sub>m cells h" and d: "dom m \<inter> dom r = {}"
  shows "dom m' \<inter> dom r = {}"
proof -
  have False if a: "m' a = Some x" "r a = Some y" for a x y
  proof -
    have "m a = None" using d a(2) by blast
    then have "brk h \<le> a" using becomes_new [OF b a(1)] by simp
    moreover have "a < brk h" using map_le_less [OF r _ a(2)] becomes_start [OF b] by blast
    ultimately show False by simp
  qed
  then show ?thesis by auto
qed

lemma becomes_rest:
  assumes b: "becomes h m h' m'" and r: "r \<subseteq>\<^sub>m cells h" and d: "dom m \<inter> dom r = {}"
  shows "r \<subseteq>\<^sub>m cells h'"
proof (rule map_leI)
  fix a y assume a: "r a = Some y"
  have "m' a = None" "m a = None" using becomes_disjoint [OF b r d] d a by blast+
  then show "cells h' a = Some y" using map_leD [OF r a] by (simp add: becomes_at [OF b])
qed

lemma becomes_trans:
  assumes b1: "becomes h m h1 m1" and b2: "becomes h1 m1 h2 m2"
  shows "becomes h m h2 m2"
proof (rule becomesI)
  show "heap_ok h" "m \<subseteq>\<^sub>m cells h" using becomes_start [OF b1] by blast+
  show "brk h \<le> brk h2" using becomes_start [OF b1] becomes_start [OF b2] by linarith
  have old: "cells h a = None" if "m1 a = Some x" "m a = None" for a x
    using becomes_new [OF b1 that(1)] that(2) becomes_start [OF b1] heap_ok_less [of h a] by (cases "cells h a") force+
  show "cells h2 a = (case m2 a of Some b \<Rightarrow> Some b | None \<Rightarrow> if m a = None then cells h a else None)" for a
    using old [of a] by (auto simp: becomes_at [OF b2] becomes_at [OF b1] split: option.splits)
  show "m a \<noteq> None \<or> brk h \<le> a \<and> a < brk h2" if "m2 a = Some x" for a x
    using becomes_new [OF b2 that] becomes_new [OF b1, of a] becomes_start [OF b1] becomes_start [OF b2]
    by (cases "m1 a") auto
qed

lemma becomes_frame:
  assumes b: "becomes h m h' m'" and r: "r \<subseteq>\<^sub>m cells h" and d: "dom m \<inter> dom r = {}"
  shows "becomes h (m ++ r) h' (m' ++ r)"
proof (rule becomesI)
  show "heap_ok h" "brk h \<le> brk h'" using becomes_start [OF b] by blast+
  show "m ++ r \<subseteq>\<^sub>m cells h" using becomes_start [OF b] r
    by (intro map_leI) (auto simp: map_add_def map_leD split: option.splits)
  show "cells h' a = (case (m' ++ r) a of Some b \<Rightarrow> Some b | None \<Rightarrow> if (m ++ r) a = None then cells h a else None)" for a
  proof (cases "r a")
    case None
    then show ?thesis using becomes_at [OF b, of a] by (auto simp: map_add_def split: option.splits)
  next
    case (Some x)
    then show ?thesis using map_leD [OF becomes_rest [OF b r d] Some] by simp
  qed
  show "(m ++ r) a \<noteq> None \<or> brk h \<le> a \<and> a < brk h'" if "(m' ++ r) a = Some x" for a x
    using that becomes_new [OF b, of a] by (auto simp: map_add_def split: option.splits)
qed

lemma becomes_store:
  assumes "heap_ok h" and "m \<subseteq>\<^sub>m cells h" and "m a = Some b"
  shows "becomes h m (h\<lparr>cells := (cells h)(a \<mapsto> b')\<rparr>) (m(a \<mapsto> b'))"
  by (rule becomesI) (use assms in \<open>auto simp: map_leD split: option.splits if_splits\<close>)

lemma becomes_refl [simp]: "becomes h m h m \<longleftrightarrow> heap_ok h \<and> m \<subseteq>\<^sub>m cells h"
  by (auto dest: becomes_start intro!: becomesI simp: map_leD split: option.splits)

section \<open>Construction\<close>

lemma create_becomes:
  assumes "heap_ok h" and "construct (h\<lparr>cells := (cells h)(brk h \<mapsto> Raw), brk := Suc (brk h)\<rparr>) = Some (b, h2)"
    and r: "becomes (h\<lparr>cells := (cells h)(brk h \<mapsto> Raw), brk := Suc (brk h)\<rparr>) Map.empty h2 m"
  shows "\<exists>h'. create construct h = Some (Some (brk h), h') \<and> becomes h Map.empty h' (m(brk h \<mapsto> b)) \<and> brk h \<notin> dom m"
proof -
  from r have m: "cells h2 = (cells h)(brk h \<mapsto> Raw) ++ m" "dom m \<subseteq> {Suc (brk h)..<brk h2}" "Suc (brk h) \<le> brk h2"
    by (auto simp: becomes_def restrict_map_def fun_upd_def cong: if_cong)
  then have nin: "brk h \<notin> dom m" by auto
  then have "cells h2 (brk h) = Some Raw" using m(1) by (simp add: map_add_dom_app_simps)
  then have "create construct h = Some (Some (brk h), h2\<lparr>cells := (cells h2)(brk h \<mapsto> b)\<rparr>)"
    using assms(2) by (simp add: create_def alloc_def store_Some)
  moreover have "becomes h Map.empty (h2\<lparr>cells := (cells h2)(brk h \<mapsto> b)\<rparr>) (m(brk h \<mapsto> b))"
    by (rule becomesI) (use m nin assms(1) in \<open>auto simp: map_add_def split: option.splits if_splits\<close>)
  ultimately show ?thesis using nin by blast
qed

lemma create_block:
  assumes "heap_ok h"
  shows "\<exists>h'. create (\<lambda>h. Some (b, h)) h = Some (Some (brk h), h') \<and> becomes h Map.empty h' [brk h \<mapsto> b]"
  using create_becomes [OF assms, of "\<lambda>h. Some (b, h)" b _ Map.empty] heap_ok_alloc [OF assms] by simp

lemma node_of_type_owns:
  assumes "heap_ok h"
  shows "\<exists>n h' m. node_of_type F t h = Some (n, h') \<and> owns n (json_value F t) m \<and> becomes h Map.empty h' m"
proof -
  have e: "becomes h Map.empty h Map.empty" using assms by simp
  show ?thesis
  proof (cases t)
    case t_object
    from create_block [OF assms, of "Object_Block []"] obtain h' where
      "create (\<lambda>h. Some (Object_Block [], h)) h = Some (Some (brk h), h')" "becomes h Map.empty h' [brk h \<mapsto> Object_Block []]" by blast
    moreover have "owns (NObject (Some (brk h))) (JObject []) [brk h \<mapsto> Object_Block []]"
      using own_object [of "[]" "[]" Map.empty "brk h"] by (simp add: own_none)
    ultimately show ?thesis using t_object by (auto simp: node_of_type_def)
  next
    case t_array
    from create_block [OF assms, of "Array_Block []"] obtain h' where
      "create (\<lambda>h. Some (Array_Block [], h)) h = Some (Some (brk h), h')" "becomes h Map.empty h' [brk h \<mapsto> Array_Block []]" by blast
    moreover have "owns (NArray (Some (brk h))) (JArray []) [brk h \<mapsto> Array_Block []]"
      using own_array [of "[]" "[]" Map.empty "brk h"] by (simp add: own_none)
    ultimately show ?thesis using t_array by (auto simp: node_of_type_def)
  next
    case t_string
    from create_block [OF assms, of "String_Block []"] obtain h' where
      "create (\<lambda>h. Some (String_Block [], h)) h = Some (Some (brk h), h')" "becomes h Map.empty h' [brk h \<mapsto> String_Block []]" by blast
    then show ?thesis using t_string own_string [of "brk h" "[]"] by (auto simp: node_of_type_def)
  qed (use e in \<open>auto simp: node_of_type_def owns_scalar_simps\<close>)
qed

lemma node_of_string_owns:
  assumes "heap_ok h"
  shows "\<exists>n h' m. node_of_string s h = Some (n, h') \<and> owns n (JString s) m \<and> becomes h Map.empty h' m"
proof -
  from create_block [OF assms, of "String_Block s"] obtain h' where
    "create (\<lambda>h. Some (String_Block s, h)) h = Some (Some (brk h), h')" "becomes h Map.empty h' [brk h \<mapsto> String_Block s]" by blast
  then show ?thesis using own_string [of "brk h" s] by (auto simp: node_of_string_def)
qed

lemma owns_card:
  "a \<notin> dom m \<Longrightarrow> owns_all ns js m \<Longrightarrow> card (insert a (dom m)) = Suc (card (dom m))"
  by (simp add: owns_finite(2))

lemma owns_card_parts:
  assumes "owns n j m1" and "owns_all ns js m2" and "dom m1 \<inter> dom m2 = {}"
  shows "card (dom (m1 ++ m2)) = card (dom m1) + card (dom m2)"
  using card_Un_disjoint [OF owns_finite(1) [OF assms(1)] owns_finite(2) [OF assms(2)] assms(3)]
  by (simp add: Un_commute)

lemma map_le_parts: "m1 ++ m2 \<subseteq>\<^sub>m f \<Longrightarrow> dom m1 \<inter> dom m2 = {} \<Longrightarrow> m1 \<subseteq>\<^sub>m f \<and> m2 \<subseteq>\<^sub>m f"
  by (metis map_add_comm map_add_le_mapE map_le_map_add map_le_trans)

lemma map_le_add: "m1 \<subseteq>\<^sub>m f \<Longrightarrow> m2 \<subseteq>\<^sub>m f \<Longrightarrow> m1 ++ m2 \<subseteq>\<^sub>m f"
  by (rule map_leI) (auto simp: map_add_def map_leD split: option.splits)

lemma map_le_block: "m(a \<mapsto> b) \<subseteq>\<^sub>m f \<Longrightarrow> a \<notin> dom m \<Longrightarrow> m \<subseteq>\<^sub>m f \<and> f a = Some b"
  by (metis fun_upd_same map_leD map_le_trans upd_None_map_le fun_upd_triv domIff fun_upd_upd)

lemma map_le_fresh: "m \<subseteq>\<^sub>m cells h \<Longrightarrow> heap_ok h \<Longrightarrow> m \<subseteq>\<^sub>m (cells h)(brk h \<mapsto> b)"
  by (rule map_leI) (auto dest: map_leD map_le_less)

text \<open>Copying makes new blocks for an equal value and changes no old one.\<close>

definition copies ::
    "('f memory \<Rightarrow> ('a \<times> 'f memory) option) \<Rightarrow> ('a \<Rightarrow> (addr \<rightharpoonup> 'f block) \<Rightarrow> bool) \<Rightarrow> 'f memory \<Rightarrow> bool" where
  "copies copy own h \<longleftrightarrow> (\<exists>x h' m. copy h = Some (x, h') \<and> own x m \<and> becomes h Map.empty h' m)"

lemma copy_own:
  shows "owns n j m \<Longrightarrow> \<forall>fuel h. card (dom m) < fuel \<longrightarrow> m \<subseteq>\<^sub>m cells h \<longrightarrow> heap_ok h \<longrightarrow>
      copies (copy_node fuel n) (\<lambda>x. owns x j) h"
    and "owns_all ns js m \<Longrightarrow> \<forall>fuel h. card (dom m) < fuel \<longrightarrow> m \<subseteq>\<^sub>m cells h \<longrightarrow> heap_ok h \<longrightarrow>
      copies (copy_elements (copy_node fuel) ns) (\<lambda>xs. owns_all xs js) h"
proof (induction rule: owns_owns_all.inducts)
  case (own_string a s)
  show ?case
  proof (intro allI impI)
    fix fuel h
    assume a: "card (dom [a \<mapsto> String_Block s]) < fuel" "[a \<mapsto> String_Block s] \<subseteq>\<^sub>m cells h" "heap_ok h"
    then obtain f where f: "fuel = Suc f" by (cases fuel) auto
    show "copies (copy_node fuel (NString (Some a))) (\<lambda>x. owns x (JString s)) h"
      using map_leD [OF a(2), of a] node_of_string_owns [OF a(3), of s] by (simp add: copies_def f)
  qed
next
  case (own_array ns js m a)
  show ?case
  proof (intro allI impI)
    fix fuel h
    assume c: "card (dom (m(a \<mapsto> Array_Block ns))) < fuel" and le: "m(a \<mapsto> Array_Block ns) \<subseteq>\<^sub>m cells h" and ok: "heap_ok h"
    from c obtain f where f: "fuel = Suc f" "card (dom m) < f"
      by (cases fuel) (auto simp: owns_card [OF own_array(2,1)])
    note le = map_le_block [OF le own_array(2)]
    let ?h = "h\<lparr>cells := (cells h)(brk h \<mapsto> Raw), brk := Suc (brk h)\<rparr>"
    from own_array.IH [rule_format, OF f(2), of ?h] le map_le_fresh [OF _ ok] heap_ok_alloc [OF ok]
    obtain xs h2 m2 where r: "copy_elements (copy_node f) ns ?h = Some (xs, h2)" "owns_all xs js m2" "becomes ?h Map.empty h2 m2"
      by (auto simp: copies_def)
    from create_becomes [OF ok _ r(3), where construct = "\<lambda>h. do { (ns, h) \<leftarrow> copy_elements (copy_node f) ns h; Some (Array_Block ns, h) }"
        and b = "Array_Block xs"] r(1)
    obtain h' where h': "create (\<lambda>h. do { (ns, h) \<leftarrow> copy_elements (copy_node f) ns h; Some (Array_Block ns, h) }) h = Some (Some (brk h), h')"
      "becomes h Map.empty h' (m2(brk h \<mapsto> Array_Block xs))" "brk h \<notin> dom m2" by auto
    show "copies (copy_node fuel (NArray (Some a))) (\<lambda>x. owns x (JArray js)) h"
      using h' le owns_owns_all.own_array [OF r(2) h'(3)] by (auto simp: copies_def f(1))
  qed
next
  case (own_object es kvs m a)
  show ?case
  proof (intro allI impI)
    fix fuel h
    assume c: "card (dom (m(a \<mapsto> Object_Block es))) < fuel" and le: "m(a \<mapsto> Object_Block es) \<subseteq>\<^sub>m cells h" and ok: "heap_ok h"
    from c obtain f where f: "fuel = Suc f" "card (dom m) < f"
      by (cases fuel) (auto simp: owns_card [OF own_object(2,1)])
    note le = map_le_block [OF le own_object(2)]
    let ?h = "h\<lparr>cells := (cells h)(brk h \<mapsto> Raw), brk := Suc (brk h)\<rparr>"
    let ?c = "\<lambda>h. do { (ns, h) \<leftarrow> copy_elements (copy_node f) (map snd es) h; Some (Object_Block (zip (map fst es) ns), h) }"
    from own_object.IH [rule_format, OF f(2), of ?h] le map_le_fresh [OF _ ok] heap_ok_alloc [OF ok]
    obtain xs h2 m2 where r: "copy_elements (copy_node f) (map snd es) ?h = Some (xs, h2)" "owns_all xs (map snd kvs) m2"
      "becomes ?h Map.empty h2 m2" by (auto simp: copies_def)
    let ?es = "zip (map fst es) xs"
    from create_becomes [OF ok _ r(3), where construct = ?c and b = "Object_Block ?es"] r(1)
    obtain h' where h': "create ?c h = Some (Some (brk h), h')"
      "becomes h Map.empty h' (m2(brk h \<mapsto> Object_Block ?es))" "brk h \<notin> dom m2" by auto
    have "length xs = length es"
      using owns_all_length [OF r(2)] owns_all_length [OF own_object(1)] by simp
    then have "owns_all (map snd ?es) (map snd kvs) m2" "map fst ?es = map fst kvs"
      using r(2) own_object(3) by (simp_all add: map_snd_zip map_fst_zip flip: own_object(3))
    from owns_owns_all.own_object [OF this(1) h'(3) this(2) own_object(4)]
    show "copies (copy_node fuel (NObject (Some a))) (\<lambda>x. owns x (JObject kvs)) h"
      using h' le by (auto simp: copies_def f(1))
  qed
next
  case (own_more n j m1 ns js m2)
  show ?case
  proof (intro allI impI)
    fix fuel h
    assume c: "card (dom (m1 ++ m2)) < fuel" and le: "m1 ++ m2 \<subseteq>\<^sub>m cells h" and ok: "heap_ok h"
    note le = map_le_parts [OF le own_more(3)]
    have c: "card (dom m1) < fuel" "card (dom m2) < fuel"
      using c owns_card_parts [OF own_more(1-3)] by simp_all
    from own_more.IH(1) [rule_format, OF c(1) _ ok] le
    obtain x h1 ma where x: "copy_node fuel n h = Some (x, h1)" "owns x j ma" "becomes h Map.empty h1 ma" by (auto simp: copies_def)
    have le1: "m2 \<subseteq>\<^sub>m cells h1" using becomes_rest [OF x(3)] le by simp
    from own_more.IH(2) [rule_format, OF c(2) le1 becomes_heap_ok [OF x(3)]]
    obtain xs h2 mb where xs: "copy_elements (copy_node fuel) ns h1 = Some (xs, h2)" "owns_all xs js mb" "becomes h1 Map.empty h2 mb"
      by (auto simp: copies_def)
    have d: "dom mb \<inter> dom ma = {}" using becomes_disjoint [OF xs(3) becomes_owned [OF x(3)]] by simp
    then have d: "dom ma \<inter> dom mb = {}" by auto
    have "becomes h1 ma h2 (mb ++ ma)" using becomes_frame [OF xs(3) becomes_owned [OF x(3)]] by simp
    then have "becomes h Map.empty h2 (ma ++ mb)"
      using becomes_trans [OF x(3)] map_add_comm [OF d] by simp
    then show "copies (copy_elements (copy_node fuel) (n # ns)) (\<lambda>xs. owns_all xs (j # js)) h"
      using x(1) xs(1) owns_owns_all.own_more [OF x(2) xs(2) d] by (auto simp: copies_def)
  qed
qed (auto simp: copies_def owns_scalar_simps gr0_conv_Suc)

lemma owns_fuel:
  assumes "owns n j m" and "m \<subseteq>\<^sub>m cells h" and "heap_ok h"
  shows "card (dom m) < Suc (brk h)"
proof -
  have "dom m \<subseteq> {..<brk h}" using map_le_less [OF assms(2,3)] by auto
  then have "card (dom m) \<le> card {..<brk h}" by (rule card_mono [rotated]) simp
  then show ?thesis by simp
qed

lemma copy_owns:
  assumes "owns n j m" and "m \<subseteq>\<^sub>m cells h" and "heap_ok h"
  shows "\<exists>n' h' m'. copy_constructor n h = Some (n', h') \<and> owns n' j m' \<and> becomes h Map.empty h' m'"
  using copy_own(1) [OF assms(1), rule_format, OF owns_fuel [OF assms] assms(2,3)]
  by (simp add: copies_def copy_constructor_def)

section \<open>Destruction\<close>

text \<open>The blocks of a value are given back, each once, and no others.\<close>

definition without :: "'f memory \<Rightarrow> (addr \<rightharpoonup> 'f block) \<Rightarrow> 'f memory" where
  "without h m = h\<lparr>cells := cells h |` (- dom m)\<rparr>"

lemma without_cells [simp]: "cells (without h m) = cells h |` (- dom m)" "brk (without h m) = brk h"
  by (simp_all add: without_def)

lemma without_empty [simp]: "without h Map.empty = h"
  by (simp add: without_def restrict_map_def)

lemma without_more: "without (without h m1) m2 = without h (m1 ++ m2)"
  by (simp add: without_def Int_commute)

lemma without_keeps: "m2 \<subseteq>\<^sub>m cells h \<Longrightarrow> dom m1 \<inter> dom m2 = {} \<Longrightarrow> m2 \<subseteq>\<^sub>m cells (without h m1)"
  by (auto simp: map_le_def restrict_map_def disjoint_iff)

lemma becomes_without: "heap_ok h \<Longrightarrow> m \<subseteq>\<^sub>m cells h \<Longrightarrow> becomes h m (without h m) Map.empty"
  by (simp add: becomes_def)

lemma release_without:
  "cells h a = Some b \<Longrightarrow> a \<notin> dom m \<Longrightarrow> release (without h m) (Some a) = Some (without h (m(a \<mapsto> b')))"
  by (auto simp: release_def without_def restrict_map_def fun_eq_iff split: if_splits)

lemma destroy_own:
  shows "owns n j m \<Longrightarrow> \<forall>fuel h. card (dom m) < fuel \<longrightarrow> m \<subseteq>\<^sub>m cells h \<longrightarrow>
      destroy_node fuel n h = Some (without h m)"
    and "owns_all ns js m \<Longrightarrow> \<forall>fuel h. card (dom m) < fuel \<longrightarrow> m \<subseteq>\<^sub>m cells h \<longrightarrow>
      destroy_elements (destroy_node fuel) ns h = Some (without h m)"
proof (induction rule: owns_owns_all.inducts)
  case (own_string a s)
  show ?case
  proof (intro allI impI)
    fix fuel and h :: "_ memory"
    assume a: "card (dom [a \<mapsto> String_Block s]) < fuel" "[a \<mapsto> String_Block s] \<subseteq>\<^sub>m cells h"
    then obtain f where f: "fuel = Suc f" by (cases fuel) auto
    show "destroy_node fuel (NString (Some a)) h = Some (without h [a \<mapsto> String_Block s])"
      using map_leD [OF a(2), of a] release_without [of h a _ Map.empty] by (simp add: f)
  qed
next
  case (own_array ns js m a)
  show ?case
  proof (intro allI impI)
    fix fuel and h :: "_ memory"
    assume c: "card (dom (m(a \<mapsto> Array_Block ns))) < fuel" and le: "m(a \<mapsto> Array_Block ns) \<subseteq>\<^sub>m cells h"
    from c obtain f where f: "fuel = Suc f" "card (dom m) < f"
      by (cases fuel) (auto simp: owns_card [OF own_array(2,1)])
    note le = map_le_block [OF le own_array(2)]
    show "destroy_node fuel (NArray (Some a)) h = Some (without h (m(a \<mapsto> Array_Block ns)))"
      using le own_array.IH [rule_format, OF f(2), of h] release_without [OF _ own_array(2)] by (simp add: f(1))
  qed
next
  case (own_object es kvs m a)
  show ?case
  proof (intro allI impI)
    fix fuel and h :: "_ memory"
    assume c: "card (dom (m(a \<mapsto> Object_Block es))) < fuel" and le: "m(a \<mapsto> Object_Block es) \<subseteq>\<^sub>m cells h"
    from c obtain f where f: "fuel = Suc f" "card (dom m) < f"
      by (cases fuel) (auto simp: owns_card [OF own_object(2,1)])
    note le = map_le_block [OF le own_object(2)]
    show "destroy_node fuel (NObject (Some a)) h = Some (without h (m(a \<mapsto> Object_Block es)))"
      using le own_object.IH [rule_format, OF f(2), of h] release_without [OF _ own_object(2)] by (simp add: f(1))
  qed
next
  case (own_more n j m1 ns js m2)
  show ?case
  proof (intro allI impI)
    fix fuel and h :: "_ memory"
    assume c: "card (dom (m1 ++ m2)) < fuel" and le: "m1 ++ m2 \<subseteq>\<^sub>m cells h"
    note le = map_le_parts [OF le own_more(3)]
    have c: "card (dom m1) < fuel" "card (dom m2) < fuel"
      using c owns_card_parts [OF own_more(1-3)] by simp_all
    show "destroy_elements (destroy_node fuel) (n # ns) h = Some (without h (m1 ++ m2))"
      using own_more.IH(1) [rule_format, OF c(1), of h] own_more.IH(2) [rule_format, OF c(2), of "without h m1"] le
        without_keeps [OF _ own_more(3), of h] by (simp add: without_more)
  qed
qed (auto simp: gr0_conv_Suc)

lemma destroy_owns:
  "owns n j m \<Longrightarrow> m \<subseteq>\<^sub>m cells h \<Longrightarrow> heap_ok h \<Longrightarrow> destructor n h = Some (without h m)"
  by (simp add: destructor_def destroy_own(1) owns_fuel del: destroy_node.simps)

text \<open>Elements that are destroyed one by one.\<close>

lemma heap_ok_without [simp]: "heap_ok h \<Longrightarrow> heap_ok (without h m)"
  by (auto simp: heap_ok_def restrict_map_def split: if_splits)

lemma destroy_elements_owns:
  "owns_all ns js m \<Longrightarrow> m \<subseteq>\<^sub>m cells h \<Longrightarrow> heap_ok h \<Longrightarrow> destroy_elements destructor ns h = Some (without h m)"
proof (induction ns arbitrary: js m h)
  case (Cons n ns)
  from Cons.prems(1) obtain j js' m1 m2 where m: "js = j # js'" "m = m1 ++ m2" "owns n j m1" "owns_all ns js' m2"
    "dom m1 \<inter> dom m2 = {}" by (auto elim: owns_all_ConsE)
  note le = map_le_parts [OF Cons.prems(2) [unfolded m(2)] m(5)]
  show ?case
    using destroy_owns [OF m(3) _ Cons.prems(3)] Cons.IH [OF m(4) without_keeps [OF _ m(5), of h]] le Cons.prems(3)
    by (simp add: m(2) without_more)
qed simp

section \<open>Modifiers\<close>

definition transforms ::
    "('f node \<times> 'f memory) option \<Rightarrow> 'f json \<Rightarrow> 'f memory \<Rightarrow> (addr \<rightharpoonup> 'f block) \<Rightarrow> bool" where
  "transforms r j h m \<longleftrightarrow> (\<exists>n h' m'. r = Some (n, h') \<and> owns n j m' \<and> becomes h m h' m')"

lemma store_block:
  assumes "heap_ok h" and "m \<subseteq>\<^sub>m cells h" and "m a = Some b"
  shows "\<exists>h'. store h (Some a) b' = Some h' \<and> becomes h m h' (m(a \<mapsto> b'))"
  using becomes_store [OF assms] map_leD [OF assms(2,3)] by (auto simp: store_Some)

text \<open>A container that loses all its elements.\<close>

lemma destroy_elements_and_store:
  assumes "owns_all ns js m" and "a \<notin> dom m" and "m(a \<mapsto> b) \<subseteq>\<^sub>m cells h" and "heap_ok h"
  shows "\<exists>h'. destroy_elements destructor ns h = Some (without h m) \<and> store (without h m) (Some a) b' = Some h' \<and>
    becomes h (m(a \<mapsto> b)) h' [a \<mapsto> b']"
proof -
  note le = map_le_block [OF assms(3,2)]
  have a: "[a \<mapsto> b] \<subseteq>\<^sub>m cells h" using le by (auto simp: map_le_def)
  have 1: "becomes h (m(a \<mapsto> b)) (without h m) [a \<mapsto> b]"
    using becomes_frame [OF becomes_without [OF assms(4)] a] le assms(2) by simp
  from store_block [OF becomes_heap_ok [OF 1] becomes_owned [OF 1], of a b b'] obtain h' where
    "store (without h m) (Some a) b' = Some h'" "becomes (without h m) [a \<mapsto> b] h' [a \<mapsto> b']" by auto
  then show ?thesis using becomes_trans [OF 1] destroy_elements_owns [OF assms(1) _ assms(4)] le by blast
qed

lemma clear_owns:
  assumes o: "owns n j m" and le: "m \<subseteq>\<^sub>m cells h" and ok: "heap_ok h"
  shows "transforms (clear_node F n h) (clear F j) h m"
  using o
proof (cases rule: owns.cases)
  case (own_string a s)
  from store_block [OF ok le, of a "String_Block s" "String_Block []"] own_string(3) obtain h' where
    "store h (Some a) (String_Block []) = Some h'" "becomes h m h' [a \<mapsto> String_Block []]" by auto
  then show ?thesis using map_leD [OF le, of a] owns_owns_all.own_string [of a "[]"]
    by (auto simp: transforms_def clear_node_def own_string)
next
  case (own_array ns js m0 a)
  have le: "m0(a \<mapsto> Array_Block ns) \<subseteq>\<^sub>m cells h" using le own_array(3) by simp
  from destroy_elements_and_store [OF own_array(4,5) le ok, of "Array_Block []"] obtain h' where
    "destroy_elements destructor ns h = Some (without h m0)" "store (without h m0) (Some a) (Array_Block []) = Some h'"
    "becomes h m h' [a \<mapsto> Array_Block []]" using own_array(3) by auto
  then show ?thesis using map_le_block [OF le own_array(5)] owns_owns_all.own_array [OF own_none, of a]
    by (auto simp: transforms_def clear_node_def own_array(1,2))
next
  case (own_object es kvs m0 a)
  have le: "m0(a \<mapsto> Object_Block es) \<subseteq>\<^sub>m cells h" using le own_object(3) by simp
  from destroy_elements_and_store [OF own_object(4,5) le ok, of "Object_Block []"] obtain h' where
    "destroy_elements destructor (map snd es) h = Some (without h m0)" "store (without h m0) (Some a) (Object_Block []) = Some h'"
    "becomes h m h' [a \<mapsto> Object_Block []]" using own_object(3) by auto
  moreover have "owns (NObject (Some a)) (JObject []) [a \<mapsto> Object_Block []]"
    using owns_owns_all.own_object [of "[]" "[]" Map.empty a] by (simp add: own_none)
  ultimately show ?thesis using map_le_block [OF le own_object(5)] by (auto simp: transforms_def clear_node_def own_object(1,2))
qed (use ok le in \<open>auto simp: transforms_def clear_node_def owns_scalar_simps\<close>)

lemma null_to_owns:
  assumes o: "owns n j m" and le: "m \<subseteq>\<^sub>m cells h" and ok: "heap_ok h"
  shows "transforms (null_to F t n h) (if is_null j then json_value F t else j) h m"
proof (cases "n = NNull")
  case True
  then show ?thesis using o node_of_type_owns [OF ok, of F t]
    by (auto simp: transforms_def null_to_def is_null_def)
next
  case False
  then have "\<not> is_null j" using owns_type [OF o] by (cases n) (auto simp: is_null_def)
  then show ?thesis using False o le ok by (auto simp: transforms_def null_to_def)
qed

text \<open>One element is destroyed, and another may take its place.\<close>

lemma destroy_and_store:
  assumes o: "owns_all ns js m" and i: "i < length ns" and a: "a \<notin> dom m"
    and le: "m(a \<mapsto> b) \<subseteq>\<^sub>m cells h" and ok: "heap_ok h"
    and mv: "mv \<subseteq>\<^sub>m cells h" "dom mv \<inter> dom (m(a \<mapsto> b)) = {}"
  obtains h1 mr where "destructor (ns ! i) h = Some h1" "cells h1 a = Some b"
    "\<And>b'. \<exists>h'. store h1 (Some a) b' = Some h' \<and> becomes h (m(a \<mapsto> b) ++ mv) h' ((mv ++ mr)(a \<mapsto> b'))"
    "a \<notin> dom (mv ++ mr)" "dom mv \<inter> dom mr = {}"
    "\<And>n j mn. owns n j mn \<Longrightarrow> dom mn \<inter> dom mr = {} \<Longrightarrow> owns_all (ns[i := n]) (js[i := j]) (mn ++ mr)"
    "owns_all (take i ns @ drop (Suc i) ns) (take i js @ drop (Suc i) js) mr"
proof -
  from owns_all_nth [OF o i] obtain mi mr where m: "owns (ns ! i) (js ! i) mi" "m = mi ++ mr" "dom mi \<inter> dom mr = {}"
    and upd: "\<And>n j mn. owns n j mn \<Longrightarrow> dom mn \<inter> dom mr = {} \<Longrightarrow> owns_all (ns[i := n]) (js[i := j]) (mn ++ mr)"
    and del: "owns_all (take i ns @ drop (Suc i) ns) (take i js @ drop (Suc i) js) mr" by blast
  note le1 = map_le_block [OF le a]
  have le2: "mi \<subseteq>\<^sub>m cells h" "mr \<subseteq>\<^sub>m cells h" using map_le_parts [OF _ m(3)] le1 m(2) by blast+
  let ?r = "(mv ++ mr)(a \<mapsto> b)"
  have d: "a \<notin> dom mv" "a \<notin> dom mi" "a \<notin> dom mr" "dom mv \<inter> dom mr = {}" "dom mi \<inter> dom mv = {}"
    using mv(2) a m(2) by auto
  have r: "?r \<subseteq>\<^sub>m cells h"
    using le1 le2(2) mv(1) by (intro map_leI) (auto simp: map_add_def map_leD split: if_splits option.splits)
  have dr: "dom mi \<inter> dom ?r = {}" using d m(3) by auto
  have "mi ++ ?r = m(a \<mapsto> b) ++ mv"
    using d m(2,3) by (auto simp: map_add_def fun_eq_iff split: option.splits)
  then have 1: "becomes h (m(a \<mapsto> b) ++ mv) (without h mi) ?r"
    using becomes_frame [OF becomes_without [OF ok le2(1)] r dr] by simp
  have "\<exists>h'. store (without h mi) (Some a) b' = Some h' \<and> becomes h (m(a \<mapsto> b) ++ mv) h' ((mv ++ mr)(a \<mapsto> b'))" for b'
    using store_block [OF becomes_heap_ok [OF 1] becomes_owned [OF 1], of a b b'] becomes_trans [OF 1] by auto
  moreover have "cells (without h mi) a = Some b" using le1 d(2) by simp
  ultimately show ?thesis
    using that [OF destroy_owns [OF m(1) le2(1) ok], of mr] d upd del by auto
qed

lemma array_store:
  assumes "owns_all ns js m" and "a \<notin> dom m" and "m(a \<mapsto> b) \<subseteq>\<^sub>m cells h" and "heap_ok h"
  shows "\<exists>h'. store h (Some a) (Array_Block ns) = Some h' \<and>
    owns (NArray (Some a)) (JArray js) (m(a \<mapsto> Array_Block ns)) \<and> becomes h (m(a \<mapsto> b)) h' (m(a \<mapsto> Array_Block ns))"
  using store_block [OF assms(4,3), of a b] owns_owns_all.own_array [OF assms(1,2)] by auto

lemma push_owns:
  assumes n: "owns n (JArray js) m" and v: "owns v j mv" and d: "dom m \<inter> dom mv = {}"
    and le: "m \<subseteq>\<^sub>m cells h" "mv \<subseteq>\<^sub>m cells h" and ok: "heap_ok h"
  shows "\<exists>h' m'. push_element n v h = Some h' \<and> owns n (JArray (js @ [j])) m' \<and> becomes h (m ++ mv) h' m'"
  using n
proof (cases rule: owns_arrayE)
  case (1 ns m0 a)
  have d0: "dom m0 \<inter> dom mv = {}" "a \<notin> dom (m0 ++ mv)" using d 1 by auto
  have m: "(m0 ++ mv)(a \<mapsto> b) = m0(a \<mapsto> b) ++ mv" for b
    using d0 by (auto simp: map_add_def fun_eq_iff split: option.splits)
  have le': "(m0 ++ mv)(a \<mapsto> Array_Block ns) \<subseteq>\<^sub>m cells h"
    using map_le_add [OF le] 1 by (simp only: m)
  from array_store [OF owns_all_append [OF _ owns_all_single [OF v] d0(1)] d0(2) le' ok, of ns js] 1
  obtain h' where "store h (Some a) (Array_Block (ns @ [v])) = Some h'"
    "owns (NArray (Some a)) (JArray (js @ [j])) ((m0 ++ mv)(a \<mapsto> Array_Block (ns @ [v])))"
    "becomes h (m ++ mv) h' ((m0 ++ mv)(a \<mapsto> Array_Block (ns @ [v])))"
    by (auto simp: m)
  then show ?thesis using 1 map_leD [OF le(1), of a] by (auto simp: push_element_def)
qed

lemma owns_nulls: "owns_all (replicate n NNull) (replicate n JNull) Map.empty"
  by (induction n) (auto intro: own_none own_more [of NNull JNull Map.empty _ _ Map.empty, simplified])

lemma subscript_index_owns:
  assumes n: "owns n (JArray js) m" and le: "m \<subseteq>\<^sub>m cells h" and ok: "heap_ok h"
  shows "\<exists>h' m'. subscript_index_node F n idx h = Some (Inr (n, h')) \<and>
    owns n (JArray (js @ replicate (Suc idx - length js) JNull)) m' \<and> becomes h m h' m'"
  using n
proof (cases rule: owns_arrayE)
  case (1 ns m0 a)
  have le': "m0(a \<mapsto> Array_Block ns) \<subseteq>\<^sub>m cells h" using le 1 by simp
  have "owns_all (ns @ replicate (Suc idx - length js) NNull) (js @ replicate (Suc idx - length js) JNull) m0"
    using owns_all_append [OF _ owns_nulls, of ns js m0] 1 by simp
  from array_store [OF this 1(4) le' ok] show ?thesis
    using 1 owns_all_length [OF 1(3)] map_leD [OF le, of a]
    by (auto simp: subscript_index_node_def null_to_def)
qed

lemma assign_element_owns:
  assumes n: "owns n (JArray js) m" and v: "owns v j mv" and d: "dom m \<inter> dom mv = {}"
    and le: "m \<subseteq>\<^sub>m cells h" "mv \<subseteq>\<^sub>m cells h" and ok: "heap_ok h" and i: "idx < length js"
  shows "\<exists>h' m'. assign_element n idx v h = Some h' \<and> owns n (JArray (js[idx := j])) m' \<and>
    becomes h (m ++ mv) h' m'"
  using n
proof (cases rule: owns_arrayE)
  case (1 ns m0 a)
  have i: "idx < length ns" using i owns_all_length [OF 1(3)] 1(1) by simp
  have le': "m0(a \<mapsto> Array_Block ns) \<subseteq>\<^sub>m cells h" using le 1 by simp
  have d': "dom mv \<inter> dom (m0(a \<mapsto> Array_Block ns)) = {}" using d 1 by auto
  show ?thesis
  proof (rule destroy_and_store [OF 1(3) i 1(4) le' ok le(2) d'])
    fix h1 mr
    assume r: "destructor (ns ! idx) h = Some h1"
      "\<And>b'. \<exists>h'. store h1 (Some a) b' = Some h' \<and> becomes h (m0(a \<mapsto> Array_Block ns) ++ mv) h' ((mv ++ mr)(a \<mapsto> b'))"
      "a \<notin> dom (mv ++ mr)" "dom mv \<inter> dom mr = {}"
      "\<And>n j mn. owns n j mn \<Longrightarrow> dom mn \<inter> dom mr = {} \<Longrightarrow> owns_all (ns[idx := n]) (js[idx := j]) (mn ++ mr)"
    from r(2) obtain h' where "store h1 (Some a) (Array_Block (ns[idx := v])) = Some h'"
      "becomes h (m ++ mv) h' ((mv ++ mr)(a \<mapsto> Array_Block (ns[idx := v])))" using 1 by blast
    then show ?thesis
      using 1 i r(1) owns_owns_all.own_array [OF r(5) [OF v r(4)] r(3)] map_leD [OF le(1), of a]
      by (auto simp: assign_element_def assign_node_def)
  qed
qed

lemma shift_down_owns:
  assumes "owns old j m" and "m \<subseteq>\<^sub>m cells h" and "heap_ok h"
  shows "shift_down ns old h = do { h \<leftarrow> destructor old h; Some (ns, h) }"
proof -
  have null: "shift_down ns NNull h = Some (ns, h)" if "heap_ok h" for ns and h :: "'a memory"
    using destroy_owns [OF own_null _ that] that
    by (induction ns) (auto simp: assign_node_def move_constructor_def)
  show ?thesis
  proof (cases ns)
    case (Cons n ns')
    then show ?thesis using destroy_owns [OF assms] null [of "without h m" ns'] assms(3)
      by (simp add: assign_node_def move_constructor_def)
  qed simp
qed

lemma erase_index_owns:
  assumes n: "owns n (JArray js) m" and le: "m \<subseteq>\<^sub>m cells h" and ok: "heap_ok h" and i: "idx < length js"
  shows "\<exists>h' m'. erase_index_node n idx h = Some (Inr h') \<and>
    owns n (JArray (take idx js @ drop (Suc idx) js)) m' \<and> becomes h m h' m'"
proof -
  from n obtain ns m0 a where 1: "n = NArray (Some a)" "m = m0(a \<mapsto> Array_Block ns)" "owns_all ns js m0" "a \<notin> dom m0"
    by (rule owns_arrayE)
  have i: "idx < length ns" using i owns_all_length [OF 1(3)] by simp
  have le': "m0(a \<mapsto> Array_Block ns) \<subseteq>\<^sub>m cells h" using le 1 by simp
  from owns_all_nth [OF 1(3) i] obtain mi where mi: "owns (ns ! idx) (js ! idx) mi" "mi \<subseteq>\<^sub>m cells h"
    using map_le_block [OF le' 1(4)] map_le_parts by metis
  show ?thesis
  proof (rule destroy_and_store [OF 1(3) i 1(4) le' ok, of Map.empty])
    fix h1 mr
    assume r: "destructor (ns ! idx) h = Some h1"
      "\<And>b'. \<exists>h'. store h1 (Some a) b' = Some h' \<and>
        becomes h (m0(a \<mapsto> Array_Block ns) ++ Map.empty) h' ((Map.empty ++ mr)(a \<mapsto> b'))"
      "a \<notin> dom (Map.empty ++ mr)" "owns_all (take idx ns @ drop (Suc idx) ns) (take idx js @ drop (Suc idx) js) mr"
    let ?ns = "take idx ns @ drop (Suc idx) ns"
    from r(2) obtain h' where "store h1 (Some a) (Array_Block ?ns) = Some h'"
      "becomes h m h' (mr(a \<mapsto> Array_Block ?ns))" using 1 by fastforce
    then show ?thesis
      using 1 i r(1) owns_owns_all.own_array [OF r(4)] r(3) map_leD [OF le, of a] shift_down_owns [OF mi ok]
      by (auto simp: erase_index_node_def)
  qed auto
qed

section \<open>Members of objects\<close>

text \<open>Where a key stands depends on the keys only.\<close>

definition key_index :: "char list \<Rightarrow> char list list \<Rightarrow> nat" where
  "key_index k ks = length (takeWhile (\<lambda>k'. k' < k) ks)"

lemma map_insert_new:
  "map_of es k = None \<Longrightarrow> map_insert k v es =
     take (key_index k (map fst es)) es @ (k, v) # drop (key_index k (map fst es)) es"
  by (induction es) (auto simp: key_index_def not_less order.order_iff_strict)

lemma key_at:
  assumes "map_ok es" and "map_of es k = Some v"
  shows "key_index k (map fst es) < length es \<and> es ! key_index k (map fst es) = (k, v) \<and> map_insert k u es = es \<and>
    map_assign k u es = es[key_index k (map fst es) := (k, u)] \<and>
    map_erase k es = take (key_index k (map fst es)) es @ drop (Suc (key_index k (map fst es))) es"
  using assms
proof (induction es)
  case (Cons e es)
  obtain k' v' where e: "e = (k', v')" by (cases e)
  show ?case
  proof (cases "k' = k")
    case True
    then have "filter (\<lambda>e. fst e \<noteq> k) es = es" using Cons.prems(1) e by (auto intro!: filter_True)
    then show ?thesis using True e Cons.prems(2) by (simp add: key_index_def map_erase_def)
  next
    case False
    then have some: "map_of es k = Some v" using Cons.prems(2) e by simp
    then have lt: "k' < k" using Cons.prems(1) e by (force dest!: map_of_SomeD)
    have "map_ok es" using Cons.prems(1) by simp
    from Cons.IH [OF this some] lt False show ?thesis by (auto simp: e key_index_def map_erase_def)
  qed
qed simp

lemma same_keys_lookup: "map fst es = map fst kvs \<Longrightarrow> map_of es k = None \<longleftrightarrow> map_of kvs k = None"
  by (metis list.set_map map_of_eq_None_iff)

lemma map_ok_keys: "map fst es = map fst kvs \<Longrightarrow> map_ok es = map_ok kvs"
  by (simp add: map_ok_def)

lemma object_store:
  assumes "owns_all (map snd es) (map snd kvs) m" and "a \<notin> dom m" and "map fst es = map fst kvs" and "map_ok kvs"
    and "m(a \<mapsto> b) \<subseteq>\<^sub>m cells h" and "heap_ok h"
  shows "\<exists>h'. store h (Some a) (Object_Block es) = Some h' \<and>
    owns (NObject (Some a)) (JObject kvs) (m(a \<mapsto> Object_Block es)) \<and> becomes h (m(a \<mapsto> b)) h' (m(a \<mapsto> Object_Block es))"
  using store_block [OF assms(6,5), of a b] owns_owns_all.own_object [OF assms(1-4)] by auto

lemma subscript_key_owns:
  assumes n: "owns n (JObject kvs) m" and le: "m \<subseteq>\<^sub>m cells h" and ok: "heap_ok h"
  shows "\<exists>h' m'. subscript_key_node F n k h = Some (Inr (n, h')) \<and>
    owns n (JObject (map_insert k JNull kvs)) m' \<and> becomes h m h' m'"
  using n
proof (cases rule: owns_objectE)
  case (1 es m0 a)
  let ?i = "key_index k (map fst kvs)"
  have keys: "map fst (map_insert k NNull es) = map fst (map_insert k JNull kvs)"
    and own: "owns_all (map snd (map_insert k NNull es)) (map snd (map_insert k JNull kvs)) m0"
  proof -
    have "map fst (map_insert k NNull es) = map fst (map_insert k JNull kvs) \<and>
      owns_all (map snd (map_insert k NNull es)) (map snd (map_insert k JNull kvs)) m0"
    proof (cases "map_of kvs k")
      case None
      then have new: "map_insert k JNull kvs = take ?i kvs @ (k, JNull) # drop ?i kvs"
        "map_insert k NNull es = take ?i es @ (k, NNull) # drop ?i es"
        using same_keys_lookup [OF 1(5), of k] 1(5) by (simp_all add: map_insert_new)
      have "owns_all (take ?i (map snd es) @ drop ?i (map snd es)) (map snd kvs) m0" using 1(3) by simp
      from owns_all_split [OF this] obtain js1 js2 m1 m2 where s: "map snd kvs = js1 @ js2"
        "owns_all (take ?i (map snd es)) js1 m1" "owns_all (drop ?i (map snd es)) js2 m2" "m0 = m1 ++ m2"
        "dom m1 \<inter> dom m2 = {}" by blast
      have "length (take ?i (map snd es)) = length js1" by (rule owns_all_length [OF s(2)])
      moreover have "length es = length kvs" using 1(5) by (rule map_eq_imp_length_eq)
      moreover have "?i \<le> length kvs" using length_takeWhile_le [of _ "map fst kvs"] by (simp add: key_index_def)
      ultimately have "js1 = take ?i (map snd kvs)" "js2 = drop ?i (map snd kvs)" using s(1) by simp_all
      moreover have "owns_all (take ?i (map snd es) @ NNull # drop ?i (map snd es)) (js1 @ JNull # js2) (m1 ++ m2)"
        using owns_all_append [OF s(2) own_more [OF own_null s(3)]] s(5) by simp
      ultimately show ?thesis using 1(5) s(4) by (simp add: new take_map drop_map flip: take_map drop_map)
    next
      case (Some v)
      then obtain u where "map_of es k = Some u" using same_keys_lookup [OF 1(5), of k] by (cases "map_of es k") auto
      then show ?thesis using key_at [OF _ Some] key_at [of es k u] 1 map_ok_keys [OF 1(5)] by simp
    qed
    then show "map fst (map_insert k NNull es) = map fst (map_insert k JNull kvs)"
      "owns_all (map snd (map_insert k NNull es)) (map snd (map_insert k JNull kvs)) m0" by blast+
  qed
  have le': "m0(a \<mapsto> Object_Block es) \<subseteq>\<^sub>m cells h" using le 1 by simp
  from object_store [OF own 1(4) keys map_insert_ok [OF 1(6)] le' ok] show ?thesis
    using 1 map_leD [OF le, of a] by (auto simp: subscript_key_node_def null_to_def)
qed

lemma assign_member_owns:
  assumes n: "owns n (JObject kvs) m" and v: "owns v j mv" and d: "dom m \<inter> dom mv = {}"
    and le: "m \<subseteq>\<^sub>m cells h" "mv \<subseteq>\<^sub>m cells h" and ok: "heap_ok h" and k: "map_of kvs k = Some u"
  shows "\<exists>h' m'. assign_member n k v h = Some h' \<and> owns n (JObject (map_assign k j kvs)) m' \<and> becomes h (m ++ mv) h' m'"
  using n
proof (cases rule: owns_objectE)
  case (1 es m0 a)
  let ?i = "key_index k (map fst kvs)"
  obtain w where w: "map_of es k = Some w" using k same_keys_lookup [OF 1(5), of k] by (cases "map_of es k") auto
  have at: "?i < length es" "es ! ?i = (k, w)" "map_assign k v es = es[?i := (k, v)]"
    using key_at [OF _ w] map_ok_keys [OF 1(5)] 1(5,6) by auto
  have at': "map_assign k j kvs = kvs[?i := (k, j)]" using key_at [OF 1(6) k] by blast
  have le': "m0(a \<mapsto> Object_Block es) \<subseteq>\<^sub>m cells h" using le 1 by simp
  have d': "dom mv \<inter> dom (m0(a \<mapsto> Object_Block es)) = {}" using d 1 by auto
  have keys: "map fst (es[?i := (k, v)]) = map fst (kvs[?i := (k, j)])" using 1(5) by (simp add: map_update)
  have i: "?i < length (map snd es)" using at(1) by simp
  show ?thesis
  proof (rule destroy_and_store [OF 1(3) i 1(4) le' ok le(2) d'])
    fix h1 mr
    assume r: "destructor (map snd es ! ?i) h = Some h1"
      "\<And>b'. \<exists>h'. store h1 (Some a) b' = Some h' \<and> becomes h (m0(a \<mapsto> Object_Block es) ++ mv) h' ((mv ++ mr)(a \<mapsto> b'))"
      "a \<notin> dom (mv ++ mr)" "dom mv \<inter> dom mr = {}"
      "\<And>n j mn. owns n j mn \<Longrightarrow> dom mn \<inter> dom mr = {} \<Longrightarrow> owns_all ((map snd es)[?i := n]) ((map snd kvs)[?i := j]) (mn ++ mr)"
    from r(2) obtain h' where "store h1 (Some a) (Object_Block (es[?i := (k, v)])) = Some h'"
      "becomes h (m ++ mv) h' ((mv ++ mr)(a \<mapsto> Object_Block (es[?i := (k, v)])))" using 1 by blast
    moreover have "owns_all (map snd (es[?i := (k, v)])) (map snd (kvs[?i := (k, j)])) (mv ++ mr)"
      using r(5) [OF v r(4)] by (simp add: map_update)
    from own_object [OF this r(3) keys] map_assign_ok [OF 1(6), of k j]
    have "owns n (JObject (map_assign k j kvs)) ((mv ++ mr)(a \<mapsto> Object_Block (es[?i := (k, v)])))"
      by (simp add: at' 1(1))
    moreover have "destructor w h = Some h1" using r(1) at(1,2) by simp
    ultimately show ?thesis
      using 1(1) w at(3) map_le_block [OF le' 1(4)] by (auto simp: assign_member_def assign_node_def)
  qed
qed

lemma erase_key_owns:
  assumes n: "owns n (JObject kvs) m" and le: "m \<subseteq>\<^sub>m cells h" and ok: "heap_ok h"
  shows "\<exists>h' m'. erase_key_node n k h = Some (Inr h') \<and> owns n (JObject (map_erase k kvs)) m' \<and> becomes h m h' m'"
  using n
proof (cases rule: owns_objectE)
  case (1 es m0 a)
  have le': "m0(a \<mapsto> Object_Block es) \<subseteq>\<^sub>m cells h" using le 1 by simp
  let ?i = "key_index k (map fst kvs)"
  show ?thesis
  proof (cases "map_of kvs k")
    case None
    then have "map_erase k kvs = kvs" "map_erase k es = es"
      using same_keys_lookup [OF 1(5), of k] by (auto simp: map_erase_def map_of_eq_None_iff intro!: filter_True)
    moreover have "map_of es k = None" using None same_keys_lookup [OF 1(5)] by simp
    ultimately show ?thesis
      using object_store [OF 1(3-6) le' ok] 1 map_leD [OF le, of a] by (auto simp: erase_key_node_def)
  next
    case (Some u)
    then obtain w where w: "map_of es k = Some w" using same_keys_lookup [OF 1(5), of k] by (cases "map_of es k") auto
    let ?es = "take ?i es @ drop (Suc ?i) es"
    have at: "?i < length es" "es ! ?i = (k, w)" "map_erase k es = ?es"
      using key_at [OF _ w] map_ok_keys [OF 1(5)] 1(5,6) by auto
    have at': "map_erase k kvs = take ?i kvs @ drop (Suc ?i) kvs" using key_at [OF 1(6) Some] by blast
    have i: "?i < length (map snd es)" using at(1) by simp
    show ?thesis
    proof (rule destroy_and_store [OF 1(3) i 1(4) le' ok, of Map.empty])
      fix h1 mr
      assume r: "destructor (map snd es ! ?i) h = Some h1"
        "\<And>b'. \<exists>h'. store h1 (Some a) b' = Some h' \<and>
          becomes h (m0(a \<mapsto> Object_Block es) ++ Map.empty) h' ((Map.empty ++ mr)(a \<mapsto> b'))"
        "a \<notin> dom (Map.empty ++ mr)"
        "owns_all (take ?i (map snd es) @ drop (Suc ?i) (map snd es)) (take ?i (map snd kvs) @ drop (Suc ?i) (map snd kvs)) mr"
      from r(2) obtain h' where "store h1 (Some a) (Object_Block ?es) = Some h'"
        "becomes h m h' (mr(a \<mapsto> Object_Block ?es))" using 1 by fastforce
      moreover have "owns_all (map snd ?es) (map snd (map_erase k kvs)) mr" using r(4) by (simp add: at' take_map drop_map)
      moreover have "map fst ?es = map fst (map_erase k kvs)" using 1(5) by (simp add: at' flip: take_map drop_map)
      ultimately show ?thesis
        using 1(1) w at r(1,3) map_le_block [OF le' 1(4)]
          owns_owns_all.own_object [of ?es "map_erase k kvs" mr a] map_erase_ok [OF 1(6), of k]
        by (auto simp: erase_key_node_def)
    qed auto
  qed
qed

end
