(* ===== verification/Json_Program.thy ===== *)
theory Json_Program
  imports Json_Memory_Correct
begin

text \<open>
  Programs over variables of class \<open>basic_json\<close>: in memory they do what they do on values, they
  never touch memory that is not theirs, and they give back what they take.
\<close>

section \<open>Stores\<close>

lemma restrict_own: "f |` (- dom f) = Map.empty"
  by (auto simp: restrict_map_def fun_eq_iff domIff)

text \<open>The variables stand for the values, and own all the memory there is.\<close>

fun represents :: "'f json list \<Rightarrow> 'f store \<Rightarrow> bool" where
  "represents E (V, h) \<longleftrightarrow> heap_ok h \<and> owns_all V E (cells h)"

lemma represents_length: "represents E (V, h) \<Longrightarrow> length V = length E"
  by (auto dest: owns_all_length)

lemma represents_nth:
  assumes "represents E (V, h)" and "x < length E"
  obtains m where "owns (V ! x) (E ! x) m" "m \<subseteq>\<^sub>m cells h"
    "\<And>n j h' m'. owns n j m' \<Longrightarrow> becomes h m h' m' \<Longrightarrow> represents (E[x := j]) (V[x := n], h')"
proof -
  have o: "owns_all V E (cells h)" and x: "x < length V"
    using assms represents_length [OF assms(1)] by simp_all
  from owns_all_nth [OF o x] obtain m mr where m: "owns (V ! x) (E ! x) m" "cells h = m ++ mr" "dom m \<inter> dom mr = {}"
    and upd: "\<And>n j mn. owns n j mn \<Longrightarrow> dom mn \<inter> dom mr = {} \<Longrightarrow> owns_all (V[x := n]) (E[x := j]) (mn ++ mr)" by metis
  have le: "m \<subseteq>\<^sub>m cells h" "mr \<subseteq>\<^sub>m cells h" using map_le_parts [OF _ m(3), of "cells h"] m(2) by auto
  have "represents (E[x := j]) (V[x := n], h')" if n: "owns n j m'" "becomes h m h' m'" for n j h' m'
  proof -
    have d: "dom m' \<inter> dom mr = {}" by (rule becomes_disjoint [OF n(2) le(2) m(3)])
    have "becomes h (cells h) h' (m' ++ mr)" using becomes_frame [OF n(2) le(2) m(3)] m(2) by simp
    then have "cells h' = m' ++ mr" by (simp add: becomes_def restrict_own)
    then show ?thesis using upd [OF n(1) d] becomes_heap_ok [OF n(2)] by simp
  qed
  then show ?thesis by (rule that [OF m(1) le(1)])
qed

text \<open>A store and one more value, the argument of the operation at hand.\<close>

definition pending :: "'f node list \<Rightarrow> 'f json list \<Rightarrow> 'f json \<Rightarrow> ('f node \<times> 'f store) option \<Rightarrow> bool" where
  "pending V E j r \<longleftrightarrow> (\<exists>v h m mv. r = Some (v, V, h) \<and> owns_all V E m \<and> owns v j mv \<and>
     dom m \<inter> dom mv = {} \<and> cells h = m ++ mv \<and> heap_ok h)"

lemma pending_new:
  assumes "represents E (V, h)" and "owns v j mv" and "becomes h Map.empty h' mv"
  shows "pending V E j (Some (v, V, h'))"
proof -
  have d: "dom mv \<inter> dom (cells h) = {}" using becomes_disjoint [OF assms(3)] by simp
  have "becomes h (cells h) h' (mv ++ cells h)" using becomes_frame [OF assms(3)] by simp
  then have "cells h' = cells h ++ mv" using map_add_comm [OF d] by (simp add: becomes_def restrict_own)
  then show ?thesis using assms(1,2) becomes_heap_ok [OF assms(3)] d by (auto simp: pending_def)
qed

lemma copied_pending:
  assumes "represents E (V, h)" and "y < length E"
  shows "pending V E (E ! y) (copied y (V, h))"
proof -
  obtain m where m: "owns (V ! y) (E ! y) m" "m \<subseteq>\<^sub>m cells h" by (rule represents_nth [OF assms])
  from assms(1) have "heap_ok h" by simp
  from copy_owns [OF m this] obtain v h' mv where
    "copy_constructor (V ! y) h = Some (v, h')" "owns v (E ! y) mv" "becomes h Map.empty h' mv" by blast
  then show ?thesis using pending_new [OF assms(1)] represents_length [OF assms(1)] assms(2)
    by (simp add: copied_def variable_def)
qed

lemma owns_all_take:
  assumes "owns_all V E m" and "x < length V"
  obtains mx mr where "owns (V ! x) (E ! x) mx" "owns_all (V[x := NNull]) (E[x := JNull]) mr" "m = mr ++ mx"
    "dom mr \<inter> dom mx = {}"
proof -
  from owns_all_nth [OF assms] obtain mx mr where m: "owns (V ! x) (E ! x) mx" "m = mx ++ mr" "dom mx \<inter> dom mr = {}"
    and upd: "\<And>n j mn. owns n j mn \<Longrightarrow> dom mn \<inter> dom mr = {} \<Longrightarrow> owns_all (V[x := n]) (E[x := j]) (mn ++ mr)" by metis
  show ?thesis using that [OF m(1), of mr] upd [of NNull JNull Map.empty] m(2,3) map_add_comm [OF m(3)]
    by (auto simp: Int_commute)
qed

lemma owns_all_put:
  assumes "owns_all V E m" and "x < length V" and "V ! x = NNull" and "owns v j mv" and "dom m \<inter> dom mv = {}"
  shows "owns_all (V[x := v]) (E[x := j]) (m ++ mv)"
proof -
  from owns_all_nth [OF assms(1,2)] obtain mx mr where m: "owns (V ! x) (E ! x) mx" "m = mx ++ mr"
    and upd: "\<And>n j mn. owns n j mn \<Longrightarrow> dom mn \<inter> dom mr = {} \<Longrightarrow> owns_all (V[x := n]) (E[x := j]) (mn ++ mr)" by metis
  have "m = mr" using m assms(3) by simp
  then show ?thesis using upd [OF assms(4)] assms(5) map_add_comm [OF assms(5)] by (simp add: Int_commute)
qed

lemma moved_pending:
  assumes "represents E (V, h)" and "y < length E"
  shows "pending (V[y := NNull]) (E[y := JNull]) (E ! y) (moved y (V, h))"
proof -
  have o: "owns_all V E (cells h)" "heap_ok h" and y: "y < length V"
    using assms represents_length [OF assms(1)] by simp_all
  from owns_all_take [OF o(1) y] obtain mx mr where "owns (V ! y) (E ! y) mx"
    "owns_all (V[y := NNull]) (E[y := JNull]) mr" "cells h = mr ++ mx" "dom mr \<inter> dom mx = {}" .
  then show ?thesis using y o(2) by (auto simp: pending_def moved_def variable_def move_constructor_def)
qed

section \<open>Statements\<close>

definition succeeds :: "'f json list \<Rightarrow> 'f store parse_result \<Rightarrow> bool" where
  "succeeds E r \<longleftrightarrow> (\<exists>V h. r = Some (Inr (V, h)) \<and> represents E (V, h))"

lemma declare_succeeds: "pending V E j r \<Longrightarrow> succeeds (E @ [j]) (declare_var r)"
  using owns_all_append [OF _ owns_all_single]
  by (fastforce simp: pending_def succeeds_def declare_var_def)

lemma assign_succeeds:
  assumes "pending V E j r" and "x < length E"
  shows "succeeds (E[x := j]) (assign_var x r)"
proof -
  from assms(1) obtain v h m mv where r: "r = Some (v, V, h)" "owns_all V E m" "owns v j mv" "dom m \<inter> dom mv = {}"
    "cells h = m ++ mv" "heap_ok h" by (auto simp: pending_def)
  have x: "x < length V" using assms(2) owns_all_length [OF r(2)] by simp
  from owns_all_take [OF r(2) x] obtain mx mr where m: "owns (V ! x) (E ! x) mx"
    "owns_all (V[x := NNull]) (E[x := JNull]) mr" "m = mr ++ mx" "dom mr \<inter> dom mx = {}" .
  have d: "dom mr \<inter> dom mv = {}" "dom mx \<inter> dom (mr ++ mv) = {}" using r(4) m(3,4) by auto
  have c: "cells h = mx ++ (mr ++ mv)" using r(5) m(3) map_add_comm [OF m(4)] by simp
  have "mx \<subseteq>\<^sub>m cells h" using map_le_parts [OF _ d(2), of "cells h"] c by simp
  from destroy_owns [OF m(1) this r(6)] have "destructor (V ! x) h = Some (without h mx)" .
  moreover have "cells (without h mx) = mr ++ mv"
    using d(2) c by (auto simp: restrict_map_def map_add_def fun_eq_iff split: option.splits)
  ultimately show ?thesis using owns_all_put [OF m(2) _ _ r(3) d(1), of x] r(6) x
    by (auto simp: succeeds_def assign_var_def r(1) variable_def assign_node_def)
qed

lemma swap_succeeds:
  assumes "represents E (V, h)" and "x < length E" and "y < length E"
  shows "succeeds (E[x := E ! y, y := E ! x]) (swap_vars x y (V, h))"
proof -
  have o: "owns_all V E (cells h)" "heap_ok h" and xy: "x < length V" "y < length V" and len: "length E = length V"
    using assms represents_length [OF assms(1)] by simp_all
  have "owns_all (V[x := V ! y, y := V ! x]) (E[x := E ! y, y := E ! x]) (cells h)"
  proof (cases "x = y")
    case False
    from owns_all_take [OF o(1) xy(1)] obtain mx mr where m: "owns (V ! x) (E ! x) mx"
      "owns_all (V[x := NNull]) (E[x := JNull]) mr" "cells h = mr ++ mx" "dom mr \<inter> dom mx = {}" .
    from owns_all_take [OF m(2), of y] obtain my ms where n: "owns (V ! y) (E ! y) my"
      "owns_all (V[x := NNull, y := NNull]) (E[x := JNull, y := JNull]) ms" "mr = ms ++ my" "dom ms \<inter> dom my = {}"
      using xy(2) False by auto
    have d: "dom ms \<inter> dom mx = {}" "dom (ms ++ mx) \<inter> dom my = {}" "dom my \<inter> dom mx = {}" using m(4) n(3,4) by auto
    have "owns_all (V[x := NNull, y := NNull, y := V ! x]) (E[x := JNull, y := JNull, y := E ! x]) (ms ++ mx)"
      using owns_all_put [OF n(2) _ _ m(1) d(1), of y] xy by simp
    from owns_all_put [OF this _ _ n(1) d(2), of x] xy False
    have "owns_all (V[x := V ! y, y := V ! x]) (E[x := E ! y, y := E ! x]) (ms ++ mx ++ my)"
      by (simp add: list_update_swap)
    then show ?thesis using m(3) n(3) map_add_comm [OF d(3)] by (metis map_add_assoc)
  qed (use o in simp)
  then show ?thesis using o(2) xy by (simp add: succeeds_def swap_vars_def variable_def)
qed

text \<open>In memory a statement does what it does on values.\<close>

definition refines :: "'f store parse_result \<Rightarrow> json_exn + 'f json list \<Rightarrow> bool" where
  "refines r t \<longleftrightarrow> (case t of Inl e \<Rightarrow> r = Some (Inl e) | Inr E \<Rightarrow> succeeds E r)"

text \<open>What an operation does to \<open>*this\<close> before it reads its argument.\<close>

definition begins ::
    "('f node \<times> 'f memory) parse_result \<Rightarrow> json_exn + 'f json \<Rightarrow> 'f memory \<Rightarrow> (addr \<rightharpoonup> 'f block) \<Rightarrow> bool" where
  "begins r t h m \<longleftrightarrow> (case t of
     Inl e \<Rightarrow> r = Some (Inl e)
   | Inr j \<Rightarrow> \<exists>n h' m'. r = Some (Inr (n, h')) \<and> owns n j m' \<and> becomes h m h' m')"

lemma null_to_begins:
  assumes o: "owns n j m" and le: "m \<subseteq>\<^sub>m cells h" and ok: "heap_ok h" and null: "is_null j"
    and r: "\<And>n h m. owns n (json_value F t) m \<Longrightarrow> m \<subseteq>\<^sub>m cells h \<Longrightarrow> heap_ok h \<Longrightarrow> n \<noteq> NNull \<Longrightarrow> begins (op n h) u h m"
    and t: "json_value F t \<noteq> JNull"
    and op: "\<And>n n1 h h1. null_to F t n h = Some (n1, h1) \<Longrightarrow> n1 \<noteq> NNull \<Longrightarrow> op n h = op n1 h1"
  shows "begins (op n h) u h m"
proof -
  from null_to_owns [OF o le ok, of F t] null obtain n1 h1 m1 where n: "null_to F t n h = Some (n1, h1)"
    "owns n1 (json_value F t) m1" "becomes h m h1 m1" by (auto simp: transforms_def)
  have n1: "n1 \<noteq> NNull" using n(2) t by auto
  from r [OF n(2) becomes_owned [OF n(3)] becomes_heap_ok [OF n(3)] n1] op [OF n(1) n1]
  have "begins (op n h) u h1 m1" by simp
  then show ?thesis using becomes_trans [OF n(3)] by (fastforce simp: begins_def split: sum.splits)
qed

lemma null_to_same: "n \<noteq> NNull \<Longrightarrow> null_to F t n h = Some (n, h)"
  by (simp add: null_to_def)

lemma push_begins:
  assumes o: "owns n j m" and le: "m \<subseteq>\<^sub>m cells h" and ok: "heap_ok h"
  shows "begins (push_back_begin F n h)
    (if is_null j then Inr (JArray []) else if is_array j then Inr j else Inl (cannot_use ''push_back()'' j)) h m"
proof (cases "is_null j \<or> is_array j")
  case True
  then have "json_value F t_array = JArray []" by simp
  with null_to_owns [OF o le ok, of F t_array] True show ?thesis
    by (auto simp: begins_def push_back_begin_def transforms_def owns_type [OF o] is_null_def is_array_def)
next
  case False
  then show ?thesis
    by (simp add: begins_def push_back_begin_def owns_type [OF o] owns_cannot_use [OF o] is_null_def is_array_def)
qed

lemma subscript_index_begins:
  assumes o: "owns n j m" and le: "m \<subseteq>\<^sub>m cells h" and ok: "heap_ok h"
  shows "begins (subscript_index_node F n idx h) (map_sum id fst (subscript_index j idx)) h m"
proof -
  have arr: "begins (subscript_index_node F n idx h) (map_sum id fst (subscript_index (JArray js) idx)) h m"
    if "owns n (JArray js) m" "m \<subseteq>\<^sub>m cells h" "heap_ok h" for n js m h
    using subscript_index_owns [OF that, of F idx] by (auto simp: begins_def subscript_index_def is_null_def Let_def)
  have op: "subscript_index_node F n idx h = subscript_index_node F n1 idx h1"
    if "null_to F t_array n h = Some (n1, h1)" "n1 \<noteq> NNull" for n n1 h h1
    using that by (simp add: subscript_index_node_def null_to_same)
  show ?thesis
  proof (cases "is_null j")
    case True
    then have "subscript_index j idx = subscript_index (JArray []) idx" by (simp add: subscript_index_def is_null_def Let_def)
    moreover have "begins (subscript_index_node F n idx h) (map_sum id fst (subscript_index (JArray []) idx)) h m"
      by (rule null_to_begins [OF o le ok True, where F = F and t = t_array and op = "\<lambda>n. subscript_index_node F n idx"])
        (auto intro: arr op)
    ultimately show ?thesis by simp
  next
    case False
    show ?thesis
    proof (cases "\<exists>js. j = JArray js")
      case True
      then show ?thesis using arr o le ok by blast
    next
      case no: False
      then show ?thesis using False owns_type [OF o] owns_cannot_use [OF o]
        by (cases n; cases j) (auto simp: begins_def subscript_index_node_def null_to_def subscript_index_def is_null_def)
    qed
  qed
qed

lemma subscript_key_begins:
  assumes o: "owns n j m" and le: "m \<subseteq>\<^sub>m cells h" and ok: "heap_ok h"
  shows "begins (subscript_key_node F n k h) (map_sum id fst (subscript_key j k)) h m"
proof -
  have obj: "begins (subscript_key_node F n k h) (map_sum id fst (subscript_key (JObject kvs) k)) h m"
    if "owns n (JObject kvs) m" "m \<subseteq>\<^sub>m cells h" "heap_ok h" for n kvs m h
    using subscript_key_owns [OF that, of F k] by (auto simp: begins_def subscript_key_def is_null_def Let_def)
  have op: "subscript_key_node F n k h = subscript_key_node F n1 k h1"
    if "null_to F t_object n h = Some (n1, h1)" "n1 \<noteq> NNull" for n n1 h h1
    using that by (simp add: subscript_key_node_def null_to_same)
  show ?thesis
  proof (cases "is_null j")
    case True
    then have "subscript_key j k = subscript_key (JObject []) k" by (simp add: subscript_key_def is_null_def Let_def)
    moreover have "begins (subscript_key_node F n k h) (map_sum id fst (subscript_key (JObject []) k)) h m"
      by (rule null_to_begins [OF o le ok True, where F = F and t = t_object and op = "\<lambda>n. subscript_key_node F n k"])
        (auto intro: obj op)
    ultimately show ?thesis by simp
  next
    case False
    show ?thesis
    proof (cases "\<exists>kvs. j = JObject kvs")
      case True
      then show ?thesis using obj o le ok by blast
    next
      case no: False
      then show ?thesis using False owns_type [OF o] owns_cannot_use [OF o]
        by (cases n; cases j) (auto simp: begins_def subscript_key_node_def null_to_def subscript_key_def is_null_def)
    qed
  qed
qed

text \<open>The argument: a copy of variable \<open>y\<close>, or its content; variable \<open>x\<close> stays as it is.\<close>

definition takes ::
    "('f store \<Rightarrow> ('f node \<times> 'f store) option) \<Rightarrow> nat \<Rightarrow> nat \<Rightarrow> ('f json list \<Rightarrow> 'f json list) \<Rightarrow> bool" where
  "takes arg x y u \<longleftrightarrow> (\<forall>E V h. represents E (V, h) \<longrightarrow> y < length E \<longrightarrow>
     (\<exists>V'. V' ! x = V ! x \<and> u E ! x = E ! x \<and> length (u E) = length E \<and> pending V' (u E) (E ! y) (arg (V, h))))"

lemma copied_takes: "takes (copied y) x y (\<lambda>E. E)"
  unfolding takes_def using copied_pending by blast

lemma moved_takes: "x \<noteq> y \<Longrightarrow> takes (moved y) x y (\<lambda>E. E[y := JNull])"
  unfolding takes_def using moved_pending by (metis length_list_update nth_list_update_neq)

text \<open>The operation proper, on \<open>*this\<close> and the argument.\<close>

lemma finish:
  assumes p: "pending V E j r" and x: "x < length E" and n: "V ! x = n"
    and op: "\<And>v m mv h. owns n (E ! x) m \<Longrightarrow> owns v j mv \<Longrightarrow> dom m \<inter> dom mv = {} \<Longrightarrow> m \<subseteq>\<^sub>m cells h \<Longrightarrow>
      mv \<subseteq>\<^sub>m cells h \<Longrightarrow> heap_ok h \<Longrightarrow> \<exists>h' m'. op v h = Some h' \<and> owns n j' m' \<and> becomes h (m ++ mv) h' m'"
  shows "succeeds (E[x := j']) (do { (v, V, h) \<leftarrow> r; h \<leftarrow> op v h; Some (Inr (V, h)) })"
proof -
  from p obtain v h m mv where r: "r = Some (v, V, h)" "owns_all V E m" "owns v j mv" "dom m \<inter> dom mv = {}"
    "cells h = m ++ mv" "heap_ok h" by (auto simp: pending_def)
  have xV: "x < length V" using x owns_all_length [OF r(2)] by simp
  from owns_all_take [OF r(2) xV] obtain mx mr where m: "owns (V ! x) (E ! x) mx"
    "owns_all (V[x := NNull]) (E[x := JNull]) mr" "m = mr ++ mx" "dom mr \<inter> dom mx = {}" .
  have d: "dom mx \<inter> dom mv = {}" "dom (mx ++ mv) \<inter> dom mr = {}" using r(4) m(3,4) by auto
  have c: "cells h = mx ++ mv ++ mr" using r(5) m(3) map_add_comm [of mr "mx ++ mv"] d(2) by (simp add: Int_commute)
  then have le: "mx ++ mv \<subseteq>\<^sub>m cells h" "mr \<subseteq>\<^sub>m cells h" using map_le_parts [OF _ d(2), of "cells h"] by simp_all
  from op [OF m(1) [unfolded n] r(3) d(1) _ _ r(6)] map_le_parts [OF le(1) d(1)]
  obtain h' m' where h': "op v h = Some h'" "owns n j' m'" "becomes h (mx ++ mv) h' m'" by blast
  have d': "dom mr \<inter> dom m' = {}" using becomes_disjoint [OF h'(3) le(2) d(2)] by (simp add: Int_commute)
  have "becomes h (cells h) h' (m' ++ mr)" using becomes_frame [OF h'(3) le(2) d(2)] c by simp
  then have "cells h' = mr ++ m'" using map_add_comm [OF d'] by (simp add: becomes_def restrict_own)
  moreover have "V[x := n] = V" using n list_update_id [of V x] by simp
  then have "owns_all V (E[x := j']) (mr ++ m')"
    using owns_all_put [OF m(2) _ _ h'(2) d', of x] xV by simp
  ultimately show ?thesis using r(1) h'(1) becomes_heap_ok [OF h'(3)] by (simp add: succeeds_def)
qed

text \<open>An operation on variable \<open>x\<close> with an argument, as a whole.\<close>

lemma update_exec:
  assumes rep: "represents E (V, h)" and x: "x < length E" and y: "y < length E" and arg: "takes arg x y u"
    and b: "\<And>m. owns (V ! x) (E ! x) m \<Longrightarrow> m \<subseteq>\<^sub>m cells h \<Longrightarrow> heap_ok h \<Longrightarrow> begins (start (V ! x) h) t h m"
    and op: "\<And>n j v m mv h. t = Inr j \<Longrightarrow> owns n j m \<Longrightarrow> owns v (E[x := j] ! y) mv \<Longrightarrow> dom m \<inter> dom mv = {} \<Longrightarrow> m \<subseteq>\<^sub>m cells h \<Longrightarrow>
      mv \<subseteq>\<^sub>m cells h \<Longrightarrow> heap_ok h \<Longrightarrow> \<exists>h' m'. op n v h = Some h' \<and> owns n (f j) m' \<and> becomes h (m ++ mv) h' m'"
  shows "refines
      (and_then (start (V ! x) h) (\<lambda>(n, h). do { (v, V, h) \<leftarrow> arg (V[x := n], h); h \<leftarrow> op n v h; Some (Inr (V, h)) }))
      (case t of Inl e \<Rightarrow> Inl e | Inr j \<Rightarrow> Inr ((u (E[x := j]))[x := f j]))"
proof -
  obtain m where m: "owns (V ! x) (E ! x) m" "m \<subseteq>\<^sub>m cells h"
    and upd: "\<And>n j h' m'. owns n j m' \<Longrightarrow> becomes h m h' m' \<Longrightarrow> represents (E[x := j]) (V[x := n], h')"
    by (rule represents_nth [OF rep x], rule that)
  have b: "begins (start (V ! x) h) t h m" using b [OF m] rep by simp
  show ?thesis
  proof (cases t)
    case (Inl e)
    then show ?thesis using b by (simp add: begins_def refines_def)
  next
    case (Inr j)
    with b obtain n h' m' where n: "start (V ! x) h = Some (Inr (n, h'))" "owns n j m'" "becomes h m h' m'"
      by (auto simp: begins_def)
    from upd [OF n(2,3)] have rep': "represents (E[x := j]) (V[x := n], h')" .
    from arg rep' y obtain V' where V': "V' ! x = V[x := n] ! x" "u (E[x := j]) ! x = E[x := j] ! x"
      "length (u (E[x := j])) = length E" "pending V' (u (E[x := j])) (E[x := j] ! y) (arg (V[x := n], h'))"
      unfolding takes_def by (metis length_list_update)
    have at: "V' ! x = n" "u (E[x := j]) ! x = j" "x < length (u (E[x := j]))"
      using V' x represents_length [OF rep] by simp_all
    have "succeeds ((u (E[x := j]))[x := f j]) (do { (v, V, h) \<leftarrow> arg (V[x := n], h'); h \<leftarrow> op n v h; Some (Inr (V, h)) })"
      by (rule finish [OF V'(4) at(3,1)]) (use op [OF Inr] at(2) in auto)
    then show ?thesis using Inr n(1) by (simp add: refines_def)
  qed
qed

lemma push_exec:
  assumes rep: "represents E (V, h)" and x: "x < length E" and y: "y < length E" and arg: "takes arg x y u"
  shows "refines (push_var F x arg (V, h))
    (if is_null (E ! x) then let E = E[x := JArray []] in Inr ((u E)[x := JArray [E ! y]])
     else case E ! x of JArray js \<Rightarrow> Inr ((u E)[x := JArray (js @ [E ! y])])
       | j \<Rightarrow> Inl (cannot_use ''push_back()'' j))"
proof -
  let ?t = "if is_null (E ! x) then Inr (JArray []) else if is_array (E ! x) then Inr (E ! x)
    else Inl (cannot_use ''push_back()'' (E ! x))"
  let ?f = "\<lambda>j. case j of JArray js \<Rightarrow> JArray (js @ [E[x := j] ! y]) | _ \<Rightarrow> j"
  have "refines (and_then (push_back_begin F (V ! x) h) (\<lambda>(n, h). do {
      (v, V, h) \<leftarrow> arg (V[x := n], h); h \<leftarrow> push_element n v h; Some (Inr (V, h)) }))
    (case ?t of Inl e \<Rightarrow> Inl e | Inr j \<Rightarrow> Inr ((u (E[x := j]))[x := ?f j]))"
  proof (rule update_exec [OF rep x y arg])
    show "begins (push_back_begin F (V ! x) h) ?t h m" if "owns (V ! x) (E ! x) m" "m \<subseteq>\<^sub>m cells h" "heap_ok h" for m
      by (rule push_begins [OF that])
    fix n j v m mv and h :: "_ memory"
    assume a: "?t = Inr j" "owns n j m" "owns v (E[x := j] ! y) mv" "dom m \<inter> dom mv = {}" "m \<subseteq>\<^sub>m cells h"
      "mv \<subseteq>\<^sub>m cells h" "heap_ok h"
    then obtain js where "j = JArray js" by (cases "E ! x") (auto simp: is_null_def is_array_def)
    then show "\<exists>h' m'. push_element n v h = Some h' \<and> owns n (?f j) m' \<and> becomes h (m ++ mv) h' m'"
      using push_owns [OF _ a(3-7)] a(2) by simp
  qed
  then show ?thesis using represents_length [OF rep] x list_update_id [of E x]
    by (cases "E ! x") (auto simp: is_null_def is_array_def Let_def push_var_def variable_def)
qed

lemma set_index_exec:
  assumes rep: "represents E (V, h)" and x: "x < length E" and y: "y < length E" and arg: "takes arg x y u"
  shows "refines (set_index_var F x idx arg (V, h)) (case subscript_index (E ! x) idx of
      Inl e \<Rightarrow> Inl e
    | Inr (j, _) \<Rightarrow> update_var x (set_element j idx (E[x := j] ! y)) (u (E[x := j])))"
proof -
  let ?f = "\<lambda>j. case j of JArray js \<Rightarrow> JArray (js[idx := E[x := j] ! y]) | _ \<Rightarrow> j"
  have at: "\<exists>js. j = JArray js \<and> idx < length js" if "subscript_index (E ! x) idx = Inr (j, v)" for j v
    using that by (auto simp: subscript_index_def Let_def split: json.splits if_splits)
  have "refines (and_then (subscript_index_node F (V ! x) idx h) (\<lambda>(n, h). do {
      (v, V, h) \<leftarrow> arg (V[x := n], h); h \<leftarrow> assign_element n idx v h; Some (Inr (V, h)) }))
    (case map_sum id fst (subscript_index (E ! x) idx) of Inl e \<Rightarrow> Inl e | Inr j \<Rightarrow> Inr ((u (E[x := j]))[x := ?f j]))"
  proof (rule update_exec [OF rep x y arg])
    show "begins (subscript_index_node F (V ! x) idx h) (map_sum id fst (subscript_index (E ! x) idx)) h m"
      if "owns (V ! x) (E ! x) m" "m \<subseteq>\<^sub>m cells h" "heap_ok h" for m
      by (rule subscript_index_begins [OF that])
    fix n j v m mv and h :: "_ memory"
    assume a: "map_sum id fst (subscript_index (E ! x) idx) = Inr j" "owns n j m" "owns v (E[x := j] ! y) mv"
      "dom m \<inter> dom mv = {}" "m \<subseteq>\<^sub>m cells h" "mv \<subseteq>\<^sub>m cells h" "heap_ok h"
    from a(1) obtain js where "j = JArray js" "idx < length js"
      using at by (cases "subscript_index (E ! x) idx") auto
    then show "\<exists>h' m'. assign_element n idx v h = Some h' \<and> owns n (?f j) m' \<and> becomes h (m ++ mv) h' m'"
      using assign_element_owns [OF _ a(3-7)] a(2) by simp
  qed
  moreover have "set_element j idx v = Inr (case j of JArray js \<Rightarrow> JArray (js[idx := v]) | _ \<Rightarrow> j)"
    if "subscript_index (E ! x) idx = Inr (j, w)" for j v w
    using at [OF that] by (auto simp: set_element_def subscript_index_def is_null_def Let_def)
  ultimately show ?thesis using represents_length [OF rep] x
    by (cases "subscript_index (E ! x) idx") (auto simp: set_index_var_def variable_def update_var_def dest!: at)
qed

lemma set_key_exec:
  assumes rep: "represents E (V, h)" and x: "x < length E" and y: "y < length E" and arg: "takes arg x y u"
  shows "refines (set_key_var F x k arg (V, h)) (case subscript_key (E ! x) k of
      Inl e \<Rightarrow> Inl e
    | Inr (j, _) \<Rightarrow> update_var x (set_key j k (E[x := j] ! y)) (u (E[x := j])))"
proof -
  let ?f = "\<lambda>j. case j of JObject kvs \<Rightarrow> JObject (map_assign k (E[x := j] ! y) kvs) | _ \<Rightarrow> j"
  have own: "\<exists>m. owns (V ! x) (E ! x) m" by (rule represents_nth [OF rep x]) blast
  have at: "\<exists>kvs w. j = JObject kvs \<and> map_of kvs k = Some w \<and> map_insert k JNull kvs = kvs"
    if j: "subscript_key (E ! x) k = Inr (j, v)" for j v
  proof -
    obtain kvs where kvs: "map_ok kvs" "j = JObject (map_insert k JNull kvs)"
    proof (cases "is_null (E ! x)")
      case True
      then show ?thesis using that [of "[]"] j by (auto simp: subscript_key_def Let_def)
    next
      case False
      with j obtain kvs where "E ! x = JObject kvs" "j = JObject (map_insert k JNull kvs)"
        by (cases "E ! x") (auto simp: subscript_key_def Let_def)
      then show ?thesis using own that [of kvs] by (auto elim: owns_objectE)
    qed
    have "map_of (map_insert k JNull kvs) k \<noteq> None" using map_insert_lookup [OF kvs(1), of k JNull] by (auto split: option.splits)
    then show ?thesis using kvs(2) key_at [OF map_insert_ok [OF kvs(1)]] by blast
  qed
  have "refines (and_then (subscript_key_node F (V ! x) k h) (\<lambda>(n, h). do {
      (v, V, h) \<leftarrow> arg (V[x := n], h); h \<leftarrow> assign_member n k v h; Some (Inr (V, h)) }))
    (case map_sum id fst (subscript_key (E ! x) k) of Inl e \<Rightarrow> Inl e | Inr j \<Rightarrow> Inr ((u (E[x := j]))[x := ?f j]))"
  proof (rule update_exec [OF rep x y arg])
    show "begins (subscript_key_node F (V ! x) k h) (map_sum id fst (subscript_key (E ! x) k)) h m"
      if "owns (V ! x) (E ! x) m" "m \<subseteq>\<^sub>m cells h" "heap_ok h" for m
      by (rule subscript_key_begins [OF that])
    fix n j v m mv and h :: "_ memory"
    assume a: "map_sum id fst (subscript_key (E ! x) k) = Inr j" "owns n j m" "owns v (E[x := j] ! y) mv"
      "dom m \<inter> dom mv = {}" "m \<subseteq>\<^sub>m cells h" "mv \<subseteq>\<^sub>m cells h" "heap_ok h"
    from a(1) obtain kvs w where "j = JObject kvs" "map_of kvs k = Some w"
      using at by (cases "subscript_key (E ! x) k") auto
    then show "\<exists>h' m'. assign_member n k v h = Some h' \<and> owns n (?f j) m' \<and> becomes h (m ++ mv) h' m'"
      using assign_member_owns [OF _ a(3-7)] a(2) by simp
  qed
  moreover have "set_key j k v = Inr (case j of JObject kvs \<Rightarrow> JObject (map_assign k v kvs) | _ \<Rightarrow> j)"
    if "subscript_key (E ! x) k = Inr (j, w)" for j v w
    using at [OF that] by (auto simp: set_key_def subscript_key_def is_null_def Let_def)
  ultimately show ?thesis using represents_length [OF rep] x
    by (cases "subscript_key (E ! x) k") (auto simp: set_key_var_def variable_def update_var_def dest!: at)
qed

lemma update_twice: "x \<noteq> y \<Longrightarrow> xs[x := a, y := b, x := c] = xs[y := b, x := c]"
  by (metis list_update_overwrite list_update_swap)

lemma restrict_second:
  assumes "dom m1 \<inter> dom m2 = {}"
  shows "(m1 ++ m2) |` (- dom m2) = m1"
proof (rule ext)
  fix a
  show "((m1 ++ m2) |` (- dom m2)) a = m1 a"
    using assms by (cases "m1 a"; cases "m2 a") (auto simp: restrict_map_def map_add_def)
qed

lemma scope_end_succeeds:
  assumes "represents E (V, h)" and "E \<noteq> []"
  shows "succeeds (butlast E) (scope_end (V, h))"
proof -
  have o: "owns_all V E (cells h)" "heap_ok h" "V \<noteq> []" using assms by (auto dest: owns_all_length)
  from o(1,3) have "owns_all (butlast V @ [last V]) E (cells h)" by simp
  from owns_all_split [OF this] obtain E1 E2 m1 m2 where e: "E = E1 @ E2" "owns_all (butlast V) E1 m1"
    "owns_all [last V] E2 m2" "cells h = m1 ++ m2" "dom m1 \<inter> dom m2 = {}" by blast
  from owns_all_drop_one [OF e(3)] obtain j where j: "E2 = [j]" "owns (last V) j m2" by blast
  have "m2 \<subseteq>\<^sub>m cells h" using e(4) by simp
  from destroy_owns [OF j(2) this o(2)] have "destructor (last V) h = Some (without h m2)" .
  moreover have "cells (without h m2) = m1"
    using e(4) restrict_second [OF e(5)] by simp
  ultimately show ?thesis using e(1,2) j(1) o(2,3) by (simp add: succeeds_def scope_end_def)
qed

lemma clear_succeeds:
  assumes rep: "represents E (V, h)" and x: "x < length E"
  shows "succeeds (E[x := clear F (E ! x)]) (exec F (Clear x) (V, h))"
proof -
  obtain m where m: "owns (V ! x) (E ! x) m" "m \<subseteq>\<^sub>m cells h"
    and upd: "\<And>n j h' m'. owns n j m' \<Longrightarrow> becomes h m h' m' \<Longrightarrow> represents (E[x := j]) (V[x := n], h')"
    by (rule represents_nth [OF rep x], rule that)
  from rep clear_owns [OF m, of F] obtain n h' m' where "clear_node F (V ! x) h = Some (n, h')"
    "owns n (clear F (E ! x)) m'" "becomes h m h' m'" by (auto simp: transforms_def)
  then show ?thesis using upd represents_length [OF rep] x by (auto simp: succeeds_def variable_def)
qed

lemma erase_key_exec:
  assumes rep: "represents E (V, h)" and x: "x < length E"
  shows "refines (exec F (Erase_Key x k) (V, h)) (value_exec F (Erase_Key x k) E)"
proof -
  obtain m where m: "owns (V ! x) (E ! x) m" "m \<subseteq>\<^sub>m cells h"
    and upd: "\<And>n j h' m'. owns n j m' \<Longrightarrow> becomes h m h' m' \<Longrightarrow> represents (E[x := j]) (V[x := n], h')"
    by (rule represents_nth [OF rep x], rule that)
  show ?thesis
  proof (cases "\<exists>kvs. E ! x = JObject kvs")
    case True
    then obtain kvs where kvs: "E ! x = JObject kvs" by blast
    from erase_key_owns [OF m(1) [unfolded kvs] m(2), of k] rep obtain h' m' where
      "erase_key_node (V ! x) k h = Some (Inr h')" "owns (V ! x) (JObject (map_erase k kvs)) m'" "becomes h m h' m'" by auto
    then show ?thesis using upd [of "V ! x"] represents_length [OF rep] x kvs
      by (auto simp: refines_def succeeds_def variable_def erase_key_def)
  next
    case False
    then have "erase_key_node (V ! x) k h = Some (Inl (cannot_use ''erase()'' (E ! x)))"
      using owns_type [OF m(1)] owns_cannot_use [OF m(1)] by (cases "V ! x"; cases "E ! x") (auto simp: erase_key_node_def)
    moreover have "erase_key (E ! x) k = Inl (cannot_use ''erase()'' (E ! x))"
      using False by (cases "E ! x") (auto simp: erase_key_def)
    ultimately show ?thesis using represents_length [OF rep] x by (simp add: refines_def variable_def)
  qed
qed

lemma erase_index_exec:
  assumes rep: "represents E (V, h)" and x: "x < length E"
  shows "refines (exec F (Erase_Index x idx) (V, h)) (value_exec F (Erase_Index x idx) E)"
proof -
  obtain m where m: "owns (V ! x) (E ! x) m" "m \<subseteq>\<^sub>m cells h"
    and upd: "\<And>n j h' m'. owns n j m' \<Longrightarrow> becomes h m h' m' \<Longrightarrow> represents (E[x := j]) (V[x := n], h')"
    by (rule represents_nth [OF rep x], rule that)
  show ?thesis
  proof (cases "\<exists>js. E ! x = JArray js")
    case True
    then obtain js where js: "E ! x = JArray js" by blast
    show ?thesis
    proof (cases "idx < length js")
      case True
      from erase_index_owns [OF m(1) [unfolded js] m(2) _ True] rep obtain h' m' where
        "erase_index_node (V ! x) idx h = Some (Inr h')"
        "owns (V ! x) (JArray (take idx js @ drop (Suc idx) js)) m'" "becomes h m h' m'" by auto
      then show ?thesis using True upd [of "V ! x"] represents_length [OF rep] x js
        by (auto simp: refines_def succeeds_def variable_def erase_index_def update_var_def)
    next
      case False
      have "erase_index_node (V ! x) idx h = Some (Inl (Out_Of_Range_Error ''index out of range''))"
        using m js False by (auto elim!: owns_arrayE simp: erase_index_node_def map_leD owns_all_length)
      then show ?thesis using False represents_length [OF rep] x js
        by (simp add: refines_def variable_def erase_index_def update_var_def)
    qed
  next
    case False
    then have "erase_index_node (V ! x) idx h = Some (Inl (cannot_use ''erase()'' (E ! x)))"
      using owns_type [OF m(1)] owns_cannot_use [OF m(1)] by (cases "V ! x"; cases "E ! x") (auto simp: erase_index_node_def)
    moreover have "erase_index (E ! x) idx = Inl (cannot_use ''erase()'' (E ! x))"
      using False by (cases "E ! x") (auto simp: erase_index_def)
    ultimately show ?thesis using represents_length [OF rep] x by (simp add: refines_def variable_def update_var_def)
  qed
qed

section \<open>Programs\<close>

lemma push_back_value:
  "x < length E \<Longrightarrow> value_exec F (Push_Back x y) E =
    (if is_null (E ! x) then let E = E[x := JArray []] in Inr (E[x := JArray [E ! y]])
     else case E ! x of JArray js \<Rightarrow> Inr (E[x := JArray (js @ [E ! y])])
       | j \<Rightarrow> Inl (cannot_use ''push_back()'' j))"
  by (cases "E ! x") (auto simp: is_null_def is_array_def Let_def push_back_def update_var_def)

lemma push_back_move_value:
  "x < length E \<Longrightarrow> x \<noteq> y \<Longrightarrow> value_exec F (Push_Back_Move x y) E =
    (if is_null (E ! x) then let E = E[x := JArray []] in Inr (E[y := JNull, x := JArray [E ! y]])
     else case E ! x of JArray js \<Rightarrow> Inr (E[y := JNull, x := JArray (js @ [E ! y])])
       | j \<Rightarrow> Inl (cannot_use ''push_back()'' j))"
  by (cases "E ! x") (auto simp: is_null_def is_array_def Let_def push_back_move_def update_twice)

lemma set_index_value:
  "x < length E \<Longrightarrow> value_exec F (Set_Index x idx y) E = (case subscript_index (E ! x) idx of
      Inl e \<Rightarrow> Inl e
    | Inr (j, _) \<Rightarrow> update_var x (set_element j idx (E[x := j] ! y)) (E[x := j]))"
  by (simp add: Let_def split: sum.split prod.split)

lemma set_key_value:
  "x < length E \<Longrightarrow> value_exec F (Set_Key x k y) E = (case subscript_key (E ! x) k of
      Inl e \<Rightarrow> Inl e
    | Inr (j, _) \<Rightarrow> update_var x (set_key j k (E[x := j] ! y)) (E[x := j]))"
  by (simp add: Let_def split: sum.split prod.split)

lemma set_index_move_value:
  assumes "x < length E" and "x \<noteq> y"
  shows "value_exec F (Set_Index_Move x idx y) E = (case subscript_index (E ! x) idx of
      Inl e \<Rightarrow> Inl e
    | Inr (j, _) \<Rightarrow> update_var x (set_element j idx (E[x := j] ! y)) (E[x := j, y := JNull]))"
  using assms
  by (cases "E ! x") (auto simp: set_element_def subscript_index_def is_null_def Let_def update_var_def update_twice)

lemma set_key_move_value:
  assumes "x < length E" and "x \<noteq> y" and "\<And>kvs. E ! x = JObject kvs \<Longrightarrow> map_ok kvs"
  shows "value_exec F (Set_Key_Move x k y) E = (case subscript_key (E ! x) k of
      Inl e \<Rightarrow> Inl e
    | Inr (j, _) \<Rightarrow> update_var x (set_key j k (E[x := j] ! y)) (E[x := j, y := JNull]))"
proof -
  have "map_insert k JNull (map_insert k JNull kvs) = map_insert k JNull kvs" if "map_ok kvs" for kvs :: "(char list \<times> 'a json) list"
    using std_map.insert_found [OF that, of k JNull] key_at [OF map_insert_ok [OF that, of k JNull], of k] by blast
  then show ?thesis using assms
    by (cases "E ! x") (auto simp: set_key_def subscript_key_def is_null_def Let_def update_var_def update_twice)
qed

lemma exec_refines:
  assumes rep: "represents E (V, h)" and c: "scoped c (length E) = Some k"
  shows "refines (exec F c (V, h)) (value_exec F c E)"
proof -
  have ok: "heap_ok h" and len: "length V = length E" using rep represents_length by auto
  have obj: "\<And>x kvs. x < length E \<Longrightarrow> E ! x = JObject kvs \<Longrightarrow> map_ok kvs"
    by (erule represents_nth [OF rep]) (auto elim: owns_objectE)
  show ?thesis
  proof (cases c)
    case (Declare t)
    from node_of_type_owns [OF ok, of F t] obtain n h' m where "node_of_type F t h = Some (n, h')"
      "owns n (json_value F t) m" "becomes h Map.empty h' m" by blast
    then show ?thesis using declare_succeeds [OF pending_new [OF rep]] Declare by (simp add: refines_def)
  next
    case (Declare_String s)
    from node_of_string_owns [OF ok, of s] obtain n h' m where "node_of_string s h = Some (n, h')"
      "owns n (JString s) m" "becomes h Map.empty h' m" by blast
    then show ?thesis using declare_succeeds [OF pending_new [OF rep]] Declare_String by (simp add: refines_def)
  next
    case (Push_Back x y)
    then show ?thesis using push_exec [OF rep _ _ copied_takes, of x y F] c push_back_value [of x E F y]
      by (simp split: if_splits del: value_exec.simps)
  next
    case (Push_Back_Move x y)
    then show ?thesis using push_exec [OF rep _ _ moved_takes, of x y F] c push_back_move_value [of x E y F]
      by (simp split: if_splits del: value_exec.simps)
  next
    case (Set_Index x i y)
    then show ?thesis using set_index_exec [OF rep _ _ copied_takes, of x y F i] c set_index_value [of x E F i y]
      by (simp split: if_splits del: value_exec.simps)
  next
    case (Set_Index_Move x i y)
    then show ?thesis using set_index_exec [OF rep _ _ moved_takes, of x y F i] c set_index_move_value [of x E y F i]
      by (simp split: if_splits del: value_exec.simps)
  next
    case (Set_Key x k y)
    then show ?thesis using set_key_exec [OF rep _ _ copied_takes, of x y F k] c set_key_value [of x E F k y]
      by (simp split: if_splits del: value_exec.simps)
  next
    case (Set_Key_Move x k y)
    then show ?thesis using set_key_exec [OF rep _ _ moved_takes, of x y F k] c set_key_move_value [of x E y F k] obj
      by (simp split: if_splits del: value_exec.simps)
  next
    case (Erase_Key x k)
    then show ?thesis using erase_key_exec [OF rep] c by (simp split: if_splits del: value_exec.simps exec.simps)
  next
    case (Erase_Index x i)
    then show ?thesis using erase_index_exec [OF rep] c by (simp split: if_splits del: value_exec.simps exec.simps)
  next
    case (Clear x)
    then show ?thesis using clear_succeeds [OF rep] c by (simp add: refines_def split: if_splits del: exec.simps)
  next
    case Scope_End
    then show ?thesis using scope_end_succeeds [OF rep] c by (auto simp: refines_def split: if_splits)
  qed (use c declare_succeeds [OF copied_pending [OF rep]] declare_succeeds [OF moved_pending [OF rep]]
      assign_succeeds [OF copied_pending [OF rep]] assign_succeeds [OF moved_pending [OF rep]] swap_succeeds [OF rep]
      in \<open>auto simp: refines_def split: if_splits\<close>)
qed

lemma value_exec_length:
  assumes "scoped c (length E) = Some k"
  shows "case value_exec F c E of Inl e \<Rightarrow> k = length E | Inr E' \<Rightarrow> length E' = k"
  using assms
  by (cases c) (auto simp: Let_def update_var_def split: if_splits sum.splits)

lemma run_represents:
  "scoped_all cs (length E) = Some k \<Longrightarrow> represents E (V, h) \<Longrightarrow>
   \<exists>V' h'. run F cs (V, h) = Some (fst (value_run F cs E), V', h') \<and> represents (snd (value_run F cs E)) (V', h') \<and>
     length (snd (value_run F cs E)) = k"
proof (induction cs arbitrary: E V h)
  case (Cons c cs)
  from Cons.prems(1) obtain k' where k: "scoped c (length E) = Some k'" "scoped_all cs k' = Some k"
    by (auto split: Option.bind_splits)
  note r = exec_refines [OF Cons.prems(2) k(1), of F]
  show ?case
  proof (cases "value_exec F c E")
    case (Inl e)
    with value_exec_length [OF k(1), of F] have "k' = length E" by simp
    with Cons.IH [OF _ Cons.prems(2)] k(2) r Inl show ?thesis by (fastforce simp: refines_def split: prod.split)
  next
    case (Inr E')
    with r obtain V' h' where s: "exec F c (V, h) = Some (Inr (V', h'))" "represents E' (V', h')"
      by (auto simp: refines_def succeeds_def)
    from value_exec_length [OF k(1), of F] Inr have "length E' = k'" by simp
    with Cons.IH [OF _ s(2)] k(2) s(1) Inr show ?thesis by simp
  qed
qed simp

text \<open>
  C8: Programs that create, copy, move, assign, swap, extend, shrink, clear and destroy values
  run in memory without undefined behaviour (no read of freed memory, no second deallocation),
  throw the same exceptions as on abstract values and leave memory that stands for the abstract
  result, each variable with blocks of its own.
\<close>

theorem programs_refine:
  assumes "scoped_all cs (length E) = Some k" and "represents E (V, h)"
  shows "\<exists>V' h'. run F cs (V, h) = Some (fst (value_run F cs E), V', h') \<and>
    represents (snd (value_run F cs E)) (V', h')"
  using run_represents [OF assms] by blast

lemma programs_refine_witness:
  "\<exists>V' h'. run int_floats [Declare_String ''a'', Declare t_null, Push_Back_Move 1 0, Set_Key 1 ''k'' 0, Erase_Index 1 0, Push_Back 1 1]
       ([], empty_heap) =
     Some ([Domain_Error ''cannot use operator[] with array''], V', h') \<and>
     represents [JNull, JArray [JArray []]] (V', h')"
proof -
  let ?p = "[Declare_String ''a'', Declare t_null, Push_Back_Move 1 0, Set_Key 1 ''k'' 0, Erase_Index 1 0, Push_Back 1 1]"
  have "value_run int_floats ?p [] =
    ([Domain_Error ''cannot use operator[] with array''], [JNull, JArray [JArray []]])"
    by (simp add: push_back_move_def push_back_def subscript_key_def erase_index_def update_var_def cannot_use_def
        is_null_def is_array_def Let_def)
  then show ?thesis using programs_refine [of ?p "[]" 2 "[]" empty_heap int_floats] by (simp add: own_none)
qed

text \<open>
  C9: A program at whose end all variables are out of scope leaves no memory allocated.
\<close>

theorem memory_is_given_back:
  assumes "scoped_all cs 0 = Some 0"
  shows "\<exists>es h. run F cs ([], empty_heap) = Some (es, [], h) \<and> cells h = Map.empty"
proof -
  have "represents [] ([], empty_heap)" by (simp add: own_none)
  with run_represents [of cs "[]" 0 "[]" empty_heap F, simplified] assms obtain V' h' where
    r: "run F cs ([], empty_heap) = Some (fst (value_run F cs []), V', h')"
    "represents (snd (value_run F cs [])) (V', h')" "length (snd (value_run F cs [])) = 0" by auto
  then have "V' = []" by (auto dest: owns_all_length)
  with r show ?thesis by auto
qed

lemma memory_is_given_back_witness:
  "scoped_all [Declare t_null, Declare_String ''a'', Push_Back 0 1, Declare_Copy 0, Assign_Move 1 2,
     Scope_End, Scope_End, Scope_End] 0 = Some 0 \<and>
   (\<exists>es h. run int_floats [Declare t_null, Declare_String ''a'', Push_Back 0 1, Declare_Copy 0, Assign_Move 1 2,
     Scope_End, Scope_End, Scope_End] ([], empty_heap) = Some (es, [], h) \<and> cells h = Map.empty)"
  by (rule conjI, simp, rule memory_is_given_back) simp

text \<open>
  The copy constructor makes an equal value of new blocks: every block there was is unchanged,
  and the blocks of the copy are at addresses that were not in use.
\<close>

lemma copy_is_deep:
  assumes "owns n j m" and "m \<subseteq>\<^sub>m cells h" and "heap_ok h"
  shows "\<exists>n' h' m'. copy_constructor n h = Some (n', h') \<and> owns n' j m' \<and>
    cells h' = cells h ++ m' \<and> dom m' \<inter> dom (cells h) = {}"
proof -
  from copy_owns [OF assms] obtain n' h' m' where r: "copy_constructor n h = Some (n', h')" "owns n' j m'"
    "becomes h Map.empty h' m'" by blast
  have "dom m' \<inter> dom (cells h) = {}" using becomes_disjoint [OF r(3)] by simp
  moreover have "cells h' = cells h ++ m'" using r(3) by (simp add: becomes_def restrict_map_def)
  ultimately show ?thesis using r by blast
qed

end
