(* ===== verification/Json_Convert.thy ===== *)
theory Json_Convert
  imports Json_Laws
begin

text \<open>
  Conversions between C++ types and class \<open>basic_json\<close>: the constructors from values, and the
  template \<open>get\<close> with the overloads of \<open>get_impl\<close>, for any nesting of standard containers;
  \<open>get_ptr\<close> and \<open>get_ref\<close>; the stream operator for output.

  Which overload is meant depends on the static type, so a value carries its type: integers are
  signed or unsigned of a width, and \<open>C_Json\<close> is \<open>basic_json\<close> itself as an element.  That a
  \<open>double\<close> is finite is a predicate given as an argument.
\<close>

section \<open>From C++ values\<close>

datatype c_type =
    c_bool | c_signed nat | c_unsigned nat | c_double | c_string_t | c_json
  | c_vector c_type | c_map c_type

datatype 'f c_value =
    C_Bool bool | C_Signed int | C_Unsigned int | C_Double 'f | C_String "char list" | C_Json "'f json"
  | C_Vector "'f c_value list" | C_Map "(char list \<times> 'f c_value) list"

text \<open>The range constructor of \<open>std::map\<close> inserts one pair after the other.\<close>

definition map_of_range :: "(char list \<times> 'v) list \<Rightarrow> (char list \<times> 'v) list" where
  "map_of_range kvs = fold (\<lambda>e. map_insert (fst e) (snd e)) kvs []"

text \<open>One definition for each constructor.\<close>

definition json_of_bool :: "bool \<Rightarrow> 'f json" where
  "json_of_bool val = JBoolean val"

definition json_of_signed :: "int \<Rightarrow> 'f json" where
  "json_of_signed val = JInteger (word_of_int val)"

definition json_of_unsigned :: "int \<Rightarrow> 'f json" where
  "json_of_unsigned val = JUnsigned (word_of_int val)"

definition json_of_string :: "char list \<Rightarrow> 'f json" where
  "json_of_string val = JString val"

definition json_of_array :: "'f json list \<Rightarrow> 'f json" where
  "json_of_array es = JArray es"

definition json_of_object :: "(char list \<times> 'f json) list \<Rightarrow> 'f json" where
  "json_of_object es = JObject (map_of_range es)"

text \<open>A number that is infinite or not a number becomes null.\<close>

definition json_of_double :: "('f \<Rightarrow> bool) \<Rightarrow> 'f \<Rightarrow> 'f json" where
  "json_of_double isfinite val = (let j = JFloat val in if \<not> isfinite val then JNull else j)"

fun json_of :: "('f \<Rightarrow> bool) \<Rightarrow> 'f c_value \<Rightarrow> 'f json" where
  "json_of isfinite (C_Bool b) = json_of_bool b"
| "json_of isfinite (C_Signed n) = json_of_signed n"
| "json_of isfinite (C_Unsigned n) = json_of_unsigned n"
| "json_of isfinite (C_Double x) = json_of_double isfinite x"
| "json_of isfinite (C_String s) = json_of_string s"
| "json_of isfinite (C_Json j) = j"
| "json_of isfinite (C_Vector vs) = json_of_array (map (json_of isfinite) vs)"
| "json_of isfinite (C_Map kvs) = json_of_object (map (\<lambda>e. (fst e, json_of isfinite (snd e))) kvs)"

lemmas json_of_defs = json_of_bool_def json_of_signed_def json_of_unsigned_def json_of_double_def
  json_of_string_def json_of_array_def json_of_object_def

text \<open>A C string is read up to its NUL.\<close>

definition json_of_chars :: "char list \<Rightarrow> 'f json option" where
  "json_of_chars val = map_option JString (c_string val)"

section \<open>To C++ values\<close>

text \<open>\<open>std::transform\<close> and the range constructors convert in order, up to the first exception.\<close>

fun convert_all :: "('a \<Rightarrow> 'b parse_result) \<Rightarrow> 'a list \<Rightarrow> 'b list parse_result" where
  "convert_all conv [] = Some (Inr [])"
| "convert_all conv (x # xs) =
     and_then (conv x) (\<lambda>v. and_then (convert_all conv xs) (\<lambda>vs. Some (Inr (v # vs))))"

text \<open>
  \<open>static_cast\<close> to an integer type keeps the lower bits of an integer; for a \<open>double\<close> out of range
  it is undefined.
\<close>

definition in_signed :: "nat \<Rightarrow> int \<Rightarrow> bool" where
  "in_signed w n \<longleftrightarrow> - (2 ^ (w - 1)) \<le> n \<and> n < 2 ^ (w - 1)"

definition in_unsigned :: "nat \<Rightarrow> int \<Rightarrow> bool" where
  "in_unsigned w n \<longleftrightarrow> 0 \<le> n \<and> n < 2 ^ w"

definition get_signed :: "'f float_ops \<Rightarrow> nat \<Rightarrow> 'f json \<Rightarrow> 'f c_value parse_result" where
  "get_signed F w j = (case j of
     JInteger n \<Rightarrow> Some (Inr (C_Signed (signed_take_bit (w - 1) (sint n))))
   | JUnsigned n \<Rightarrow> Some (Inr (C_Signed (signed_take_bit (w - 1) (uint n))))
   | JFloat x \<Rightarrow> (if in_signed w (f_to_int F x) then Some (Inr (C_Signed (f_to_int F x))) else None)
   | _ \<Rightarrow> Some (Inl (must_be ''number'' j)))"

definition get_unsigned :: "'f float_ops \<Rightarrow> nat \<Rightarrow> 'f json \<Rightarrow> 'f c_value parse_result" where
  "get_unsigned F w j = (case j of
     JInteger n \<Rightarrow> Some (Inr (C_Unsigned (take_bit w (sint n))))
   | JUnsigned n \<Rightarrow> Some (Inr (C_Unsigned (take_bit w (uint n))))
   | JFloat x \<Rightarrow> (if in_unsigned w (f_to_int F x) then Some (Inr (C_Unsigned (f_to_int F x))) else None)
   | _ \<Rightarrow> Some (Inl (must_be ''number'' j)))"

definition get_double :: "'f float_ops \<Rightarrow> 'f json \<Rightarrow> 'f c_value parse_result" where
  "get_double F j = (case j of
     JInteger n \<Rightarrow> Some (Inr (C_Double (f_of_int F (sint n))))
   | JUnsigned n \<Rightarrow> Some (Inr (C_Double (f_of_int F (uint n))))
   | JFloat x \<Rightarrow> Some (Inr (C_Double x))
   | _ \<Rightarrow> Some (Inl (must_be ''number'' j)))"

definition get_vector :: "('f json \<Rightarrow> 'f c_value parse_result) \<Rightarrow> 'f json \<Rightarrow> 'f c_value parse_result" where
  "get_vector conv j = (case j of
     JArray xs \<Rightarrow> and_then (convert_all conv xs) (\<lambda>vs. Some (Inr (C_Vector vs)))
   | _ \<Rightarrow> Some (Inl (must_be ''array'' j)))"

definition get_map :: "('f json \<Rightarrow> 'f c_value parse_result) \<Rightarrow> 'f json \<Rightarrow> 'f c_value parse_result" where
  "get_map conv j = (case j of
     JObject kvs \<Rightarrow> and_then (convert_all (\<lambda>e. and_then (conv (snd e)) (\<lambda>v. Some (Inr (fst e, v)))) kvs)
       (\<lambda>vs. Some (Inr (C_Map (map_of_range vs))))
   | _ \<Rightarrow> Some (Inl (must_be ''object'' j)))"

fun get_as :: "'f float_ops \<Rightarrow> c_type \<Rightarrow> 'f json \<Rightarrow> 'f c_value parse_result" where
  "get_as F c_bool j = Some (map_sum id C_Bool (get_boolean j))"
| "get_as F (c_signed w) j = get_signed F w j"
| "get_as F (c_unsigned w) j = get_unsigned F w j"
| "get_as F c_double j = get_double F j"
| "get_as F c_string_t j = Some (map_sum id C_String (get_impl_string j))"
| "get_as F c_json j = Some (Inr (C_Json j))"
| "get_as F (c_vector t) j = get_vector (get_as F t) j"
| "get_as F (c_map t) j = get_map (get_as F t) j"

section \<open>Pointers and references to the content\<close>

datatype pointer_type = p_object | p_array | p_string | p_boolean | p_integer | p_unsigned | p_float

text \<open>
  What the pointer points to, as a value of its type; null if the type does not fit.  A pointer to
  a signed integer may point to an unsigned one.
\<close>

definition get_impl_ptr :: "pointer_type \<Rightarrow> 'f json \<Rightarrow> 'f json option" where
  "get_impl_ptr p j = (case p of
     p_object \<Rightarrow> (if is_object j then Some j else None)
   | p_array \<Rightarrow> (if is_array j then Some j else None)
   | p_string \<Rightarrow> (if is_string j then Some j else None)
   | p_boolean \<Rightarrow> (if is_boolean j then Some j else None)
   | p_integer \<Rightarrow> (if is_number_integer j
       then Some (case j of JUnsigned n \<Rightarrow> JInteger n | _ \<Rightarrow> j) else None)
   | p_unsigned \<Rightarrow> (if is_number_unsigned j then Some j else None)
   | p_float \<Rightarrow> (if is_number_float j then Some j else None))"

definition get_ref_impl :: "pointer_type \<Rightarrow> 'f json \<Rightarrow> json_exn + 'f json" where
  "get_ref_impl p j = (case get_impl_ptr p j of
     Some v \<Rightarrow> Inr v
   | None \<Rightarrow> Inl (Domain_Error (''incompatible ReferenceType for get_ref, actual type is '' @ type_name j)))"

section \<open>Output to a stream\<close>

text \<open>The width of the stream is the indentation, and is reset.\<close>

definition write_stream :: "'f float_ops \<Rightarrow> int \<Rightarrow> 'f json \<Rightarrow> char list \<times> int" where
  "write_stream F width j = (
     let pretty_print = width > 0;
         indentation = (if pretty_print then width else 0)
     in (dump_to F pretty_print (word_of_int indentation) 0 j, 0))"

section \<open>What is converted comes back\<close>

text \<open>The values of a C++ type.\<close>

fun has_type :: "('f \<Rightarrow> bool) \<Rightarrow> 'f c_value \<Rightarrow> c_type \<Rightarrow> bool" where
  "has_type isfinite (C_Bool b) c_bool = True"
| "has_type isfinite (C_Signed n) (c_signed w) = (0 < w \<and> w \<le> 64 \<and> in_signed w n)"
| "has_type isfinite (C_Unsigned n) (c_unsigned w) = (w \<le> 64 \<and> in_unsigned w n)"
| "has_type isfinite (C_Double x) c_double = isfinite x"
| "has_type isfinite (C_String s) c_string_t = True"
| "has_type isfinite (C_Json j) c_json = True"
| "has_type isfinite (C_Vector vs) (c_vector t) = (\<forall>v \<in> set vs. has_type isfinite v t)"
| "has_type isfinite (C_Map kvs) (c_map t) = (map_ok kvs \<and> (\<forall>e \<in> set kvs. has_type isfinite (snd e) t))"
| "has_type isfinite _ _ = False"

lemma map_insert_greatest:
  "\<forall>e \<in> set kvs. fst e < k \<Longrightarrow> map_insert k v kvs = kvs @ [(k, v)]"
  by (induction kvs) auto

lemma fold_insert_sorted:
  "map_ok (acc @ kvs) \<Longrightarrow> fold (\<lambda>e. map_insert (fst e) (snd e)) kvs acc = acc @ kvs"
proof (induction kvs arbitrary: acc)
  case (Cons e kvs)
  then have "\<forall>d \<in> set acc. fst d < fst e" by (auto simp: map_ok_def sorted_wrt_append)
  then show ?case using Cons by (simp add: map_insert_greatest)
qed simp

lemma map_of_range_sorted: "map_ok kvs \<Longrightarrow> map_of_range kvs = kvs"
  by (simp add: map_of_range_def fold_insert_sorted)

lemma convert_all_map:
  "(\<And>x. x \<in> set xs \<Longrightarrow> conv (f x) = Some (Inr x)) \<Longrightarrow> convert_all conv (map f xs) = Some (Inr xs)"
  by (induction xs) auto

lemma signed_64:
  assumes "0 < w" and "w \<le> 64" and "in_signed w n"
  shows "signed_take_bit (w - 1) (sint (word_of_int n :: u64)) = n"
proof -
  have "(2::int) ^ (w - 1) \<le> 2 ^ 63" using assms(2) by (intro power_increasing) auto
  then have "- (2 ^ 63) \<le> n" "n < 2 ^ 63" using assms(3) unfolding in_signed_def by linarith+
  then have "sint (word_of_int n :: u64) = n"
    by (simp add: signed_take_bit_int_eq_self word_of_int_inverse sint_sbintrunc')
  moreover have "signed_take_bit (w - 1) n = n"
    using assms(3) by (simp add: in_signed_def signed_take_bit_int_eq_self)
  ultimately show ?thesis by simp
qed

lemma unsigned_64:
  assumes "w \<le> 64" and "in_unsigned w n"
  shows "take_bit w (uint (word_of_int n :: u64)) = n"
proof -
  have "(2::int) ^ w \<le> 2 ^ 64" using assms(1) by (intro power_increasing) auto
  then have "0 \<le> n" "n < 2 ^ 64" "n < 2 ^ w" using assms(2) unfolding in_unsigned_def by linarith+
  then show ?thesis by (simp add: uint_word_of_int take_bit_int_eq_self)
qed

lemma json_of_get: "has_type isfinite v t \<Longrightarrow> get_as F t (json_of isfinite v) = Some (Inr v)"
proof (induction isfinite v t rule: has_type.induct)
  case (7 isfinite vs t)
  then show ?case by (simp add: json_of_defs get_vector_def convert_all_map)
next
  case (8 isfinite kvs t)
  let ?es = "map (\<lambda>e. (fst e, json_of isfinite (snd e))) kvs"
  let ?conv = "\<lambda>e. and_then (get_as F t (snd e)) (\<lambda>v. Some (Inr (fst e, v)))"
  have ok: "map_ok ?es" using 8(2) by (simp add: map_ok_def comp_def)
  have "convert_all ?conv ?es = Some (Inr kvs)" using 8 by (intro convert_all_map) auto
  then show ?case using 8(2) by (simp add: json_of_defs get_map_def map_of_range_sorted [OF ok] map_of_range_sorted)
qed (simp_all add: get_boolean_def get_impl_string_def get_signed_def get_unsigned_def get_double_def
    json_of_defs signed_64 [unfolded One_nat_def] unsigned_64)

text \<open>
  C33: A C++ value (any nesting of vectors, maps and values, integers of any width, finite numbers)
  that is converted to a JSON value and read back with \<open>get\<close> at its type is the same value.
\<close>

theorem construct_then_get:
  assumes "has_type isfinite v t"
  shows "get_as F t (json_of isfinite v) = Some (Inr v)"
  using assms by (rule json_of_get)

lemma construct_then_get_witness:
  "get_as int_floats (c_map (c_vector (c_signed 16)))
     (json_of (\<lambda>_. True) (C_Map [(''a'', C_Vector [C_Signed (-7), C_Signed 300]), (''b'', C_Vector [])])) =
   Some (Inr (C_Map [(''a'', C_Vector [C_Signed (-7), C_Signed 300]), (''b'', C_Vector [])]))"
  by (rule construct_then_get) (simp add: in_signed_def less_char_def)

text \<open>A number that is not finite becomes null, and reading it back throws.\<close>

lemma not_finite_throws:
  "\<not> isfinite x \<Longrightarrow> get_as F c_double (json_of isfinite (C_Double x)) =
     Some (Inl (Domain_Error ''type must be number, but is null''))"
  by (simp add: json_of_double_def get_double_def must_be_def)

text \<open>\<open>get_ref\<close> throws exactly where \<open>get_ptr\<close> is null.\<close>

lemma get_ref_throws: "(\<exists>e. get_ref_impl p j = Inl e) \<longleftrightarrow> get_impl_ptr p j = None"
  by (auto simp: get_ref_impl_def split: option.splits)

text \<open>Writing to a stream of width \<open>w\<close> is \<open>dump\<close> with that indentation, or without one for 0.\<close>

lemma write_stream_dump:
  "0 \<le> w \<Longrightarrow> fst (write_stream F w j) = dump F (if w = 0 then - 1 else w) j"
  by (simp add: write_stream_def dump_def)

section \<open>Hashing and the literal\<close>

text \<open>\<open>std::hash\<close> on JSON values; \<open>h\<close> is the hash of the library for strings.\<close>

definition std_hash :: "'f float_ops \<Rightarrow> (char list \<Rightarrow> u64) \<Rightarrow> 'f json \<Rightarrow> u64" where
  "std_hash F h j = h (dump F (- 1) j)"

text \<open>
  The operator \<open>_json\<close> on a string literal; it ignores the length it is given, so the text ends at the
  first NUL.
\<close>

definition json_literal :: "'f float_ops \<Rightarrow> char list \<Rightarrow> 'f json parse_result" where
  "json_literal F s = Option.bind (c_string s) (\<lambda>s. parse F s None)"

lemma json_literal_parse: "NUL \<notin> set s \<Longrightarrow> json_literal F (s @ NUL # r) = parse F s None"
  by (simp add: json_literal_def c_string_def takeWhile_nul)

text \<open>
  Values that are equal for \<open>operator==\<close> may have different hashes, as \<open>dump\<close> writes them
  differently: 1 and 1.0.
\<close>

lemma equal_not_same_hash:
  assumes "h ''1'' \<noteq> h ''1.0''"
  shows "json_eq int_floats (JInteger 1) (JFloat 1)"
    and "std_hash int_floats h (JInteger 1) \<noteq> std_hash int_floats h (JFloat 1)"
proof -
  show "json_eq int_floats (JInteger 1) (JFloat 1)" by code_simp
  have "dump int_floats (- 1) (JInteger 1) = ''1''" "dump int_floats (- 1) (JFloat 1) = ''1.0''" by code_simp+
  then show "std_hash int_floats h (JInteger 1) \<noteq> std_hash int_floats h (JFloat 1)"
    using assms by (simp add: std_hash_def)
qed

end
