(* ===== verification/Json_Stream.thy ===== *)
theory Json_Stream
  imports Json_Safe
begin

text \<open>
  The lexer of \<open>src/json/json.hpp\<close> on a stream: the constructor for \<open>std::istream\<close>, \<open>yyfill\<close>, which
  puts another line behind the buffer when the scanner comes near its end, and the scanner with
  its calls of \<open>yyfill\<close>.  Its tokens are those of the text as a whole.

  The labels of the scanner and what they do on a byte are data here; one function runs them.
  The pointers into the buffer are positions.
\<close>

section \<open>The stream\<close>

text \<open>What is left to be read from a stream, and whether it has failed.\<close>

record istream =
  s_rest :: "char list"
  s_failed :: bool

text \<open>
  \<open>std::getline\<close>: the characters up to a line break, which is taken away, or to the end; the
  stream fails when there is nothing left.
\<close>

definition getline :: "istream \<Rightarrow> char list \<times> istream" where
  "getline s =
     (if s_failed s then ([], s)
      else if s_rest s = [] then ([], s\<lparr>s_failed := True\<rparr>)
      else let line = takeWhile (\<lambda>c. c \<noteq> CHR 0x0A) (s_rest s) in
        (line, s\<lparr>s_rest := drop (Suc (length line)) (s_rest s)\<rparr>))"

record stream_lexer =
  s_stream :: istream
  s_buffer :: "char list"
  s_start :: nat
  s_marker :: "nat option"
  s_cursor :: nat
  s_limit :: nat

definition stream_lexer_of :: "istream \<Rightarrow> stream_lexer" where
  "stream_lexer_of s = (let (line, s) = getline s in
     \<lparr>s_stream = s, s_buffer = line, s_start = 0, s_marker = None, s_cursor = 0, s_limit = length line\<rparr>)"

text \<open>
  \<open>m_limit\<close> is one less than the size of a buffer that was filled up.  A null marker stays one (in
  the code its distance to \<open>m_start\<close> is taken and added again).
\<close>

definition yyfill :: "stream_lexer \<Rightarrow> stream_lexer" where
  "yyfill l =
     (if s_failed (s_stream l) then l
      else let (line, s) = getline (s_stream l); buffer = drop (s_start l) (s_buffer l) @ CHR 0x0A # line in
        \<lparr>s_stream = s, s_buffer = buffer, s_start = 0, s_marker = map_option (\<lambda>m. m - s_start l) (s_marker l),
         s_cursor = s_cursor l - s_start l, s_limit = length buffer - 1\<rparr>)"

section \<open>The labels\<close>

text \<open>\<open>B_scan\<close> is the start of \<open>scan()\<close>, \<open>B_n\<close> the label \<open>basic_json_parser_n\<close>.\<close>

datatype s_label =
    B_scan | B_6 | B_9 | B_12 | B_13 | B_15 | B_23 | B_24 | B_25 | B_30 | B_31 | B_36 | B_37 | B_38 | B_39
  | B_40 | B_41 | B_42 | B_43 | B_44 | B_46 | B_47 | B_49 | B_50 | B_51 | B_54 | B_55 | B_60 | B_63

text \<open>
  Where a byte leads: on to a label; to a token that ends before the byte (labels 5 and 14) or
  with it; back to the marker (label 33); to a new scan at the byte or behind it (label 52).
\<close>

datatype s_goal = Goto s_label | Ends token_type | Ends_With token_type | Back | Scan_Here | Scan_Behind

text \<open>The labels that move the marker, with \<open>yyaccept\<close>.\<close>

fun marks :: "s_label \<Rightarrow> bool" where
  "marks B_9 = True" | "marks B_13 = True" | "marks B_15 = True" | "marks B_23 = True" | "marks B_24 = True"
| "marks B_25 = True" | "marks B_30 = True" | "marks B_44 = True" | "marks _ = False"

fun accept :: "s_label \<Rightarrow> token_type" where
  "accept B_13 = value_number" | "accept B_15 = value_number" | "accept B_44 = value_number"
| "accept _ = parse_error"

text \<open>The calls of \<open>yyfill\<close>: the number of bytes that must be left.\<close>

fun needs :: "s_label \<Rightarrow> nat" where
  "needs B_scan = 5" | "needs B_15 = 3" | "needs B_44 = 3" | "needs B_6 = 1" | "needs B_31 = 1" | "needs B_36 = 1"
| "needs B_43 = 1" | "needs B_47 = 1" | "needs B_54 = 1" | "needs B_60 = 1" | "needs B_63 = 1" | "needs _ = 0"

text \<open>The first byte of a token.\<close>

fun first_goal :: "label \<Rightarrow> s_goal" where
  "first_goal L2 = Ends_With end_of_input"
| "first_goal L6 = Goto B_6"
| "first_goal L9 = Goto B_9"
| "first_goal L10 = Ends_With value_separator"
| "first_goal L12 = Goto B_12"
| "first_goal L13 = Goto B_13"
| "first_goal L15 = Goto B_15"
| "first_goal L17 = Ends_With name_separator"
| "first_goal L19 = Ends_With begin_array"
| "first_goal L21 = Ends_With end_array"
| "first_goal L23 = Goto B_23"
| "first_goal L24 = Goto B_24"
| "first_goal L25 = Goto B_25"
| "first_goal L26 = Ends_With begin_object"
| "first_goal L28 = Ends_With end_object"
| "first_goal L30 = Goto B_30"
| "first_goal _ = Ends_With parse_error"

fun string_goal :: "label \<Rightarrow> s_goal" where
  "string_goal L31 = Goto B_31"
| "string_goal L34 = Ends_With value_string"
| "string_goal L36 = Goto B_36"
| "string_goal L43 = Goto B_43"
| "string_goal L54 = Goto B_54"
| "string_goal L60 = Goto B_60"
| "string_goal L63 = Goto B_63"
| "string_goal _ = Back"

fun goal :: "s_label \<Rightarrow> nat \<Rightarrow> s_goal" where
  "goal B_scan yych = first_goal (scan_first yych)"
| "goal B_6 yych = (if yybm_bit yych 32 then Goto B_6 else Scan_Here)"
| "goal B_9 yych = (if yych \<le> 0x0F then Ends parse_error else string_goal (basic_json_parser_32 yych))"
| "goal B_12 yych =
     (if yych \<le> 0x2F then Ends parse_error else if yych \<le> 0x30 then Goto B_13
      else if yych \<le> 0x39 then Goto B_15 else Ends parse_error)"
| "goal B_13 yych =
     (if yych \<le> 0x44 then (if yych = 0x2E then Goto B_37 else Ends value_number)
      else (if yych \<le> 0x45 then Goto B_38 else if yych = 0x65 then Goto B_38 else Ends value_number))"
| "goal B_15 yych =
     (if yybm_bit yych 64 then Goto B_15
      else if yych \<le> 0x44 then (if yych = 0x2E then Goto B_37 else Ends value_number)
      else (if yych \<le> 0x45 then Goto B_38 else if yych = 0x65 then Goto B_38 else Ends value_number))"
| "goal B_23 yych = (if yych = 0x61 then Goto B_39 else Ends parse_error)"
| "goal B_24 yych = (if yych = 0x75 then Goto B_40 else Ends parse_error)"
| "goal B_25 yych = (if yych = 0x72 then Goto B_41 else Ends parse_error)"
| "goal B_30 yych = (if yych = 0xBB then Goto B_42 else Ends parse_error)"
| "goal B_31 yych = string_goal (basic_json_parser_32 yych)"
| "goal B_36 yych = string_goal (basic_json_parser_36 yych)"
| "goal B_37 yych = (if yych \<le> 0x2F then Back else if yych \<le> 0x39 then Goto B_44 else Back)"
| "goal B_38 yych =
     (if yych \<le> 0x2C then (if yych = 0x2B then Goto B_46 else Back)
      else (if yych \<le> 0x2D then Goto B_46 else if yych \<le> 0x2F then Back
            else if yych \<le> 0x39 then Goto B_47 else Back))"
| "goal B_39 yych = (if yych = 0x6C then Goto B_49 else Back)"
| "goal B_40 yych = (if yych = 0x6C then Goto B_50 else Back)"
| "goal B_41 yych = (if yych = 0x75 then Goto B_51 else Back)"
| "goal B_42 yych = (if yych = 0xBF then Scan_Behind else Back)"
| "goal B_43 yych = string_goal (basic_json_parser_43 yych)"
| "goal B_44 yych =
     (if yych \<le> 0x44 then
        (if yych \<le> 0x2F then Ends value_number else if yych \<le> 0x39 then Goto B_44 else Ends value_number)
      else (if yych \<le> 0x45 then Goto B_38 else if yych = 0x65 then Goto B_38 else Ends value_number))"
| "goal B_46 yych = (if yych \<le> 0x2F then Back else if yych \<ge> 0x3A then Back else Goto B_47)"
| "goal B_47 yych =
     (if yych \<le> 0x2F then Ends value_number else if yych \<le> 0x39 then Goto B_47 else Ends value_number)"
| "goal B_49 yych = (if yych = 0x73 then Goto B_55 else Back)"
| "goal B_50 yych = (if yych = 0x6C then Ends_With literal_null else Back)"
| "goal B_51 yych = (if yych = 0x65 then Ends_With literal_true else Back)"
| "goal B_54 yych = string_goal (basic_json_parser_54 yych)"
| "goal B_55 yych = (if yych = 0x65 then Ends_With literal_false else Back)"
| "goal B_60 yych = string_goal (basic_json_parser_60 yych)"
| "goal B_63 yych = string_goal (basic_json_parser_63 yych)"

section \<open>The scanner\<close>

text \<open>At a label: \<open>++m_cursor\<close>, the marker, and \<open>yyfill\<close> if too few bytes are left.\<close>

definition at_label :: "s_label \<Rightarrow> stream_lexer \<Rightarrow> stream_lexer" where
  "at_label lab l = (
     let l = (if lab = B_scan then l\<lparr>s_start := s_cursor l, s_marker := None\<rparr> else l\<lparr>s_cursor := s_cursor l + 1\<rparr>);
         l = (if marks lab then l\<lparr>s_marker := Some (s_cursor l)\<rparr> else l)
     in if int (s_limit l) - int (s_cursor l) < int (needs lab) then yyfill l else l)"

text \<open>
  Every label but \<open>B_scan\<close> reads another byte of the text, which bounds the fuel.  A new scan starts
  with \<open>yyaccept = 0\<close>.  The buffer is read up to the NUL of its \<open>c_str\<close>.
\<close>

fun run_labels :: "nat \<Rightarrow> s_label \<Rightarrow> token_type \<Rightarrow> stream_lexer \<Rightarrow> (token_type \<times> stream_lexer) option" where
  "run_labels 0 lab yyaccept l = None"
| "run_labels (Suc fuel) lab yyaccept l = (
     let l = at_label lab l;
         yyaccept = (if marks lab then accept lab else yyaccept)
     in case at (s_buffer l @ [NUL]) (s_cursor l) of
       None \<Rightarrow> None
     | Some y \<Rightarrow> (case goal lab (code y) of
         Goto lab' \<Rightarrow> run_labels fuel lab' yyaccept l
       | Ends t \<Rightarrow> Some (t, l)
       | Ends_With t \<Rightarrow> Some (t, l\<lparr>s_cursor := s_cursor l + 1\<rparr>)
       | Back \<Rightarrow> (case s_marker l of None \<Rightarrow> None | Some m \<Rightarrow> Some (yyaccept, l\<lparr>s_cursor := m\<rparr>))
       | Scan_Here \<Rightarrow> run_labels fuel B_scan parse_error l
       | Scan_Behind \<Rightarrow> run_labels fuel B_scan parse_error (l\<lparr>s_cursor := s_cursor l + 1\<rparr>)))"

text \<open>What is still to be read: two bytes at most for one of the stream, and a last line break.\<close>

definition stream_unread :: "stream_lexer \<Rightarrow> nat" where
  "stream_unread l = length (s_buffer l) + length (s_rest (s_stream l)) + 3"

definition stream_scan :: "stream_lexer \<Rightarrow> (token_type \<times> stream_lexer) option" where
  "stream_scan l = run_labels (2 * stream_unread l) B_scan parse_error l"

definition stream_get_token :: "stream_lexer \<Rightarrow> char list" where
  "stream_get_token l = take (s_cursor l - s_start l) (drop (s_start l) (s_buffer l @ [NUL]))"

end
