(* ===== verification/Json_Stream_Correct.thy ===== *)
theory Json_Stream_Correct
  imports Json_Stream
begin

text \<open>
  The lexer on a stream reads the text of the stream, with a line break behind the last line: its
  buffer is a window of that text, and no label reads a byte that is not there yet and that would
  matter.
\<close>

section \<open>The labels on a text\<close>

text \<open>
  The same labels on a text that is there as a whole; \<open>p\<close> is the position of the next byte to be
  read and \<open>r\<close> the text from there.
\<close>

fun text_labels ::
    "nat \<Rightarrow> s_label \<Rightarrow> token_type \<Rightarrow> nat \<Rightarrow> nat option \<Rightarrow> nat \<Rightarrow> char list \<Rightarrow> (token_type \<times> nat \<times> nat) option" where
  "text_labels 0 lab acc s m p r = None"
| "text_labels (Suc fuel) lab acc s m p r = (case r of
     [] \<Rightarrow> None
   | y # r' \<Rightarrow> (
       let s = (if lab = B_scan then p else s);
           m = (if lab = B_scan then None else if marks lab then Some p else m);
           acc = (if marks lab then accept lab else acc)
       in case goal lab (code y) of
         Goto lab' \<Rightarrow> text_labels fuel lab' acc s m (p + 1) r'
       | Ends t \<Rightarrow> Some (t, s, p)
       | Ends_With t \<Rightarrow> Some (t, s, p + 1)
       | Back \<Rightarrow> (case m of None \<Rightarrow> None | Some m \<Rightarrow> Some (acc, s, m))
       | Scan_Here \<Rightarrow> text_labels fuel B_scan parse_error s m p r
       | Scan_Behind \<Rightarrow> text_labels fuel B_scan parse_error s m (p + 1) r'))"

abbreviation from_start :: "nat \<Rightarrow> (token_type \<times> nat) option \<Rightarrow> (token_type \<times> nat \<times> nat) option" where
  "from_start s \<equiv> map_option (\<lambda>(t, p). (t, s, p))"

lemma text_labels_47: "length r < fuel \<Longrightarrow> text_labels fuel B_47 acc s m p r = from_start s (basic_json_parser_47 p r)"
proof (induction r arbitrary: fuel p)
  case Nil
  then show ?case by (cases fuel) simp_all
next
  case (Cons y r)
  then show ?case by (cases fuel) simp_all
qed

lemma text_labels_46:
  "length r < fuel \<Longrightarrow> text_labels fuel B_46 value_number s (Some m) p r = from_start s (basic_json_parser_46 m p r)"
  by (cases fuel; cases r) (simp_all add: basic_json_parser_46_def text_labels_47)

lemma text_labels_38:
  "length r < fuel \<Longrightarrow> text_labels fuel B_38 value_number s (Some m) p r = from_start s (basic_json_parser_38 m p r)"
  by (cases fuel; cases r) (simp_all add: basic_json_parser_38_def text_labels_47 text_labels_46)

lemma text_labels_44: "length r < fuel \<Longrightarrow> text_labels fuel B_44 acc s m p r = from_start s (basic_json_parser_44 p r)"
proof (induction r arbitrary: fuel p acc m)
  case Nil
  then show ?case by (cases fuel) simp_all
next
  case (Cons y r)
  then show ?case by (cases fuel) (simp_all add: text_labels_38)
qed

lemma text_labels_37:
  "length r < fuel \<Longrightarrow> text_labels fuel B_37 value_number s (Some m) p r = from_start s (basic_json_parser_37 m p r)"
  by (cases fuel; cases r) (simp_all add: basic_json_parser_37_def text_labels_44)

lemma text_labels_15: "length r < fuel \<Longrightarrow> text_labels fuel B_15 acc s m p r = from_start s (basic_json_parser_15 p r)"
proof (induction r arbitrary: fuel p acc m)
  case Nil
  then show ?case by (cases fuel) simp_all
next
  case (Cons y r)
  then show ?case by (cases fuel) (simp_all add: text_labels_38 text_labels_37)
qed

lemma text_labels_13: "length r < fuel \<Longrightarrow> text_labels fuel B_13 acc s m p r = from_start s (basic_json_parser_13 p r)"
  by (cases fuel; cases r) (simp_all add: basic_json_parser_13_def text_labels_38 text_labels_37)

lemma text_labels_12: "length r < fuel \<Longrightarrow> text_labels fuel B_12 acc s m p r = from_start s (basic_json_parser_12 p r)"
  by (cases fuel; cases r) (simp_all add: basic_json_parser_12_def text_labels_13 text_labels_15)

text \<open>Strings.\<close>

fun label_of :: "label \<Rightarrow> s_label" where
  "label_of L36 = B_36" | "label_of L43 = B_43" | "label_of L54 = B_54" | "label_of L60 = B_60"
| "label_of L63 = B_63" | "label_of _ = B_31"

lemma goal_string: "L \<in> {L31, L36, L43, L54, L60, L63} \<Longrightarrow> goal (label_of L) y = string_goal (string_next L y)"
  by (auto simp: string_next_def)

lemma string_next_labels: "string_next L y \<in> {L31, L33, L34, L36, L43, L54, L60, L63}"
  by (cases L) (simp_all add: string_next_def basic_json_parser_32_def basic_json_parser_36_def
      basic_json_parser_43_def basic_json_parser_54_def basic_json_parser_60_def basic_json_parser_63_def)

lemma string_goal_cases:
  "L \<in> {L31, L33, L34, L36, L43, L54, L60, L63} \<Longrightarrow>
   string_goal L = (if L = L33 then Back else if L = L34 then Ends_With value_string else Goto (label_of L))"
  by auto

lemma label_of_string [simp]: "\<not> marks (label_of L)" "label_of L \<noteq> B_scan"
  by (cases L; simp)+

lemma text_labels_31:
  "length r < fuel \<Longrightarrow> L \<in> {L31, L36, L43, L54, L60, L63} \<Longrightarrow>
   text_labels fuel (label_of L) parse_error s (Some m) p r = from_start s (basic_json_parser_31 L m p r)"
proof (induction r arbitrary: fuel L p)
  case Nil
  then show ?case by (cases fuel) simp_all
next
  case (Cons y r)
  then obtain k where k: "fuel = Suc k" "length r < k"
    by (cases fuel) auto
  note L = string_next_labels [of L "code y"]
  have "string_next L (code y) \<in> {L31, L36, L43, L54, L60, L63}"
    if "string_next L (code y) \<noteq> L33" "string_next L (code y) \<noteq> L34"
    using L that by blast
  then show ?case
    using Cons.IH [OF k(2)] by (simp add: k(1) goal_string [OF Cons.prems(2)] string_goal_cases [OF L] Let_def)
qed

lemma text_labels_9: "length r < fuel \<Longrightarrow> text_labels fuel B_9 acc s m p r = from_start s (basic_json_parser_9 p r)"
proof (cases r)
  case Nil
  then show "length r < fuel \<Longrightarrow> ?thesis" by (cases fuel) (simp_all add: basic_json_parser_9_def)
next
  case (Cons y r')
  assume *: "length r < fuel"
  then obtain k where k: "fuel = Suc k" "length r < Suc k" by (cases fuel) auto
  show ?thesis
    using text_labels_31 [OF k(2), of L31 s p p] by (simp add: k(1) Cons basic_json_parser_9_def string_next_def)
qed

text \<open>Literals.\<close>

lemma text_labels_55:
  "length r < fuel \<Longrightarrow> text_labels fuel B_55 parse_error s (Some m) p r = from_start s (basic_json_parser_55 m p r)"
  by (cases fuel; cases r) (simp_all add: basic_json_parser_55_def)

lemma text_labels_51:
  "length r < fuel \<Longrightarrow> text_labels fuel B_51 parse_error s (Some m) p r = from_start s (basic_json_parser_51 m p r)"
  by (cases fuel; cases r) (simp_all add: basic_json_parser_51_def)

lemma text_labels_50:
  "length r < fuel \<Longrightarrow> text_labels fuel B_50 parse_error s (Some m) p r = from_start s (basic_json_parser_50 m p r)"
  by (cases fuel; cases r) (simp_all add: basic_json_parser_50_def)

lemma text_labels_49:
  "length r < fuel \<Longrightarrow> text_labels fuel B_49 parse_error s (Some m) p r = from_start s (basic_json_parser_49 m p r)"
  by (cases fuel; cases r) (simp_all add: basic_json_parser_49_def text_labels_55)

lemma text_labels_41:
  "length r < fuel \<Longrightarrow> text_labels fuel B_41 parse_error s (Some m) p r = from_start s (basic_json_parser_41 m p r)"
  by (cases fuel; cases r) (simp_all add: basic_json_parser_41_def text_labels_51)

lemma text_labels_40:
  "length r < fuel \<Longrightarrow> text_labels fuel B_40 parse_error s (Some m) p r = from_start s (basic_json_parser_40 m p r)"
  by (cases fuel; cases r) (simp_all add: basic_json_parser_40_def text_labels_50)

lemma text_labels_39:
  "length r < fuel \<Longrightarrow> text_labels fuel B_39 parse_error s (Some m) p r = from_start s (basic_json_parser_39 m p r)"
  by (cases fuel; cases r) (simp_all add: basic_json_parser_39_def text_labels_49)

lemma text_labels_literal:
  assumes "length r < fuel"
  shows "text_labels fuel B_23 acc s m p r = from_start s (basic_json_parser_23 p r)"
    and "text_labels fuel B_24 acc s m p r = from_start s (basic_json_parser_24 p r)"
    and "text_labels fuel B_25 acc s m p r = from_start s (basic_json_parser_25 p r)"
  using assms by (cases fuel; cases r; simp add: basic_json_parser_23_def basic_json_parser_24_def
      basic_json_parser_25_def text_labels_39 text_labels_40 text_labels_41)+

text \<open>
  White space and the byte order mark, whatever the scan that follows gives: \<open>F p\<close> for the scan
  from position \<open>p\<close>.
\<close>

lemma text_labels_6:
  assumes "\<And>fuel p r' s m acc. length r' \<le> length r \<Longrightarrow> 2 * length r' \<le> fuel \<Longrightarrow> r' = drop p text \<Longrightarrow>
      text_labels fuel B_scan acc s m p r' = F p"
    and "2 * length r < fuel" "r = drop p text"
  shows "text_labels fuel B_6 acc s m p r = Option.bind (basic_json_parser_6 p r) F"
  using assms
proof (induction r arbitrary: fuel p)
  case Nil
  then show ?case by (cases fuel) simp_all
next
  case (Cons y r)
  obtain k where k: "fuel = Suc k" "2 * length (y # r) \<le> k"
    using Cons.prems(2) by (cases fuel) auto
  have "r = drop (Suc p) text"
    using Cons.prems(3) by (metis drop_Suc list.sel(3) tl_drop)
  moreover have "text_labels k B_scan parse_error s m p (y # r) = F p"
    by (rule Cons.prems(1) [OF _ k(2) Cons.prems(3)]) simp
  ultimately show ?case
    using Cons.IH [of k "Suc p"] Cons.prems(1) k by simp
qed

lemma text_labels_30:
  assumes "\<And>fuel p r' s m acc. length r' \<le> length r \<Longrightarrow> 2 * length r' \<le> fuel \<Longrightarrow> r' = drop p text \<Longrightarrow>
      text_labels fuel B_scan acc s m p r' = F p"
    and "2 * length r < fuel" "r = drop p text"
  shows "text_labels fuel B_30 acc s m p r = Option.bind (basic_json_parser_30 p r)
    (\<lambda>x. case x of Inl (t, c) \<Rightarrow> Some (t, s, c) | Inr c \<Rightarrow> F c)"
proof (cases r)
  case Nil
  then show ?thesis using assms(2) by (cases fuel) (simp_all add: basic_json_parser_30_def)
next
  case r: (Cons y r')
  then obtain k where k: "fuel = Suc (Suc k)" "2 * length r' \<le> k" using assms(2)
    by (cases fuel; cases "fuel - 1") auto
  show ?thesis
  proof (cases r')
    case Nil
    then show ?thesis using r k by (simp add: basic_json_parser_30_def basic_json_parser_42_def)
  next
    case r': (Cons y' r'')
    have "r'' = drop (Suc (Suc p)) text"
      using assms(3) unfolding r r' by (metis drop_Suc list.sel(3) tl_drop)
    then show ?thesis
      using assms(1) [of r'' k "Suc (Suc p)"] r r' k
      by (simp add: basic_json_parser_30_def basic_json_parser_42_def)
  qed
qed

lemma text_labels_scan:
  "2 * length r \<le> fuel \<Longrightarrow> length r \<le> k \<Longrightarrow> r = drop p text \<Longrightarrow>
   text_labels fuel B_scan acc s m p r = scan_from k text p"
proof (induction "length r" arbitrary: r fuel k p acc s m rule: less_induct)
  case less
  show ?case
  proof (cases r)
    case Nil
    then show ?thesis using less.prems(3) by (cases fuel; cases k) simp_all
  next
    case r: (Cons y r')
    obtain f where f: "fuel = Suc f" "2 * length r' < f" using less.prems(1) r by (cases fuel) auto
    obtain k' where k': "k = Suc k'" "length r' \<le> k'" using less.prems(2) r by (cases k) auto
    have len: "length r' < f" using f by simp
    have d: "r' = drop (Suc p) text" "drop p text = y # r'"
      using less.prems(3) unfolding r by (metis drop_Suc list.sel(3) tl_drop, simp)
    have IH: "text_labels fuel B_scan acc s m p q = scan_from k' text p"
      if "length q \<le> length r'" "2 * length q \<le> fuel" "q = drop p text" for fuel p q s m acc
      using less.hyps [of q fuel k' p acc s m] that k'(2) r by simp
    note 6 = text_labels_6 [where F = "scan_from k' text", OF IH f(2) d(1)]
    note 30 = text_labels_30 [where F = "scan_from k' text", OF IH f(2) d(1)]
    show ?thesis
      using 6 30 text_labels_9 [OF len] text_labels_12 [OF len] text_labels_13 [OF len] text_labels_15 [OF len]
        text_labels_literal [OF len]
      by (cases "scan_first (code y)")
        (auto simp: r f(1) k'(1) d(2) scan_token_def split: option.splits sum.splits)
  qed
qed

section \<open>The text of a stream\<close>

definition whole_lines :: "char list \<Rightarrow> char list" where
  "whole_lines t = (if t = [] \<or> last t = CHR 0x0A then t else t @ [CHR 0x0A])"

definition to_come :: "istream \<Rightarrow> char list" where
  "to_come s = (if s_failed s then [] else CHR 0x0A # whole_lines (s_rest s))"

lemma whole_lines_first:
  assumes "t \<noteq> []"
  defines "line \<equiv> takeWhile (\<lambda>c. c \<noteq> CHR 0x0A) t"
  shows "whole_lines t = line @ CHR 0x0A # whole_lines (drop (Suc (length line)) t)"
proof (cases "dropWhile (\<lambda>c. c \<noteq> CHR 0x0A) t")
  case Nil
  then have t: "\<forall>c \<in> set t. c \<noteq> CHR 0x0A"
    by (simp add: dropWhile_eq_Nil_conv)
  then have "line = t"
    by (simp add: line_def takeWhile_eq_all_conv)
  then show ?thesis
    using t assms(1) last_in_set [OF assms(1)] by (auto simp: whole_lines_def)
next
  case (Cons c r)
  have "\<not> c \<noteq> CHR 0x0A"
    using hd_dropWhile [of "\<lambda>c. c \<noteq> CHR 0x0A" t] Cons by simp
  then have t: "t = line @ CHR 0x0A # r"
    using takeWhile_dropWhile_id [of "\<lambda>c. c \<noteq> CHR 0x0A" t] Cons by (simp add: line_def)
  then have "drop (Suc (length line)) t = r"
    by (metis append.assoc append_Cons append_Nil append_eq_conv_conj length_append_singleton)
  then show ?thesis
    using t by (auto simp: whole_lines_def)
qed

lemma to_come_getline:
  "getline s = (line, s') \<Longrightarrow> \<not> s_failed s \<Longrightarrow> to_come s = CHR 0x0A # line @ to_come s'"
  using whole_lines_first [of "s_rest s"]
  by (auto simp: getline_def to_come_def Let_def whole_lines_def split: if_splits)

section \<open>The window\<close>

definition window_ok :: "char list \<Rightarrow> nat \<Rightarrow> stream_lexer \<Rightarrow> bool" where
  "window_ok text off l \<longleftrightarrow>
     off \<le> length text \<and> drop off text = s_buffer l @ to_come (s_stream l) \<and> s_start l \<le> s_cursor l \<and>
     s_limit l \<le> length (s_buffer l) \<and> length (s_buffer l) \<le> Suc (s_limit l) \<and>
     (\<forall>m. s_marker l = Some m \<longrightarrow> s_start l \<le> m \<and> m \<le> s_cursor l)"

text \<open>What a lexer on a stream will read.\<close>

definition stream_text :: "istream \<Rightarrow> char list" where
  "stream_text s = (if s_failed s then [] else whole_lines (s_rest s))"

lemma window_ok_start: "window_ok (stream_text s) 0 (stream_lexer_of s)"
  using whole_lines_first [of "s_rest s"] unfolding stream_text_def
  by (auto simp: window_ok_def stream_lexer_of_def getline_def to_come_def Let_def whole_lines_def)

lemma window_ok_yyfill:
  assumes ok: "window_ok text off l" and cursor: "s_cursor l \<le> length (s_buffer l)"
  defines "k \<equiv> (if s_failed (s_stream l) then 0 else s_start l)"
  shows "window_ok text (off + k) (yyfill l)" "s_cursor (yyfill l) + k = s_cursor l"
    "s_start (yyfill l) + k = s_start l" "map_option (\<lambda>m. m + k) (s_marker (yyfill l)) = s_marker l"
    "s_cursor (yyfill l) < length (s_buffer (yyfill l)) \<or> yyfill l = l \<and> s_failed (s_stream l)"
proof -
  have "window_ok text (off + k) (yyfill l) \<and> s_cursor (yyfill l) + k = s_cursor l \<and>
    s_start (yyfill l) + k = s_start l \<and> map_option (\<lambda>m. m + k) (s_marker (yyfill l)) = s_marker l \<and>
    (s_cursor (yyfill l) < length (s_buffer (yyfill l)) \<or> yyfill l = l \<and> s_failed (s_stream l))"
  proof (cases "s_failed (s_stream l)")
    case True
    then show ?thesis
      using ok by (simp add: yyfill_def k_def option.map_ident)
  next
    case False
    obtain line s where g: "getline (s_stream l) = (line, s)" by fastforce
    have d: "drop off text = s_buffer l @ CHR 0x0A # line @ to_come s" "off \<le> length text"
      and start: "s_start l \<le> s_cursor l" "s_start l \<le> length (s_buffer l)"
      and marker: "\<forall>m. s_marker l = Some m \<longrightarrow> s_start l \<le> m \<and> m \<le> s_cursor l"
      using ok cursor to_come_getline [OF g False] by (auto simp: window_ok_def)
    have len: "off + s_start l \<le> length text"
      using arg_cong [OF d(1), of length] d(2) start(2) by simp
    have w: "drop (off + s_start l) text = drop (s_start l) (s_buffer l) @ CHR 0x0A # line @ to_come s"
      using arg_cong [OF d(1), of "drop (s_start l)"] start(2) by (simp add: add.commute)
    have m: "map_option (\<lambda>m. m + s_start l) (map_option (\<lambda>m. m - s_start l) (s_marker l)) = s_marker l"
      using marker by (cases "s_marker l") auto
    show ?thesis
      using start cursor len w m marker False
      by (cases "s_marker l") (auto simp: yyfill_def k_def g window_ok_def)
  qed
  then show "window_ok text (off + k) (yyfill l)" "s_cursor (yyfill l) + k = s_cursor l"
    "s_start (yyfill l) + k = s_start l" "map_option (\<lambda>m. m + k) (s_marker (yyfill l)) = s_marker l"
    "s_cursor (yyfill l) < length (s_buffer (yyfill l)) \<or> yyfill l = l \<and> s_failed (s_stream l)"
    by blast+
qed

section \<open>The scanner\<close>

text \<open>
  A label that makes no call of \<open>yyfill\<close> does the same on the NUL behind the buffer as on the line
  break that would be there; and no label goes on behind the NUL.
\<close>

lemma goal_unfilled: "needs lab = 0 \<Longrightarrow> goal lab 0 = goal lab 0x0A"
  by (cases lab) (simp_all add: basic_json_parser_32_def basic_json_parser_36_def
      basic_json_parser_43_def basic_json_parser_54_def basic_json_parser_60_def basic_json_parser_63_def)

lemma yybm_zero [simp]: "yybm ! 0 = 0"
  by (simp add: yybm_def)

lemma goal_nul:
  "goal lab 0 \<noteq> Goto lab'" "goal lab 0 \<noteq> Scan_Behind" "goal lab 0 = Ends_With t \<Longrightarrow> lab = B_scan \<and> t = end_of_input"
  by (cases lab; simp add: yybm_bit_def scan_first_def basic_json_parser_32_def basic_json_parser_36_def
      basic_json_parser_43_def basic_json_parser_54_def basic_json_parser_60_def basic_json_parser_63_def)+

lemma goal_scan: "goal lab y \<noteq> Goto B_scan"
proof -
  have "first_goal L \<noteq> Goto B_scan" "string_goal L \<noteq> Goto B_scan" for L
    by (cases L; simp)+
  then show ?thesis
    by (cases lab) simp_all
qed

lemma at_label_window:
  assumes ok: "window_ok text off l"
    and cursor: "s_cursor l + (if lab = B_scan then 0 else 1) \<le> length (s_buffer l)"
    and p: "p = off + s_cursor l + (if lab = B_scan then 0 else 1)"
  obtains off' where
    "window_ok text off' (at_label lab l)" "off' + s_cursor (at_label lab l) = p"
    "off' + s_start (at_label lab l) = (if lab = B_scan then p else off + s_start l)"
    "map_option (\<lambda>m. off' + m) (s_marker (at_label lab l)) =
       (if lab = B_scan then None else if marks lab then Some p else map_option (\<lambda>m. off + m) (s_marker l))"
    "s_cursor (at_label lab l) \<le> length (s_buffer (at_label lab l))"
    "s_cursor (at_label lab l) < length (s_buffer (at_label lab l)) \<or> needs lab = 0 \<or>
       s_failed (s_stream (at_label lab l))"
proof -
  define l0 where "l0 = (let l = (if lab = B_scan then l\<lparr>s_start := s_cursor l, s_marker := None\<rparr>
    else l\<lparr>s_cursor := s_cursor l + 1\<rparr>) in if marks lab then l\<lparr>s_marker := Some (s_cursor l)\<rparr> else l)"
  have l0: "window_ok text off l0" "s_cursor l0 \<le> length (s_buffer l0)" "off + s_cursor l0 = p"
    "off + s_start l0 = (if lab = B_scan then p else off + s_start l)"
    "map_option (\<lambda>m. off + m) (s_marker l0) =
       (if lab = B_scan then None else if marks lab then Some p else map_option (\<lambda>m. off + m) (s_marker l))"
    using ok cursor by (auto simp: l0_def window_ok_def p Let_def)
  have at: "at_label lab l = (if int (s_limit l0) - int (s_cursor l0) < int (needs lab) then yyfill l0 else l0)"
    by (simp add: at_label_def l0_def Let_def)
  show ?thesis
  proof (cases "int (s_limit l0) - int (s_cursor l0) < int (needs lab)")
    case True
    define k where "k = (if s_failed (s_stream l0) then 0 else s_start l0)"
    note y = window_ok_yyfill [OF l0(1,2), folded k_def]
    have m: "map_option (\<lambda>m. off + m) (s_marker l0) = map_option (\<lambda>m. off + k + m) (s_marker (yyfill l0))"
      unfolding y(4) [symmetric] by (simp add: option.map_comp comp_def add.commute add.left_commute)
    show ?thesis
      using l0 y m True by (intro that [of "off + k"]) (auto simp: at)
  next
    case False
    moreover have "s_limit l0 \<le> length (s_buffer l0)"
      using l0(1) by (simp add: window_ok_def)
    ultimately show ?thesis
      using l0 by (intro that [of off]) (auto simp: at)
  qed
qed

lemma byte_read:
  assumes ok: "window_ok text off l" and cursor: "s_cursor l \<le> length (s_buffer l)"
    and filled: "s_cursor l < length (s_buffer l) \<or> needs lab = 0 \<or> s_failed (s_stream l)"
  obtains y y' r where
    "at (s_buffer l @ [NUL]) (s_cursor l) = Some y" "drop (off + s_cursor l) (text @ [NUL]) = y' # r"
    "r = drop (Suc (off + s_cursor l)) (text @ [NUL])"
    "goal lab (code y) = goal lab (code y')" "s_cursor l < length (s_buffer l) \<or> code y = 0"
proof -
  have w: "drop (off + s_cursor l) (text @ [NUL]) = drop (s_cursor l) (s_buffer l @ to_come (s_stream l) @ [NUL])"
  proof -
    have "drop off (text @ [NUL]) = s_buffer l @ to_come (s_stream l) @ [NUL]"
      using ok by (simp add: window_ok_def)
    then show ?thesis
      by (metis add.commute drop_drop)
  qed
  obtain y' r where y': "drop (off + s_cursor l) (text @ [NUL]) = y' # r"
    using cursor unfolding w by (cases "drop (s_cursor l) (s_buffer l @ to_come (s_stream l) @ [NUL])") auto
  then have r: "r = drop (Suc (off + s_cursor l)) (text @ [NUL])"
    by (metis drop_Suc list.sel(3) tl_drop)
  show ?thesis
  proof (cases "s_cursor l < length (s_buffer l)")
    case True
    then have "y' = s_buffer l ! s_cursor l"
      using y' unfolding w by (simp add: Cons_nth_drop_Suc [symmetric])
    then show ?thesis
      using True by (intro that [of y', OF _ y' r]) (simp_all add: at_def nth_append)
  next
    case False
    then have "s_cursor l = length (s_buffer l)" "y' # r = to_come (s_stream l) @ [NUL]"
      using cursor y' unfolding w by simp_all
    then show ?thesis
      using filled goal_unfilled [of lab]
      by (intro that [of NUL, OF _ y' r]) (auto simp: at_def to_come_def split: if_splits)
  qed
qed

definition stands_at :: "char list \<Rightarrow> nat \<Rightarrow> stream_lexer \<Rightarrow> bool" where
  "stands_at text off l \<longleftrightarrow> window_ok text off l \<and>
     (s_cursor l \<le> length (s_buffer l) \<or> s_failed (s_stream l) \<and> s_cursor l = Suc (length (s_buffer l)))"

lemma run_labels_text:
  assumes "window_ok text off l" "s_cursor l + (if lab = B_scan then 0 else 1) \<le> length (s_buffer l)"
    and "p = off + s_cursor l + (if lab = B_scan then 0 else 1)"
    and "text_labels fuel lab acc (off + s_start l) (map_option (\<lambda>m. off + m) (s_marker l)) p (drop p (text @ [NUL])) =
      Some (t, s, c)"
  shows "\<exists>l' off'. run_labels fuel lab acc l = Some (t, l') \<and> stands_at text off' l' \<and> off' + s_start l' = s \<and>
    off' + s_cursor l' = c \<and> (t = end_of_input \<or> s_cursor l' \<le> length (s_buffer l'))"
  using assms
proof (induction fuel arbitrary: lab acc l off p)
  case 0
  then show ?case by simp
next
  case (Suc fuel)
  define l1 where "l1 = at_label lab l"
  obtain off1 where l1: "window_ok text off1 l1" "off1 + s_cursor l1 = p"
      "off1 + s_start l1 = (if lab = B_scan then p else off + s_start l)"
      "map_option (\<lambda>m. off1 + m) (s_marker l1) =
       (if lab = B_scan then None else if marks lab then Some p else map_option (\<lambda>m. off + m) (s_marker l))"
      "s_cursor l1 \<le> length (s_buffer l1)"
      "s_cursor l1 < length (s_buffer l1) \<or> needs lab = 0 \<or> s_failed (s_stream l1)"
    using at_label_window [OF Suc.prems(1-3)] unfolding l1_def by blast
  obtain y y' r where y: "at (s_buffer l1 @ [NUL]) (s_cursor l1) = Some y" "drop p (text @ [NUL]) = y' # r"
      "r = drop (Suc p) (text @ [NUL])" "goal lab (code y) = goal lab (code y')"
      "s_cursor l1 < length (s_buffer l1) \<or> code y = 0"
    using byte_read [OF l1(1,5,6)] unfolding l1(2) by metis
  define acc1 where "acc1 = (if marks lab then accept lab else acc)"
  have run: "run_labels (Suc fuel) lab acc l = (case goal lab (code y') of
         Goto lab' \<Rightarrow> run_labels fuel lab' acc1 l1
       | Ends t \<Rightarrow> Some (t, l1)
       | Ends_With t \<Rightarrow> Some (t, l1\<lparr>s_cursor := s_cursor l1 + 1\<rparr>)
       | Back \<Rightarrow> (case s_marker l1 of None \<Rightarrow> None | Some m \<Rightarrow> Some (acc1, l1\<lparr>s_cursor := m\<rparr>))
       | Scan_Here \<Rightarrow> run_labels fuel B_scan parse_error l1
       | Scan_Behind \<Rightarrow> run_labels fuel B_scan parse_error (l1\<lparr>s_cursor := s_cursor l1 + 1\<rparr>))"
    unfolding run_labels.simps Let_def l1_def [symmetric] acc1_def [symmetric] using y(1,4) by simp
  note on_text = Suc.prems(4) [unfolded y(2), simplified, folded y(3) acc1_def l1(3,4)]
  show ?case
  proof (cases "goal lab (code y')")
    case (Goto lab')
    then have "s_cursor l1 < length (s_buffer l1)"
      using y(4,5) goal_nul(1) [of lab lab'] by metis
    moreover have "lab' \<noteq> B_scan"
      using Goto goal_scan by metis
    ultimately show ?thesis
      using Suc.IH [OF l1(1), of lab' "Suc p" acc1] on_text l1(2) Goto y by (simp add: run del: run_labels.simps)
  next
    case (Ends x)
    then show ?thesis
      using on_text l1 y by (intro exI [of _ l1] exI [of _ off1]) (auto simp: run stands_at_def simp del: run_labels.simps)
  next
    case (Ends_With x)
    then have "s_cursor l1 < length (s_buffer l1) \<or> x = end_of_input \<and> s_failed (s_stream l1) \<and> s_cursor l1 = length (s_buffer l1)"
      using y(4,5) goal_nul(3) [of lab x] l1(5,6) by (metis le_neq_implies_less needs.simps(1) zero_neq_numeral)
    then show ?thesis
      using on_text l1 y Ends_With
      by (intro exI [of _ "l1\<lparr>s_cursor := s_cursor l1 + 1\<rparr>"] exI [of _ off1]) (auto simp: run stands_at_def window_ok_def simp del: run_labels.simps)
  next
    case Back
    then show ?thesis
      using on_text l1 y  
      by (cases "s_marker l1") (auto simp: run stands_at_def window_ok_def simp del: run_labels.simps)
  next
    case Scan_Here
    then show ?thesis
      using Suc.IH [OF l1(1), of B_scan p parse_error] on_text l1 y by (simp add: run del: run_labels.simps)
  next
    case Scan_Behind
    then have "s_cursor l1 < length (s_buffer l1)"
      using y(4,5) goal_nul(2) [of lab] by metis
    moreover have "window_ok text off1 (l1\<lparr>s_cursor := s_cursor l1 + 1\<rparr>)"
      using l1(1) by (auto simp: window_ok_def le_SucI)
    ultimately show ?thesis
      using Suc.IH [of off1 "l1\<lparr>s_cursor := s_cursor l1 + 1\<rparr>" B_scan "Suc p" parse_error] on_text l1 y Scan_Behind
      by (simp add: run del: run_labels.simps)
  qed
qed

text \<open>
  A scan on the stream is the scan on its text, and the token is the same piece of it.  The text is
  what the buffer holds and what is still to come.
\<close>

lemma window_length:
  "window_ok text off l \<Longrightarrow> length text = off + length (s_buffer l) + length (to_come (s_stream l))"
  unfolding window_ok_def by (metis add.assoc le_add_diff_inverse length_append length_drop)

lemma stream_unread_enough: "length (s_buffer l) + length (to_come (s_stream l)) + 1 \<le> stream_unread l"
  by (simp add: stream_unread_def to_come_def whole_lines_def)

lemma stream_scan_text:
  assumes "window_ok text off l" "s_cursor l \<le> length (s_buffer l)"
    and "scan k0 = Some (t, k)" "m_content k0 = text" "m_cursor k0 = off + s_cursor l"
  shows "\<exists>l' off'. stream_scan l = Some (t, l') \<and> stands_at text off' l' \<and> m_content k = text \<and>
    off' + s_start l' = m_start k \<and> off' + s_cursor l' = m_cursor k \<and>
    (t = end_of_input \<or> s_cursor l' \<le> length (s_buffer l'))"
proof -
  define p where "p = off + s_cursor l"
  have k: "scan_from (Suc (length (text @ [NUL]))) (text @ [NUL]) p = Some (t, m_start k, m_cursor k)" "m_content k = text"
    using assms(3) unfolding scan_def p_def Let_def assms(4,5)
    by (auto simp: assms(4) simp del: scan_from.simps split: option.splits)
  have "length (drop p (text @ [NUL])) \<le> stream_unread l"
    using window_length [OF assms(1)] stream_unread_enough [of l] by (simp add: p_def)
  then have "text_labels (2 * stream_unread l) B_scan parse_error (off + s_start l) (map_option (\<lambda>m. off + m) (s_marker l)) p
      (drop p (text @ [NUL])) = Some (t, m_start k, m_cursor k)"
    using text_labels_scan [of "drop p (text @ [NUL])" "2 * stream_unread l" "Suc (length (text @ [NUL]))" p "text @ [NUL]"] k(1)
    by simp
  from run_labels_text [OF assms(1) _ _ this] show ?thesis
    using assms(2) k(2) by (simp add: stream_scan_def p_def)
qed

lemma stream_get_token_text:
  assumes "stands_at text off l" "m_content k = text" "off + s_start l = m_start k" "off + s_cursor l = m_cursor k"
  shows "stream_get_token l = get_token k"
proof -
  have d: "drop (m_start k) (text @ [NUL]) = drop (s_start l) (s_buffer l @ to_come (s_stream l) @ [NUL])"
  proof -
    have "drop off (text @ [NUL]) = s_buffer l @ to_come (s_stream l) @ [NUL]"
      using assms(1) by (simp add: stands_at_def window_ok_def)
    then show ?thesis
      by (metis add.commute assms(3) drop_drop)
  qed
  have n: "m_cursor k - m_start k = s_cursor l - s_start l"
    using assms(3,4) by simp
  consider "s_cursor l \<le> length (s_buffer l)" | "to_come (s_stream l) = []"
    using assms(1) by (auto simp: stands_at_def to_come_def)
  then show ?thesis
  proof cases
    case 1
    moreover have "s_start l \<le> s_cursor l"
      using assms(1) by (simp add: stands_at_def window_ok_def)
    ultimately show ?thesis
      unfolding stream_get_token_def get_token_def assms(2) d n by simp
  next
    case 2
    then show ?thesis
      unfolding stream_get_token_def get_token_def assms(2) d n by simp
  qed
qed

end
