(* ===== verification/Json_Stream_Parser.thy ===== *)
theory Json_Stream_Parser
  imports Json_Stream_Correct
begin

text \<open>
  The parser of \<open>src/json/json.hpp\<close> on a stream, and that it does what the parser of \<open>Json_Parser\<close>
  does on the text of the stream, with every callback and every exception.  Both are the one class
  \<open>parser\<close> of the code, here with the lexer of the other constructor.
\<close>

section \<open>Reading a token\<close>

text \<open>What the buffer holds, as a text of its own.\<close>

definition buffer_lexer :: "stream_lexer \<Rightarrow> lexer" where
  "buffer_lexer l = \<lparr>m_content = s_buffer l, m_start = s_start l, m_cursor = s_cursor l\<rparr>"

definition stream_get_number :: "'f float_ops \<Rightarrow> stream_lexer \<Rightarrow> json_exn + 'f json" where
  "stream_get_number F l = get_number F (buffer_lexer l)"

definition stream_get_string :: "stream_lexer \<Rightarrow> (json_exn + char list) option" where
  "stream_get_string l =
     get_string_loop (s_buffer l @ [NUL]) (s_limit l) (s_cursor l - 1) (s_start l + 1) []"

section \<open>The parser\<close>

record 'f stream_parser =
  sp_depth :: int
  sp_callback :: "'f parser_callback_t option"
  sp_last_token :: token_type
  sp_lexer :: stream_lexer

definition stream_next_token :: "'f stream_parser \<Rightarrow> 'f stream_parser parse_result" where
  "stream_next_token p =
     map_option (\<lambda>(t, l). Inr (p\<lparr>sp_last_token := t, sp_lexer := l\<rparr>)) (stream_scan (sp_lexer p))"

definition stream_unexpected_msg :: "'f stream_parser \<Rightarrow> char list" where
  "stream_unexpected_msg p = ''parse error - unexpected '' @
     (if sp_last_token p = parse_error then [CHR 0x27] @ stream_get_token (sp_lexer p) @ [CHR 0x27]
      else token_type_name (sp_last_token p))"

definition stream_expect :: "token_type \<Rightarrow> 'f stream_parser \<Rightarrow> unit parse_result" where
  "stream_expect t p =
     (if t \<noteq> sp_last_token p
      then Some (Inl (Invalid_Argument_Error (stream_unexpected_msg p @ ''; expected '' @ token_type_name t)))
      else Some (Inr ()))"

definition stream_unexpect :: "token_type \<Rightarrow> 'f stream_parser \<Rightarrow> unit parse_result" where
  "stream_unexpect t p =
     (if t = sp_last_token p then Some (Inl (Invalid_Argument_Error (stream_unexpected_msg p)))
      else Some (Inr ()))"

definition stream_parse_start ::
    "parse_event_t \<Rightarrow> 'f json \<Rightarrow> bool \<Rightarrow> 'f stream_parser \<Rightarrow> bool \<times> 'f json \<times> 'f stream_parser" where
  "stream_parse_start event initial keep p =
     (if \<not> keep then (False, JDiscarded, p)
      else case sp_callback p of
        None \<Rightarrow> (True, initial, p)
      | Some cb \<Rightarrow> (let (kept, result) = cb (sp_depth p) event JDiscarded; p = p\<lparr>sp_depth := sp_depth p + 1\<rparr>
                   in (kept, if kept then initial else result, p)))"

definition stream_parse_end ::
    "parse_event_t \<Rightarrow> bool \<Rightarrow> 'f json \<Rightarrow> 'f stream_parser \<Rightarrow> 'f json \<times> 'f stream_parser" where
  "stream_parse_end event keep result p =
     (if \<not> keep then (result, p)
      else case sp_callback p of
        None \<Rightarrow> (result, p)
      | Some cb \<Rightarrow> (let p = p\<lparr>sp_depth := sp_depth p - 1\<rparr>; (kept, result) = cb (sp_depth p) event result
                   in (if kept then result else JDiscarded, p)))"

fun stream_parse_members ::
    "(bool \<Rightarrow> 'f stream_parser \<Rightarrow> ('f json \<times> 'f stream_parser) parse_result) \<Rightarrow> nat \<Rightarrow> bool \<Rightarrow> 'f json \<Rightarrow>
     'f stream_parser \<Rightarrow> ('f json \<times> 'f stream_parser) parse_result" where
  "stream_parse_members rec 0 keep result p = None"
| "stream_parse_members rec (Suc fuel) keep result p =
     and_then (if sp_last_token p = value_separator then stream_next_token p else Some (Inr p)) (\<lambda>p.
     and_then (stream_expect value_string p) (\<lambda>_.
     and_then (stream_get_string (sp_lexer p)) (\<lambda>k.
       let keep_tag = (if keep then
             (case sp_callback p of None \<Rightarrow> True | Some cb \<Rightarrow> fst (cb (sp_depth p) key_event (JString k)))
             else False) in
     and_then (stream_next_token p) (\<lambda>p.
     and_then (stream_expect name_separator p) (\<lambda>_.
     and_then (stream_next_token p) (\<lambda>p.
     and_then (rec keep p) (\<lambda>(v, p).
     and_then (Some (if keep \<and> keep_tag \<and> \<not> is_discarded v then set_key result k v else Inr result)) (\<lambda>result.
       if sp_last_token p = value_separator then stream_parse_members rec fuel keep result p
       else Some (Inr (result, p))))))))))"

fun stream_parse_elements ::
    "(bool \<Rightarrow> 'f stream_parser \<Rightarrow> ('f json \<times> 'f stream_parser) parse_result) \<Rightarrow> nat \<Rightarrow> bool \<Rightarrow> 'f json \<Rightarrow>
     'f stream_parser \<Rightarrow> ('f json \<times> 'f stream_parser) parse_result" where
  "stream_parse_elements rec 0 keep result p = None"
| "stream_parse_elements rec (Suc fuel) keep result p =
     and_then (if sp_last_token p = value_separator then stream_next_token p else Some (Inr p)) (\<lambda>p.
     and_then (rec keep p) (\<lambda>(v, p).
     and_then (Some (if keep \<and> \<not> is_discarded v then push_back result v else Inr result)) (\<lambda>result.
       if sp_last_token p = value_separator then stream_parse_elements rec fuel keep result p
       else Some (Inr (result, p)))))"

definition stream_parse_object ::
    "(bool \<Rightarrow> 'f stream_parser \<Rightarrow> ('f json \<times> 'f stream_parser) parse_result) \<Rightarrow> nat \<Rightarrow> bool \<Rightarrow>
     'f stream_parser \<Rightarrow> ('f json \<times> 'f stream_parser) parse_result" where
  "stream_parse_object rec fuel keep p = (
     let (keep, result, p) = stream_parse_start object_start (JObject []) keep p in
     and_then (stream_next_token p) (\<lambda>p.
       if sp_last_token p = end_object then
         and_then (stream_next_token p) (\<lambda>p. Some (Inr (stream_parse_end object_end keep result p)))
       else
         and_then (stream_unexpect value_separator p) (\<lambda>_.
         and_then (stream_parse_members rec fuel keep result p) (\<lambda>(result, p).
         and_then (stream_expect end_object p) (\<lambda>_.
         and_then (stream_next_token p) (\<lambda>p. Some (Inr (stream_parse_end object_end keep result p))))))))"

definition stream_parse_array ::
    "(bool \<Rightarrow> 'f stream_parser \<Rightarrow> ('f json \<times> 'f stream_parser) parse_result) \<Rightarrow> nat \<Rightarrow> bool \<Rightarrow>
     'f stream_parser \<Rightarrow> ('f json \<times> 'f stream_parser) parse_result" where
  "stream_parse_array rec fuel keep p = (
     let (keep, result, p) = stream_parse_start array_start (JArray []) keep p in
     and_then (stream_next_token p) (\<lambda>p.
       if sp_last_token p = end_array then
         and_then (stream_next_token p) (\<lambda>p. Some (Inr (stream_parse_end array_end True result p)))
       else
         and_then (stream_unexpect value_separator p) (\<lambda>_.
         and_then (stream_parse_elements rec fuel keep result p) (\<lambda>(result, p).
         and_then (stream_expect end_array p) (\<lambda>_.
         and_then (stream_next_token p) (\<lambda>p. Some (Inr (stream_parse_end array_end keep result p))))))))"

definition stream_parse_value ::
    "'f float_ops \<Rightarrow> 'f stream_parser \<Rightarrow> ('f json \<times> 'f stream_parser) parse_result" where
  "stream_parse_value F p = (case sp_last_token p of
     literal_null \<Rightarrow> and_then (stream_next_token p) (\<lambda>p. Some (Inr (JNull, p)))
   | value_string \<Rightarrow>
       and_then (stream_get_string (sp_lexer p)) (\<lambda>s. and_then (stream_next_token p) (\<lambda>p. Some (Inr (JString s, p))))
   | literal_true \<Rightarrow> and_then (stream_next_token p) (\<lambda>p. Some (Inr (JBoolean True, p)))
   | literal_false \<Rightarrow> and_then (stream_next_token p) (\<lambda>p. Some (Inr (JBoolean False, p)))
   | value_number \<Rightarrow>
       and_then (Some (stream_get_number F (sp_lexer p))) (\<lambda>n. and_then (stream_next_token p) (\<lambda>p. Some (Inr (n, p))))
   | _ \<Rightarrow> and_then (stream_unexpect (sp_last_token p) p) (\<lambda>_. Some (Inr (JDiscarded, p))))"

fun stream_parse_internal ::
    "'f float_ops \<Rightarrow> nat \<Rightarrow> bool \<Rightarrow> 'f stream_parser \<Rightarrow> ('f json \<times> 'f stream_parser) parse_result" where
  "stream_parse_internal F 0 keep p = None"
| "stream_parse_internal F (Suc fuel) keep p = (case sp_last_token p of
     begin_object \<Rightarrow> stream_parse_object (stream_parse_internal F fuel) fuel keep p
   | begin_array \<Rightarrow> stream_parse_array (stream_parse_internal F fuel) fuel keep p
   | _ \<Rightarrow> and_then (stream_parse_value F p) (\<lambda>(result, p).
       if keep then (case sp_callback p of
           None \<Rightarrow> Some (Inr (result, p))
         | Some cb \<Rightarrow> (let (kept, result) = cb (sp_depth p) value_event result
                      in Some (Inr (if kept then result else JDiscarded, p))))
       else Some (Inr (result, p))))"

definition stream_parser_of :: "istream \<Rightarrow> 'f parser_callback_t option \<Rightarrow> 'f stream_parser parse_result" where
  "stream_parser_of s cb =
     stream_next_token \<lparr>sp_depth = 0, sp_callback = cb, sp_last_token = uninitialized, sp_lexer = stream_lexer_of s\<rparr>"

text \<open>The fuel is one for every byte of the stream and a few more.\<close>

definition stream_parser_parse :: "'f float_ops \<Rightarrow> nat \<Rightarrow> 'f stream_parser \<Rightarrow> 'f json parse_result" where
  "stream_parser_parse F fuel p =
     and_then (stream_parse_internal F fuel True p) (\<lambda>(result, p).
     and_then (stream_expect end_of_input p) (\<lambda>_.
       Some (Inr (if is_discarded result then JNull else result))))"

definition parse_stream :: "'f float_ops \<Rightarrow> istream \<Rightarrow> 'f parser_callback_t option \<Rightarrow> 'f json parse_result" where
  "parse_stream F s cb = and_then (stream_parser_of s cb) (stream_parser_parse F (length (s_rest s) + 3))"

text \<open>
  The constructor from a stream; \<open>operator<<\<close> and \<open>operator>>\<close>, which keep the old value when the
  parser throws.
\<close>

definition json_of_stream :: "'f float_ops \<Rightarrow> istream \<Rightarrow> 'f parser_callback_t option \<Rightarrow> 'f json parse_result" where
  "json_of_stream F i cb = parse_stream F i cb"

definition read_operator :: "'f float_ops \<Rightarrow> istream \<Rightarrow> 'f json \<Rightarrow> (json_exn option \<times> 'f json) option" where
  "read_operator F i j = (case parse_stream F i None of
     None \<Rightarrow> None | Some (Inl e) \<Rightarrow> Some (Some e, j) | Some (Inr v) \<Rightarrow> Some (None, v))"

section \<open>Tokens read from the buffer\<close>

text \<open>
  The value of a string token is that of its characters, wherever they stand and wherever the limit
  lies behind them.
\<close>

lemma second_surrogate:
  assumes "string_body t" "inp = pre @ t @ CHR 0x22 # r"
  shows "at inp (length pre) = Some (CHR 0x5C) \<and> at inp (length pre + 1) = Some (CHR ''u'') \<longleftrightarrow>
    (\<exists>a b c d t'. t = CHR 0x5C # CHR ''u'' # a # b # c # d # t' \<and> string_body t')"
proof -
  note at = at_here [OF assms(2)]
  have "at inp (length pre) = at (t @ CHR 0x22 # r) 0" using at [of 0] by simp
  then show ?thesis
    using at [of 1] by (auto simp: at_def elim: string_body_surrogate [OF assms(1), of r, unfolded at_def, simplified])
qed

lemma get_string_unicode_step:
  assumes "i < stop" "at inp i = Some (CHR 0x5C)" "at inp (i + 1) = Some (CHR ''u'')" "\<not> length inp < i + 6"
  shows "get_string_loop inp limit stop i res = (
     let codepoint = strtoul_hex (take 4 (drop (i + 2) inp)) in
     if codepoint \<ge> 0xD800 \<and> codepoint \<le> 0xDBFF then
       (if i + 7 \<ge> limit \<or> at inp (i + 6) \<noteq> Some (CHR 0x5C) \<or> at inp (i + 7) \<noteq> Some (CHR ''u'')
        then Some (Inl (Invalid_Argument_Error ''missing low surrogate''))
        else if length inp < i + 12 then None
        else (case to_unicode codepoint (strtoul_hex (take 4 (drop (i + 8) inp))) of
            Inl e \<Rightarrow> Some (Inl e)
          | Inr u \<Rightarrow> get_string_loop inp limit stop (i + 12) (res @ u)))
     else (case to_unicode codepoint 0 of
         Inl e \<Rightarrow> Some (Inl e)
       | Inr u \<Rightarrow> get_string_loop inp limit stop (i + 6) (res @ u)))"
proof -
  have "i + 1 + 5 = i + 6" "i + 1 + 6 = i + 7" "i + 1 + 11 = i + 12" "i + 1 + 7 = i + 8" "i + 1 + 1 = i + 2"
    by simp_all
  then show ?thesis
    using assms by (subst get_string_loop.simps) (simp only: Let_def option.case refl if_True if_False)
qed

lemma get_string_loop_same:
  assumes "string_body s" "inp = pre @ s @ CHR 0x22 # r" "inp' = pre' @ s @ CHR 0x22 # r'"
    and "length pre + length s \<le> limit" "length pre' + length s \<le> limit'"
  shows "get_string_loop inp limit (length pre + length s) (length pre) res =
    get_string_loop inp' limit' (length pre' + length s) (length pre') res"
  using assms
proof (induction s arbitrary: pre pre' res rule: length_induct)
  case (1 s)
  note at = at_here [OF "1.prems"(2)] at_here [OF "1.prems"(3)]
  have IH: "get_string_loop inp limit (length pre + length s) (length pre + k) res =
    get_string_loop inp' limit' (length pre' + length s) (length pre' + k) res"
    if "s = u @ t" "length u = k" "0 < k" "string_body t" for u t k res
  proof -
    have "get_string_loop inp limit (length (pre @ u) + length t) (length (pre @ u)) res =
      get_string_loop inp' limit' (length (pre' @ u) + length t) (length (pre' @ u)) res"
      by (rule "1.IH" [rule_format]) (use that "1.prems" in auto)
    then show ?thesis using that by (simp add: add.assoc)
  qed
  from "1.prems"(1) show ?case
  proof cases
    case empty
    then show ?thesis by (subst (1 2) get_string_loop.simps) simp
  next
    case (plain_char c t)
    then show ?thesis
      using at [of 0] IH [of "[c]" t 1] by (subst (1 2) get_string_loop.simps) (simp add: at_def)
  next
    case (escape d t)
    moreover have "d \<noteq> CHR ''u''" using escape(2) by (auto simp: escape_letters_def)
    ultimately show ?thesis
      using at [of 0] at [of 1] IH [of "[CHR 0x5C, d]" t 2] by (subst (1 2) get_string_loop.simps) (simp add: at_def)
  next
    case (unicode a b c d t)
    let ?u = "[CHR 0x5C, CHR ''u'', a, b, c, d]"
    let ?second = "\<exists>a b c d t'. t = CHR 0x5C # CHR ''u'' # a # b # c # d # t' \<and> string_body t'"
    have one: "get_string_loop inp limit (length pre + length s) (length pre + 6) res =
      get_string_loop inp' limit' (length pre' + length s) (length pre' + 6) res" for res
      using unicode IH [of ?u t 6] by simp
    have here: "at inp (length pre) = Some (CHR 0x5C)" "at inp (length pre + 1) = Some (CHR ''u'')"
      "at inp' (length pre') = Some (CHR 0x5C)" "at inp' (length pre' + 1) = Some (CHR ''u'')"
      "take 4 (drop (length pre + 2) inp) = [a, b, c, d]" "take 4 (drop (length pre' + 2) inp') = [a, b, c, d]"
      "\<not> length inp < length pre + 6" "\<not> length inp' < length pre' + 6" "0 < length s"
      using at [of 0] at [of 1] unicode(1) "1.prems"(2,3) by (simp_all add: at_def)
    have second: "at inp (length pre + 6) = Some (CHR 0x5C) \<and> at inp (length pre + 7) = Some (CHR ''u'') \<longleftrightarrow> ?second"
      "at inp' (length pre' + 6) = Some (CHR 0x5C) \<and> at inp' (length pre' + 7) = Some (CHR ''u'') \<longleftrightarrow> ?second"
      using second_surrogate [OF unicode(6), of inp "pre @ ?u" r] second_surrogate [OF unicode(6), of inp' "pre' @ ?u" r']
        unicode(1) "1.prems"(2,3) by (simp_all add: numeral_eq_Suc)
    show ?thesis
    proof (cases ?second)
      case True
      then obtain a' b' c' d' t' where t: "t = CHR 0x5C # CHR ''u'' # a' # b' # c' # d' # t'" "string_body t'" by blast
      have two: "get_string_loop inp limit (length pre + length s) (length pre + 12) res =
        get_string_loop inp' limit' (length pre' + length s) (length pre' + 12) res" for res
        using unicode(1) t IH [of "?u @ [CHR 0x5C, CHR ''u'', a', b', c', d']" t' 12] by simp
      have "take 4 (drop (length pre + 8) inp) = [a', b', c', d']" "take 4 (drop (length pre' + 8) inp') = [a', b', c', d']"
        "\<not> length inp < length pre + 12" "\<not> length inp' < length pre' + 12"
        "length pre + 7 < limit" "length pre' + 7 < limit'"
        using "1.prems"(2-5) unicode(1) t(1) by simp_all
      then show ?thesis
        using here(1-8) one two second True here(9)
        by (simp add: get_string_unicode_step Let_def split: sum.split)
    next
      case False
      then show ?thesis
        using here(1-8) one second here(9)
        by (simp add: get_string_unicode_step Let_def split: sum.split) blast
    qed
  qed
qed

text \<open>
  What is relied on of \<open>strtod\<close>: behind the start of a number it reads no further than a line break,
  which ends the number as the end of the text does.
\<close>

definition strtod_lines :: "'f float_ops \<Rightarrow> bool" where
  "strtod_lines F \<longleftrightarrow> (\<forall>s r. s \<noteq> [] \<longrightarrow> is_digit (hd s) \<or> hd s = CHR ''-'' \<longrightarrow> CHR 0x0A \<notin> set s \<longrightarrow>
     f_strtod F (s @ CHR 0x0A # r) = f_strtod F (s @ [NUL]))"

lemma strtod_line:
  assumes "strtod_lines F" "B \<noteq> []" "is_digit (hd B) \<or> hd B = CHR ''-''"
  shows "f_strtod F (B @ CHR 0x0A # r) = f_strtod F (B @ [NUL])"
proof (cases "CHR 0x0A \<in> set B")
  case True
  then obtain s r' where s: "B = s @ CHR 0x0A # r'" "CHR 0x0A \<notin> set s"
    using split_list_first [OF True] by blast
  have "\<not> is_digit (CHR 0x0A)" by (simp add: is_digit_def)
  then have "s \<noteq> []"
    using assms(3) unfolding s(1) by auto
  moreover from this have "hd s = hd B"
    by (simp add: s(1))
  ultimately have "f_strtod F (s @ CHR 0x0A # q) = f_strtod F (s @ [NUL])" for q
    using assms s(2) unfolding strtod_lines_def by metis
  then show ?thesis
    by (simp add: s(1))
next
  case False
  then show ?thesis
    using assms unfolding strtod_lines_def by blast
qed

lemma digits_line: "takeWhile is_digit (B @ CHR 0x0A # r) = takeWhile is_digit B" "takeWhile is_digit (B @ [NUL]) = takeWhile is_digit B"
  by (induction B) (auto simp: is_digit_def)

lemma strtoull_line: "strtoull (B @ CHR 0x0A # r) = strtoull (B @ [NUL])"
  by (simp add: strtoull_def digits_line)

lemma strtoll_line: "B \<noteq> [] \<Longrightarrow> strtoll (B @ CHR 0x0A # r) = strtoll (B @ [NUL])"
  by (simp add: strtoll_def digits_line)

text \<open>The lexers stand at the same place.\<close>

definition same_lexer :: "lexer \<Rightarrow> stream_lexer \<Rightarrow> bool" where
  "same_lexer k l \<longleftrightarrow> (\<exists>off. stands_at (m_content k) off l \<and> off + s_start l = m_start k \<and> off + s_cursor l = m_cursor k)"

lemma same_lexer_token: "same_lexer k l \<Longrightarrow> stream_get_token l = get_token k"
  using stream_get_token_text unfolding same_lexer_def by blast

lemma same_lexer_text:
  assumes "same_lexer k l"
  shows "drop (m_start k) (m_content k @ [NUL]) = drop (s_start l) (s_buffer l @ to_come (s_stream l) @ [NUL])"
proof -
  obtain off where off: "stands_at (m_content k) off l" "off + s_start l = m_start k"
    using assms by (auto simp: same_lexer_def)
  then have "drop off (m_content k @ [NUL]) = s_buffer l @ to_come (s_stream l) @ [NUL]"
    by (simp add: stands_at_def window_ok_def)
  then show ?thesis
    by (metis add.commute drop_drop off(2))
qed

lemma stream_get_number_same:
  assumes F: "strtod_lines F" and same: "same_lexer k l" and cursor: "s_start l < s_cursor l" "s_cursor l \<le> length (s_buffer l)"
    and first: "drop (m_start k) (m_content k @ [NUL]) = y # r" "is_digit y \<or> y = CHR ''-''"
  shows "stream_get_number F l = get_number F k"
proof -
  define B where "B = drop (s_start l) (s_buffer l)"
  have B: "B \<noteq> []" using cursor by (simp add: B_def)
  have b: "drop (s_start l) (s_buffer l @ [NUL]) = B @ [NUL]" using cursor by (simp add: B_def)
  have t: "drop (m_start k) (m_content k @ [NUL]) = B @ to_come (s_stream l) @ [NUL]"
    using same_lexer_text [OF same] cursor by (simp add: B_def)
  have hd: "hd B = y" using t B first(1) by (cases B) auto
  have c: "m_start k + u = m_cursor k \<longleftrightarrow> s_start l + u = s_cursor l" for u
    using same by (auto simp: same_lexer_def)
  have token: "get_token (buffer_lexer l) = get_token k"
    using same_lexer_token [OF same] by (simp add: get_token_def buffer_lexer_def stream_get_token_def)
  have lines: "strtoull (drop (m_start k) (m_content k @ [NUL])) = strtoull (B @ [NUL])"
    "strtoll (drop (m_start k) (m_content k @ [NUL])) = strtoll (B @ [NUL])"
    "f_strtod F (drop (m_start k) (m_content k @ [NUL])) = f_strtod F (B @ [NUL])"
    "hd (drop (m_start k) (m_content k @ [NUL])) = hd (B @ [NUL])"
    unfolding t using B hd first(2) strtod_line [OF F B] by (auto simp: to_come_def strtoull_line strtoll_line)
  show ?thesis
    unfolding stream_get_number_def get_number_def Let_def token lines c
    by (simp only: buffer_lexer_def lexer.simps b)
qed

lemma stream_get_string_same:
  assumes same: "same_lexer (m_lexer p) l" and cursor: "s_cursor l \<le> length (s_buffer l)"
    and p: "lexed p" "last_token p = value_string"
  shows "stream_get_string l = get_string (m_lexer p)"
proof -
  let ?k = "m_lexer p"
  let ?s = "m_start ?k" and ?c = "m_cursor ?k"
  obtain off where off: "stands_at (m_content ?k) off l" "off + s_start l = ?s" "off + s_cursor l = ?c"
    using same by (auto simp: same_lexer_def)
  obtain y r where yr: "drop ?s (text_of p) = y # r" "scan_token ?s y r = Some (Inl (value_string, ?c))"
    using p by (auto simp: lexed_def)
  have y: "y = CHR 0x22" by (rule string_token_first [OF yr(2)])
  obtain b r' where b: "r = b @ CHR 0x22 # r'" "string_body b" "?c = ?s + length b + 2"
    using yr(2) string_token unfolding y by blast
  have "?s \<le> length (text_of p)" using p by (simp add: lexed_def)
  then have len: "length (take ?s (text_of p)) = ?s" by (simp only: length_take min.absorb2)
  have here: "text_of p = (take ?s (text_of p) @ [CHR 0x22]) @ b @ CHR 0x22 # r'"
    using append_take_drop_id [of ?s "text_of p"] yr(1) y b(1) by (metis append.assoc append_Cons append_Nil)
  have c: "s_cursor l = s_start l + length b + 2" using off b(3) by simp
  have whole: "drop (s_start l) (s_buffer l) @ to_come (s_stream l) @ [NUL] = (CHR 0x22 # b @ [CHR 0x22]) @ r'"
    using same_lexer_text [OF same] yr(1) y b(1) cursor c by simp
  have "length (CHR 0x22 # b @ [CHR 0x22]) \<le> length (drop (s_start l) (s_buffer l))"
    using cursor c by simp
  then obtain r'' where "drop (s_start l) (s_buffer l) = (CHR 0x22 # b @ [CHR 0x22]) @ r''"
    using whole by (metis append_eq_append_conv_if append_eq_conv_conj)
  then have buffer: "s_buffer l @ [NUL] = (take (s_start l) (s_buffer l) @ [CHR 0x22]) @ b @ CHR 0x22 # r'' @ [NUL]"
    by (metis append.assoc append_Cons append_Nil append_take_drop_id)
  have blen: "length (take (s_start l) (s_buffer l)) = s_start l" using cursor c by simp
  have limit: "s_cursor l - 1 \<le> s_limit l" using off(1) cursor by (auto simp: stands_at_def window_ok_def)
  have "?c \<le> length (m_content ?k)"
    using p by (simp add: lexed_def less_Suc_eq_le)
  then have "get_string_loop (text_of p) (m_limit ?k) (Suc ?s + length b) (Suc ?s) [] =
    get_string_loop (s_buffer l @ [NUL]) (s_limit l) (Suc (s_start l) + length b) (Suc (s_start l)) []"
    using get_string_loop_same [OF b(2) here buffer, of "m_limit ?k" "s_limit l" "[]"] limit
    unfolding length_append len blen by (simp add: b(3) c)
  then show ?thesis
    unfolding stream_get_string_def get_string_def b(3) c by simp
qed

section \<open>The parsers do the same\<close>

definition same_parser :: "'f json_parser \<Rightarrow> 'f stream_parser \<Rightarrow> bool" where
  "same_parser p q \<longleftrightarrow> sp_depth q = depth p \<and> sp_callback q = callback p \<and> sp_last_token q = last_token p \<and>
     lexed p \<and> same_lexer (m_lexer p) (sp_lexer q) \<and>
     (last_token p = end_of_input \<or> s_cursor (sp_lexer q) \<le> length (s_buffer (sp_lexer q)))"

text \<open>If the parser of the text returns or throws, so does the other, with related results.\<close>

definition same_result :: "('a \<Rightarrow> 'b \<Rightarrow> bool) \<Rightarrow> 'a parse_result \<Rightarrow> 'b parse_result \<Rightarrow> bool" where
  "same_result R r r' \<longleftrightarrow> (case r of
     None \<Rightarrow> True
   | Some (Inl e) \<Rightarrow> r' = Some (Inl e)
   | Some (Inr x) \<Rightarrow> (\<exists>y. r' = Some (Inr y) \<and> R x y))"

lemma same_result_simps [simp]:
  "same_result R None r'" "same_result R (Some (Inl e)) r' \<longleftrightarrow> r' = Some (Inl e)"
  "same_result R (Some (Inr x)) (Some (Inr y)) \<longleftrightarrow> R x y"
  by (simp_all add: same_result_def)

definition same_value :: "'a \<times> 'f json_parser \<Rightarrow> 'a \<times> 'f stream_parser \<Rightarrow> bool" where
  "same_value x y \<longleftrightarrow> fst x = fst y \<and> same_parser (snd x) (snd y)"

lemma same_value_pair [simp]: "same_value (v, p) (w, q) \<longleftrightarrow> v = w \<and> same_parser p q"
  by (simp add: same_value_def)

lemma same_and_then:
  "same_result R r r' \<Longrightarrow> (\<And>x y. R x y \<Longrightarrow> same_result S (f x) (g y)) \<Longrightarrow> same_result S (and_then r f) (and_then r' g)"
  by (auto simp: same_result_def [of R] and_then_def split: option.splits sum.splits)

lemma same_and_then_value:
  "same_result same_value r r' \<Longrightarrow> (\<And>v p q. same_parser p q \<Longrightarrow> same_result S (f (v, p)) (g (v, q))) \<Longrightarrow>
   same_result S (and_then r f) (and_then r' g)"
  by (erule same_and_then) (metis same_value_def prod.collapse)

lemma same_and_then_eq:
  "r = r' \<Longrightarrow> (\<And>v. same_result S (f v) (g v)) \<Longrightarrow> same_result S (and_then r f) (and_then r' g)"
  by (rule same_and_then [of "(=)"]) (auto simp: same_result_def [of "(=)"] split: option.splits sum.splits)

lemma same_next_token:
  assumes "same_lexer (m_lexer p) (sp_lexer q)" "sp_depth q = depth p" "sp_callback q = callback p"
  shows "same_result same_parser (next_token p) (stream_next_token q)"
proof (cases "scan (m_lexer p)")
  case None
  then show ?thesis by (simp add: next_token_def)
next
  case (Some x)
  obtain t k where x: "x = (t, k)" by fastforce
  let ?l = "sp_lexer q"
  obtain off where off: "stands_at (m_content (m_lexer p)) off ?l" "off + s_start ?l = m_start (m_lexer p)"
      "off + s_cursor ?l = m_cursor (m_lexer p)"
    using assms(1) by (auto simp: same_lexer_def)
  have inside: "m_cursor (m_lexer p) < length (text_of p)"
  proof (rule ccontr)
    assume "\<not> m_cursor (m_lexer p) < length (text_of p)"
    then show False using Some by (simp add: scan_def)
  qed
  then obtain p' where p': "next_token p = Some (Inr p')" "advanced p p'"
    using next_token_from by blast
  have cursor: "s_cursor ?l \<le> length (s_buffer ?l)"
    using off(1,3) inside window_length [of "m_content (m_lexer p)" off ?l]
    by (auto simp: stands_at_def to_come_def)
  from off(1) have "window_ok (m_content (m_lexer p)) off ?l" by (simp add: stands_at_def)
  from stream_scan_text [OF this cursor Some [unfolded x] refl off(3) [symmetric]] show ?thesis
    using p' assms(2,3) Some x
    by (auto simp: next_token_def stream_next_token_def same_parser_def same_lexer_def advanced_def)
qed

lemma same_parser_next: "same_parser p q \<Longrightarrow> same_result same_parser (next_token p) (stream_next_token q)"
  by (rule same_next_token) (auto simp: same_parser_def)

lemma same_parser_fields:
  assumes "same_parser p q"
  shows "sp_last_token q = last_token p" "sp_callback q = callback p" "sp_depth q = depth p"
    "stream_expect t q = expect t p" "stream_unexpect t q = unexpect t p"
proof -
  have "stream_unexpected_msg q = unexpected_msg p"
    using assms same_lexer_token by (auto simp: same_parser_def stream_unexpected_msg_def unexpected_msg_def)
  then show "sp_last_token q = last_token p" "sp_callback q = callback p" "sp_depth q = depth p"
    "stream_expect t q = expect t p" "stream_unexpect t q = unexpect t p"
    using assms by (auto simp: same_parser_def stream_expect_def expect_def stream_unexpect_def unexpect_def)
qed

lemma same_parser_string:
  "same_parser p q \<Longrightarrow> last_token p = value_string \<Longrightarrow> stream_get_string (sp_lexer q) = get_string (m_lexer p)"
  by (rule stream_get_string_same) (auto simp: same_parser_def)

lemma string_types: "basic_json_parser_31 L m p r = Some (t, c) \<Longrightarrow> t \<noteq> value_number"
  by (induction L m p r rule: basic_json_parser_31.induct) (auto simp: Let_def split: if_splits)

lemma no_number:
  "basic_json_parser_23 p r = Some (t, c) \<Longrightarrow> t \<noteq> value_number"
  "basic_json_parser_24 p r = Some (t, c) \<Longrightarrow> t \<noteq> value_number"
  "basic_json_parser_25 p r = Some (t, c) \<Longrightarrow> t \<noteq> value_number"
  "basic_json_parser_30 p r = Some (Inl (t, c)) \<Longrightarrow> t \<noteq> value_number"
  by (auto simp: literal_defs basic_json_parser_30_def basic_json_parser_42_def split: list.splits if_splits)

lemma number_token_first:
  assumes "scan_token s y r = Some (Inl (value_number, c))"
  shows "is_digit y \<or> y = CHR ''-''"
proof (cases "scan_first (code y)")
  case L9
  then show ?thesis
    using assms by (auto simp: scan_token_def basic_json_parser_9_def simp del: basic_json_parser_31.simps
        split: list.splits if_splits dest: string_types)
next
  case L12
  then have "code y = code (CHR ''-'')"
    by (auto simp: scan_first_def split: if_splits)
  then show ?thesis
    by (simp only: code_eq_iff simp_thms)
next
  case L13
  then show ?thesis by (auto simp: scan_first_def is_digit_def split: if_splits)
next
  case L15
  then show ?thesis by (auto simp: scan_first_def is_digit_def split: if_splits)
qed (use assms no_number [of "Suc s" r] in \<open>fastforce simp: scan_token_def\<close>)+

lemma same_parser_number:
  assumes F: "strtod_lines F" and p: "same_parser p q" "last_token p = value_number"
  shows "stream_get_number F (sp_lexer q) = get_number F (m_lexer p)"
proof -
  obtain y r where y: "drop (m_start (m_lexer p)) (text_of p) = y # r"
      "scan_token (m_start (m_lexer p)) y r = Some (Inl (value_number, m_cursor (m_lexer p)))"
    using p by (auto simp: same_parser_def lexed_def)
  show ?thesis
    by (rule stream_get_number_same [OF F _ _ _ y(1) number_token_first [OF y(2)]])
      (use p in \<open>auto simp: same_parser_def same_lexer_def lexed_def\<close>)
qed

text \<open>A parser of values for each.\<close>

definition same_rec ::
    "(bool \<Rightarrow> 'f json_parser \<Rightarrow> ('f json \<times> 'f json_parser) parse_result) \<Rightarrow>
     (bool \<Rightarrow> 'f stream_parser \<Rightarrow> ('f json \<times> 'f stream_parser) parse_result) \<Rightarrow> bool" where
  "same_rec rec rec' \<longleftrightarrow> (\<forall>keep p q. same_parser p q \<longrightarrow> same_result same_value (rec keep p) (rec' keep q))"

lemma same_recD: "same_rec rec rec' \<Longrightarrow> same_parser p q \<Longrightarrow> same_result same_value (rec keep p) (rec' keep q)"
  by (simp add: same_rec_def)

lemma same_and_then_expect:
  assumes "same_parser p q" "last_token p = t \<Longrightarrow> same_result S (f ()) (g ())"
  shows "same_result S (and_then (expect t p) f) (and_then (stream_expect t q) g)"
  using assms by (auto simp: same_parser_fields expect_def)

lemma same_and_then_unexpect:
  assumes "same_parser p q" "same_result S (f ()) (g ())"
  shows "same_result S (and_then (unexpect t p) f) (and_then (stream_unexpect t q) g)"
  using assms by (auto simp: same_parser_fields unexpect_def)

lemma same_and_then_next:
  assumes "same_parser p q" "\<And>p q. same_parser p q \<Longrightarrow> same_result S (f p) (g q)"
  shows "same_result S (and_then (next_token p) f) (and_then (stream_next_token q) g)"
  by (rule same_and_then [OF same_parser_next [OF assms(1)] assms(2)])

lemma same_skip_separator:
  assumes "same_parser p q" "\<And>p q. same_parser p q \<Longrightarrow> same_result S (f p) (g q)"
  shows "same_result S
    (and_then (if last_token p = value_separator then next_token p else Some (Inr p)) f)
    (and_then (if sp_last_token q = value_separator then stream_next_token q else Some (Inr q)) g)"
  using assms same_and_then_next [OF assms] by (simp add: same_parser_fields)

lemma same_and_then_string:
  assumes "same_parser p q" "last_token p = value_string" "\<And>k. same_result S (f k) (g k)"
  shows "same_result S (and_then (get_string (m_lexer p)) f) (and_then (stream_get_string (sp_lexer q)) g)"
  unfolding same_parser_string [OF assms(1,2)] by (rule same_and_then_eq [OF refl assms(3)])

lemma same_if_token:
  assumes "same_parser p q" "same_result S a a'" "same_result S b b'"
  shows "same_result S (if last_token p = t then a else b) (if sp_last_token q = t then a' else b')"
  using assms by (simp add: same_parser_fields)

lemma same_more:
  assumes "same_parser p q" "\<And>result. same_result same_value (f result) (g result)"
  shows "same_result same_value (if last_token p = value_separator then f result else Some (Inr (result, p)))
    (if sp_last_token q = value_separator then g result else Some (Inr (result, q)))"
  using assms by (intro same_if_token) simp_all

lemma same_members:
  assumes rec: "same_rec rec rec'"
  shows "same_parser p q \<Longrightarrow> n \<le> n' \<Longrightarrow>
    same_result same_value (parse_members rec n keep result p) (stream_parse_members rec' n' keep result q)"
proof (induction n arbitrary: n' p q result)
  case (Suc n)
  then obtain m where m: "n' = Suc m" "n \<le> m" by (cases n') auto
  show ?case
    unfolding m(1) parse_members.simps stream_parse_members.simps Let_def
    apply (rule same_skip_separator [OF Suc.prems(1)])
    apply (rule same_and_then_expect, assumption)
    apply (rule same_and_then_string, assumption+)
    apply (rule same_and_then_next, assumption)
    apply (rule same_and_then_expect, assumption)
    apply (rule same_and_then_next, assumption)
    apply (rule same_and_then_value [OF same_recD [OF rec]], assumption)
    apply (simp only: prod.case)
    apply (rule same_and_then_eq)
    apply (simp add: same_parser_fields cong: option.case_cong)
    by (rule same_more, assumption, rule Suc.IH [OF _ m(2)])
qed simp

lemma same_elements:
  assumes rec: "same_rec rec rec'"
  shows "same_parser p q \<Longrightarrow> n \<le> n' \<Longrightarrow>
    same_result same_value (parse_elements rec n keep result p) (stream_parse_elements rec' n' keep result q)"
proof (induction n arbitrary: n' p q result)
  case (Suc n)
  then obtain m where m: "n' = Suc m" "n \<le> m" by (cases n') auto
  show ?case
    unfolding m(1) parse_elements.simps stream_parse_elements.simps
    apply (rule same_skip_separator [OF Suc.prems(1)])
    apply (rule same_and_then_value [OF same_recD [OF rec]], assumption)
    apply (simp only: prod.case)
    apply (rule same_and_then_eq [OF refl])
    by (rule same_more, assumption, rule Suc.IH [OF _ m(2)])
qed simp

lemma same_parse_start:
  assumes "same_parser p q" "parse_start event initial keep p = (k, result, p')"
  obtains q' where "stream_parse_start event initial keep q = (k, result, q')" "same_parser p' q'"
  using assms that by (cases "callback p")
    (auto simp: parse_start_def stream_parse_start_def same_parser_def lexed_def Let_def split: if_splits prod.splits)

lemma same_parse_end:
  "same_parser p q \<Longrightarrow> same_value (parse_end event keep result p) (stream_parse_end event keep result q)"
  by (cases "callback p")
    (auto simp: parse_end_def stream_parse_end_def same_value_def same_parser_def lexed_def Let_def split: prod.splits)

lemma same_finish:
  assumes "same_parser p q"
  shows "same_result same_value
    (and_then (next_token p) (\<lambda>p. Some (Inr (parse_end event keep result p))))
    (and_then (stream_next_token q) (\<lambda>q. Some (Inr (stream_parse_end event keep result q))))"
  by (rule same_and_then_next [OF assms]) (simp add: same_parse_end)

lemma same_object:
  assumes rec: "same_rec rec rec'" and n: "n \<le> n'" and p: "same_parser p q"
  shows "same_result same_value (parse_object rec n keep p) (stream_parse_object rec' n' keep q)"
proof -
  obtain k result p' where s: "parse_start object_start (JObject []) keep p = (k, result, p')"
    by (metis prod_cases3)
  obtain q' where q: "stream_parse_start object_start (JObject []) keep q = (k, result, q')" "same_parser p' q'"
    using same_parse_start [OF p s] .
  show ?thesis
    unfolding parse_object_def stream_parse_object_def Let_def s q(1) prod.case
    apply (rule same_and_then_next [OF q(2)])
    apply (rule same_if_token, assumption)
    apply (rule same_finish, assumption)
    apply (rule same_and_then_unexpect, assumption)
    apply (rule same_and_then_value [OF same_members [OF rec _ n]], assumption)
    apply (simp only: prod.case)
    by (rule same_and_then_expect, assumption, rule same_finish)
qed

lemma same_array:
  assumes rec: "same_rec rec rec'" and n: "n \<le> n'" and p: "same_parser p q"
  shows "same_result same_value (parse_array rec n keep p) (stream_parse_array rec' n' keep q)"
proof -
  obtain k result p' where s: "parse_start array_start (JArray []) keep p = (k, result, p')"
    by (metis prod_cases3)
  obtain q' where q: "stream_parse_start array_start (JArray []) keep q = (k, result, q')" "same_parser p' q'"
    using same_parse_start [OF p s] .
  show ?thesis
    unfolding parse_array_def stream_parse_array_def Let_def s q(1) prod.case
    apply (rule same_and_then_next [OF q(2)])
    apply (rule same_if_token, assumption)
    apply (rule same_finish, assumption)
    apply (rule same_and_then_unexpect, assumption)
    apply (rule same_and_then_value [OF same_elements [OF rec _ n]], assumption)
    apply (simp only: prod.case)
    by (rule same_and_then_expect, assumption, rule same_finish)
qed

lemma same_simple_value:
  assumes "same_parser p q"
  shows "same_result same_value (and_then (next_token p) (\<lambda>p. Some (Inr (v, p))))
    (and_then (stream_next_token q) (\<lambda>q. Some (Inr (v, q))))"
  by (rule same_and_then_next [OF assms]) simp

lemma same_parse_value:
  assumes F: "strtod_lines F" and p: "same_parser p q"
  shows "same_result same_value (parse_value F p) (stream_parse_value F q)"
proof (cases "last_token p")
  case value_string
  then show ?thesis
    unfolding parse_value_def stream_parse_value_def same_parser_fields(1) [OF p]
    by (simp del: and_then_simps) (intro same_and_then_string [OF p] same_simple_value p)
next
  case value_number
  then show ?thesis
    unfolding parse_value_def stream_parse_value_def same_parser_fields(1) [OF p]
    by (simp del: and_then_simps add: same_parser_number [OF F p])
      (intro same_and_then_eq refl same_simple_value p)
qed (use same_parser_fields [OF p] same_simple_value [OF p] in
    \<open>auto simp: parse_value_def stream_parse_value_def unexpect_def\<close>)

lemma same_internal: "strtod_lines F \<Longrightarrow> n \<le> n' \<Longrightarrow> same_rec (parse_internal F n) (stream_parse_internal F n')"
proof (induction n arbitrary: n')
  case 0
  then show ?case by (simp add: same_rec_def)
next
  case (Suc n)
  then obtain m where m: "n' = Suc m" "n \<le> m" by (cases n') auto
  note rec = Suc.IH [OF Suc.prems(1) m(2)]
  have simple: "same_result same_value
      (and_then (parse_value F p) (\<lambda>(result, p).
       if keep then (case callback p of None \<Rightarrow> Some (Inr (result, p))
         | Some cb \<Rightarrow> (let (kept, result) = cb (depth p) value_event result
                      in Some (Inr (if kept then result else JDiscarded, p))))
       else Some (Inr (result, p))))
      (and_then (stream_parse_value F q) (\<lambda>(result, q).
       if keep then (case sp_callback q of None \<Rightarrow> Some (Inr (result, q))
         | Some cb \<Rightarrow> (let (kept, result) = cb (sp_depth q) value_event result
                      in Some (Inr (if kept then result else JDiscarded, q))))
       else Some (Inr (result, q))))"
    if "same_parser p q" for p :: "'a json_parser" and q keep
    apply (rule same_and_then_value [OF same_parse_value [OF Suc.prems(1) that]])
    by (auto simp: same_parser_fields split: option.split prod.split)
  show ?case
    unfolding same_rec_def
  proof (intro allI impI)
    fix keep and p :: "'a json_parser" and q :: "'a stream_parser"
    assume p: "same_parser p q"
    show "same_result same_value (parse_internal F (Suc n) keep p) (stream_parse_internal F n' keep q)"
      using simple [OF p, of keep] same_object [OF rec m(2) p, of keep] same_array [OF rec m(2) p, of keep]
      by (cases "last_token p") (simp_all add: m(1) same_parser_fields(1) [OF p])
  qed
qed

lemma stream_text_fuel: "length (stream_text s) + 2 \<le> length (s_rest s) + 3"
  by (simp add: stream_text_def whole_lines_def)

text \<open>
  C20: a stream is parsed as its text is: the text from where it stands, with a line break behind an
  unfinished last line, and no text from a stream that has failed.
\<close>

theorem stream_parsed_as_text:
  assumes "strtod_lines F"
  shows "parse_stream F s cb = parse F (stream_text s) cb"
proof -
  let ?p = "\<lparr>depth = 0, callback = cb, last_token = uninitialized, m_lexer = lexer_of (stream_text s)\<rparr>"
  let ?q = "\<lparr>sp_depth = 0, sp_callback = cb, sp_last_token = uninitialized, sp_lexer = stream_lexer_of s\<rparr>"
  have start: "same_lexer (lexer_of (stream_text s)) (stream_lexer_of s)"
    using window_ok_start [of s] unfolding same_lexer_def
    by (intro exI [of _ 0]) (auto simp: lexer_of_def stream_lexer_of_def stands_at_def Let_def split: prod.split)
  have first: "same_result (\<lambda>p q. same_parser p q \<and> m_content (m_lexer p) = stream_text s)
      (next_token ?p) (stream_next_token ?q)"
    using same_next_token [of ?p ?q] start
    by (auto simp: same_result_def next_token_def scan_def lexer_of_def Let_def split: option.splits sum.splits)
  have parse: "same_result (=) (parser_parse F p) (stream_parser_parse F (length (s_rest s) + 3) q)"
    if "same_parser p q \<and> m_content (m_lexer p) = stream_text s" for p q
    using that stream_text_fuel [of s] unfolding parser_parse_def stream_parser_parse_def
    by (intro same_and_then_value [OF same_recD [OF same_internal [OF assms]]])
      (auto intro!: same_and_then_expect)
  have "same_result (=) (parse F (stream_text s) cb) (parse_stream F s cb)"
    unfolding parse_def parse_stream_def parser_of_def stream_parser_of_def
    by (rule same_and_then [OF first parse])
  moreover obtain r where "parse F (stream_text s) cb = Some r"
    using parse_returns by blast
  ultimately show ?thesis
    by (cases r) (simp_all add: same_result_def)
qed

lemma int_lines: "strtod_lines int_floats"
  by (simp add: strtod_lines_def int_floats_def digits_line)

text \<open>A document of two lines, the second unfinished.\<close>

theorem stream_parsed_as_text_witness:
  "parse_stream int_floats \<lparr>s_rest = ''[1,'' @ [CHR 0x0A] @ ''23]'', s_failed = False\<rparr> None =
   parse int_floats (''[1,'' @ [CHR 0x0A] @ ''23]'' @ [CHR 0x0A]) None"
  using stream_parsed_as_text [OF int_lines, of "\<lparr>s_rest = ''[1,'' @ [CHR 0x0A] @ ''23]'', s_failed = False\<rparr>" None]
  by (simp add: stream_text_def whole_lines_def)

end
