(* ===== verification/Json_Callback.thy ===== *)
theory Json_Callback
  imports Json_Stream_Parser Json_Throws
begin

text \<open>
  The callback of the parser in \<open>src/json/json.hpp\<close> only filters: it decides which values are kept,
  and has no say in which texts are parsed and which exceptions are thrown.
\<close>

section \<open>Two parsers with callbacks of their own\<close>

text \<open>
  Both stand at the same token.  If \<open>all\<close> is set, neither callback drops or changes a value.
\<close>

definition keeps_all :: "'f parser_callback_t" where
  "keeps_all = (\<lambda>depth event value. (True, value))"

lemma keeps_all_simps [simp]: "keeps_all d e v = (True, v)"
  by (simp add: keeps_all_def)

definition keeping :: "'f parser_callback_t option \<Rightarrow> bool" where
  "keeping cb \<longleftrightarrow> cb = None \<or> cb = Some keeps_all"

definition beside :: "bool \<Rightarrow> 'f json_parser \<Rightarrow> 'f json_parser \<Rightarrow> bool" where
  "beside all p q \<longleftrightarrow> last_token q = last_token p \<and> m_lexer q = m_lexer p \<and>
     (all \<longrightarrow> keeping (callback p) \<and> keeping (callback q))"

definition beside_values :: "bool \<Rightarrow> 'f json \<times> 'f json_parser \<Rightarrow> 'f json \<times> 'f json_parser \<Rightarrow> bool" where
  "beside_values all x y \<longleftrightarrow> beside all (snd x) (snd y) \<and> (all \<longrightarrow> fst x = fst y)"

lemma beside_values_pair [simp]:
  "beside_values all (v, p) (w, q) \<longleftrightarrow> beside all p q \<and> (all \<longrightarrow> v = w)"
  by (simp add: beside_values_def)

lemma beside_fields:
  assumes "beside all p q"
  shows "last_token q = last_token p" "m_lexer q = m_lexer p" "expect t q = expect t p" "unexpect t q = unexpect t p"
  using assms by (auto simp: beside_def expect_def unexpect_def unexpected_msg_def)

lemma beside_and_then_value:
  "same_result (beside_values all) r r' \<Longrightarrow>
   (\<And>v w p q. beside all p q \<Longrightarrow> (all \<Longrightarrow> v = w) \<Longrightarrow> same_result S (f (v, p)) (g (w, q))) \<Longrightarrow>
   same_result S (and_then r f) (and_then r' g)"
  by (erule same_and_then) (metis beside_values_def prod.collapse)

lemma beside_next:
  assumes "beside all p q" "\<And>p q. beside all p q \<Longrightarrow> same_result S (f p) (g q)"
  shows "same_result S (and_then (next_token p) f) (and_then (next_token q) g)"
proof (rule same_and_then)
  show "same_result (beside all) (next_token p) (next_token q)"
    using assms(1) by (cases "scan (m_lexer p)") (auto simp: next_token_def beside_def)
qed (rule assms(2))

lemma beside_skip_separator:
  assumes "beside all p q" "\<And>p q. beside all p q \<Longrightarrow> same_result S (f p) (g q)"
  shows "same_result S
    (and_then (if last_token p = value_separator then next_token p else Some (Inr p)) f)
    (and_then (if last_token q = value_separator then next_token q else Some (Inr q)) g)"
  using assms beside_next [OF assms] by (simp add: beside_fields)

lemma beside_expect:
  assumes "beside all p q" "same_result S (f ()) (g ())"
  shows "same_result S (and_then (expect t p) f) (and_then (expect t q) g)"
  unfolding beside_fields(3) [OF assms(1)] by (rule same_and_then_eq [OF refl]) (use assms(2) in simp)

lemma beside_unexpect:
  assumes "beside all p q" "same_result S (f ()) (g ())"
  shows "same_result S (and_then (unexpect t p) f) (and_then (unexpect t q) g)"
  unfolding beside_fields(4) [OF assms(1)] by (rule same_and_then_eq [OF refl]) (use assms(2) in simp)

lemma beside_if_token:
  assumes "beside all p q" "same_result S a a'" "same_result S c c'"
  shows "same_result S (if last_token p = t then a else c) (if last_token q = t then a' else c')"
  using assms by (simp add: beside_fields)

lemma beside_string:
  assumes "beside all p q" "\<And>k. same_result S (f k) (g k)"
  shows "same_result S (and_then (get_string (m_lexer p)) f) (and_then (get_string (m_lexer q)) g)"
  unfolding beside_fields(2) [OF assms(1)] by (rule same_and_then_eq [OF refl assms(2)])

section \<open>Containers\<close>

text \<open>A container that is kept is one, so that adding to it does not throw.\<close>

definition container_ok :: "('f json \<Rightarrow> bool) \<Rightarrow> bool \<Rightarrow> bool \<Rightarrow> 'f json \<Rightarrow> bool \<Rightarrow> 'f json \<Rightarrow> bool" where
  "container_ok is_kind all keep result keep' result' \<longleftrightarrow>
     (keep \<longrightarrow> is_kind result) \<and> (keep' \<longrightarrow> is_kind result') \<and> (all \<longrightarrow> keep \<and> keep' \<and> result = result')"

lemma container_step:
  assumes "container_ok is_kind all keep result keep' result'"
    and add: "\<And>j v. is_kind j \<Longrightarrow> \<exists>j'. add j v = Inr j' \<and> is_kind j'"
    and c: "c \<Longrightarrow> keep" "c' \<Longrightarrow> keep'" "all \<Longrightarrow> c = c'" "all \<Longrightarrow> v = v'"
    and next_step: "\<And>j j'. container_ok is_kind all keep j keep' j' \<Longrightarrow> same_result S (f j) (g j')"
  shows "same_result S (and_then (Some (if c then add result v else Inr result)) f)
    (and_then (Some (if c' then add result' v' else Inr result')) g)"
proof -
  have one: "\<exists>j. (if d then add r x else Inr r) = Inr j \<and> (k \<longrightarrow> is_kind j)"
    if "d \<Longrightarrow> k" "k \<longrightarrow> is_kind r" for d r x k
    using that add [of r x] by (cases d) auto
  obtain j where j: "(if c then add result v else Inr result) = Inr j" "keep \<longrightarrow> is_kind j"
    using one [of c keep result v] assms(1) c(1) by (auto simp: container_ok_def)
  obtain j' where j': "(if c' then add result' v' else Inr result') = Inr j'" "keep' \<longrightarrow> is_kind j'"
    using one [of c' keep' result' v'] assms(1) c(2) by (auto simp: container_ok_def)
  have "container_ok is_kind all keep j keep' j'"
    using assms(1) c(3,4) j j' unfolding container_ok_def by (metis sum.inject(2))
  then show ?thesis using next_step j(1) j'(1) by simp
qed

text \<open>A parser of values for each.\<close>

definition beside_rec ::
    "bool \<Rightarrow> (bool \<Rightarrow> 'f json_parser \<Rightarrow> ('f json \<times> 'f json_parser) parse_result) \<Rightarrow> bool" where
  "beside_rec all rec \<longleftrightarrow> (\<forall>keep keep' p q. beside all p q \<longrightarrow> (all \<longrightarrow> keep \<and> keep') \<longrightarrow>
     same_result (beside_values all) (rec keep p) (rec keep' q))"

lemma beside_recD:
  "beside_rec all rec \<Longrightarrow> beside all p q \<Longrightarrow> (all \<Longrightarrow> keep \<and> keep') \<Longrightarrow>
   same_result (beside_values all) (rec keep p) (rec keep' q)"
  unfolding beside_rec_def by blast

lemma beside_more:
  assumes "beside all p q" "container_ok K all keep result keep' result'"
    and "same_result (beside_values all) (f result) (g result')"
  shows "same_result (beside_values all)
    (if last_token p = value_separator then f result else Some (Inr (result, p)))
    (if last_token q = value_separator then g result' else Some (Inr (result', q)))"
  using assms by (intro beside_if_token) (simp_all add: container_ok_def)

lemma keeping_fst:
  "keeping cb \<Longrightarrow> (case cb of None \<Rightarrow> True | Some f \<Rightarrow> fst (f d e v))"
  by (auto simp: keeping_def)

lemma beside_members:
  assumes rec: "beside_rec all rec"
  shows "beside all p q \<Longrightarrow> container_ok is_object all keep result keep' result' \<Longrightarrow>
    same_result (beside_values all) (parse_members rec n keep result p) (parse_members rec n keep' result' q)"
proof (induction n arbitrary: p q result result')
  case (Suc n)
  have keep: "all \<Longrightarrow> keep \<and> keep'" using Suc.prems(2) by (simp add: container_ok_def)
  show ?case
    unfolding parse_members.simps Let_def
    apply (rule beside_skip_separator [OF Suc.prems(1)])
    apply (rule beside_expect, assumption)
    apply (rule beside_string, assumption)
    apply (rule beside_next, assumption)
    apply (rule beside_expect, assumption)
    apply (rule beside_next, assumption)
    apply (rule beside_and_then_value [OF beside_recD [OF rec _ keep]], assumption, assumption)
    apply (simp only: prod.case)
    apply (rule container_step [OF Suc.prems(2) set_key_object])
    apply assumption
    apply blast
    apply blast
    subgoal by (simp add: keep keeping_fst beside_def)
    apply blast
    by (rule beside_more, assumption, assumption, rule Suc.IH)
qed simp

lemma beside_elements:
  assumes rec: "beside_rec all rec"
  shows "beside all p q \<Longrightarrow> container_ok is_array all keep result keep' result' \<Longrightarrow>
    same_result (beside_values all) (parse_elements rec n keep result p) (parse_elements rec n keep' result' q)"
proof (induction n arbitrary: p q result result')
  case (Suc n)
  have keep: "all \<Longrightarrow> keep \<and> keep'" using Suc.prems(2) by (simp add: container_ok_def)
  show ?case
    unfolding parse_elements.simps
    apply (rule beside_skip_separator [OF Suc.prems(1)])
    apply (rule beside_and_then_value [OF beside_recD [OF rec _ keep]], assumption, assumption)
    apply (simp only: prod.case)
    apply (rule container_step [OF Suc.prems(2) push_back_onto_array])
    apply assumption
    apply blast
    apply blast
    subgoal by (simp add: keep)
    apply blast
    by (rule beside_more, assumption, assumption, rule Suc.IH)
qed simp

lemma beside_start:
  assumes "beside all p q" "all \<longrightarrow> keep \<and> keep'" "K initial"
    and "parse_start event initial keep p = (k, result, p')" "parse_start event initial keep' q = (k', result', q')"
  shows "beside all p' q'" "container_ok K all k result k' result'"
  using assms by (auto simp: parse_start_def beside_def keeping_def container_ok_def Let_def
    split: if_splits option.splits prod.splits)

lemma beside_end:
  assumes "beside all p q" "all \<longrightarrow> keep \<and> keep' \<and> result = result'"
  shows "beside_values all (parse_end event keep result p) (parse_end event keep' result' q)"
  using assms by (auto simp: parse_end_def beside_values_def beside_def keeping_def Let_def
    split: option.splits prod.splits)

lemma beside_finish:
  assumes "beside all p q" "all \<Longrightarrow> keep \<and> keep' \<and> result = result'"
  shows "same_result (beside_values all)
    (and_then (next_token p) (\<lambda>p. Some (Inr (parse_end event keep result p))))
    (and_then (next_token q) (\<lambda>q. Some (Inr (parse_end event keep' result' q))))"
  by (rule beside_next [OF assms(1)]) (simp add: beside_end assms(2))

lemma beside_object:
  assumes rec: "beside_rec all rec" and p: "beside all p q" "all \<longrightarrow> keep \<and> keep'"
  shows "same_result (beside_values all) (parse_object rec n keep p) (parse_object rec n keep' q)"
proof -
  obtain k result p' where s: "parse_start object_start (JObject []) keep p = (k, result, p')"
    by (metis prod_cases3)
  obtain k' result' q' where t: "parse_start object_start (JObject []) keep' q = (k', result', q')"
    by (metis prod_cases3)
  have start: "beside all p' q'" "container_ok is_object all k result k' result'"
    using beside_start [OF p _ s t, of is_object] by (simp_all add: inspection_defs)
  then have k: "all \<Longrightarrow> k \<and> k' \<and> result = result'" by (simp add: container_ok_def)
  show ?thesis
    unfolding parse_object_def Let_def s t prod.case
    apply (rule beside_next [OF start(1)])
    apply (rule beside_if_token, assumption)
    apply (rule beside_finish [OF _ k], assumption, assumption)
    apply (rule beside_unexpect, assumption)
    apply (rule beside_and_then_value [OF beside_members [OF rec _ start(2)]], assumption)
    apply (simp only: prod.case)
    apply (rule beside_expect, assumption)
    by (rule beside_finish) (use k in auto)
qed

lemma beside_array:
  assumes rec: "beside_rec all rec" and p: "beside all p q" "all \<longrightarrow> keep \<and> keep'"
  shows "same_result (beside_values all) (parse_array rec n keep p) (parse_array rec n keep' q)"
proof -
  obtain k result p' where s: "parse_start array_start (JArray []) keep p = (k, result, p')"
    by (metis prod_cases3)
  obtain k' result' q' where t: "parse_start array_start (JArray []) keep' q = (k', result', q')"
    by (metis prod_cases3)
  have start: "beside all p' q'" "container_ok is_array all k result k' result'"
    using beside_start [OF p _ s t, of is_array] by (simp_all add: inspection_defs)
  then have k: "all \<Longrightarrow> k \<and> k' \<and> result = result'" by (simp add: container_ok_def)
  show ?thesis
    unfolding parse_array_def Let_def s t prod.case
    apply (rule beside_next [OF start(1)])
    apply (rule beside_if_token, assumption)
    subgoal by (rule beside_finish) (use k in auto)
    apply (rule beside_unexpect, assumption)
    apply (rule beside_and_then_value [OF beside_elements [OF rec _ start(2)]], assumption)
    apply (simp only: prod.case)
    apply (rule beside_expect, assumption)
    by (rule beside_finish) (use k in auto)
qed

section \<open>Values\<close>

lemma beside_simple_value:
  assumes "beside all p q"
  shows "same_result (beside_values all) (and_then (next_token p) (\<lambda>p. Some (Inr (v, p))))
    (and_then (next_token q) (\<lambda>q. Some (Inr (v, q))))"
  by (rule beside_next [OF assms]) simp

lemma beside_value:
  assumes p: "beside all p q"
  shows "same_result (beside_values all) (parse_value F p) (parse_value F q)"
proof (cases "last_token p")
  case value_string
  then show ?thesis
    unfolding parse_value_def beside_fields(1) [OF p]
    by (simp del: and_then_simps) (intro beside_string [OF p] beside_simple_value p)
next
  case value_number
  then show ?thesis
    unfolding parse_value_def beside_fields(1,2) [OF p]
    by (simp del: and_then_simps) (intro same_and_then_eq refl beside_simple_value p)
qed (use beside_fields(1,2) [OF p] beside_simple_value [OF p] in
    \<open>auto simp: parse_value_def unexpect_def unexpected_msg_def\<close>)

lemma beside_internal: "beside_rec all (parse_internal F n)"
proof (induction n)
  case 0
  then show ?case by (simp add: beside_rec_def)
next
  case (Suc n)
  show ?case
    unfolding beside_rec_def
  proof (intro allI impI)
    fix keep keep' and p q :: "'a json_parser"
    assume p: "beside all p q" and keep: "all \<longrightarrow> keep \<and> keep'"
    have simple: "same_result (beside_values all)
        (and_then (parse_value F p) (\<lambda>(result, p).
         if keep then (case callback p of None \<Rightarrow> Some (Inr (result, p))
           | Some cb \<Rightarrow> (let (kept, result) = cb (depth p) value_event result
                        in Some (Inr (if kept then result else JDiscarded, p))))
         else Some (Inr (result, p))))
        (and_then (parse_value F q) (\<lambda>(result, q).
         if keep' then (case callback q of None \<Rightarrow> Some (Inr (result, q))
           | Some cb \<Rightarrow> (let (kept, result) = cb (depth q) value_event result
                        in Some (Inr (if kept then result else JDiscarded, q))))
         else Some (Inr (result, q))))"
      apply (rule beside_and_then_value [OF beside_value [OF p]])
      using keep by (auto simp: beside_def keeping_def split: option.split prod.split)
    show "same_result (beside_values all) (parse_internal F (Suc n) keep p) (parse_internal F (Suc n) keep' q)"
      using simple beside_object [OF Suc.IH p keep] beside_array [OF Suc.IH p keep]
      by (cases "last_token p") (simp_all add: beside_fields(1) [OF p])
  qed
qed

lemma beside_parse:
  assumes "all \<longrightarrow> keeping cb \<and> keeping cb'"
  shows "same_result (\<lambda>v w. all \<longrightarrow> v = w) (parse F s cb) (parse F s cb')"
  unfolding parse_def parser_of_def
proof (rule beside_next [of all])
  show "same_result (\<lambda>v w. all \<longrightarrow> v = w) (parser_parse F p) (parser_parse F q)" if "beside all p q" for p q
    unfolding parser_parse_def beside_fields(2) [OF that]
    by (rule beside_and_then_value [OF beside_recD [OF beside_internal that]])
      (auto intro!: beside_expect)
qed (use assms in \<open>simp add: beside_def\<close>)

section \<open>A callback that keeps nothing\<close>

definition keeps_none :: "'f parser_callback_t" where
  "keeps_none = (\<lambda>depth event value. (False, value))"

lemma keeps_none_simps [simp]: "keeps_none d e v = (False, v)"
  by (simp add: keeps_none_def)

lemma and_then_SomeE:
  assumes "and_then r f = Some (Inr y)"
  obtains x where "r = Some (Inr x)" "f x = Some (Inr y)"
  using assms by (auto simp: and_then_def split: option.splits sum.splits)

lemma next_token_callback: "next_token p = Some (Inr q) \<Longrightarrow> callback q = callback p"
  by (auto simp: next_token_def)

lemma parse_value_callback: "parse_value F p = Some (Inr (v, q)) \<Longrightarrow> callback q = callback p"
  unfolding parse_value_def
  by (cases "last_token p") (auto elim!: and_then_SomeE dest: next_token_callback simp del: and_then_simps)

text \<open>Nothing is added to what is not kept.\<close>

lemma members_not_kept: "parse_members rec n False result p = Some (Inr (v, q)) \<Longrightarrow> v = result"
proof (induction n arbitrary: p)
  case (Suc n)
  then show ?case
    by (fastforce elim!: and_then_SomeE simp: Let_def simp del: and_then_simps split: if_splits)
qed simp

lemma elements_not_kept: "parse_elements rec n False result p = Some (Inr (v, q)) \<Longrightarrow> v = result"
proof (induction n arbitrary: p)
  case (Suc n)
  then show ?case
    by (fastforce elim!: and_then_SomeE simp: Let_def simp del: and_then_simps split: if_splits)
qed simp

lemma object_not_kept:
  assumes "callback p = Some keeps_none" "parse_object rec n True p = Some (Inr (v, q))"
  shows "v = JDiscarded"
  using assms unfolding parse_object_def
  by (auto elim!: and_then_SomeE dest!: members_not_kept simp: parse_start_def parse_end_def
    simp del: and_then_simps split: if_splits)

lemma array_not_kept:
  assumes "callback p = Some keeps_none" "parse_array rec n True p = Some (Inr (v, q))"
  shows "v = JDiscarded"
  using assms unfolding parse_array_def
  by (auto elim!: and_then_SomeE dest!: elements_not_kept next_token_callback simp: parse_start_def parse_end_def
    simp del: and_then_simps split: if_splits)

lemma internal_not_kept:
  assumes "callback p = Some keeps_none" "parse_internal F n True p = Some (Inr (v, q))"
  shows "v = JDiscarded"
proof (cases n)
  case (Suc m)
  have "v = JDiscarded"
    if "and_then (parse_value F p) (\<lambda>(result, p).
       case callback p of None \<Rightarrow> Some (Inr (result, p))
         | Some cb \<Rightarrow> (let (kept, result) = cb (depth p) value_event result
                      in Some (Inr (if kept then result else JDiscarded, p)))) = Some (Inr (v, q))"
    using that assms(1) by (auto elim!: and_then_SomeE dest!: parse_value_callback simp del: and_then_simps)
  then show ?thesis
    using assms object_not_kept [OF assms(1)] array_not_kept [OF assms(1)]
    by (cases "last_token p") (auto simp: Suc simp del: and_then_simps)
qed (use assms in simp)

lemma nothing_kept: "parse F s (Some keeps_none) = Some (Inr v) \<Longrightarrow> v = JNull"
  unfolding parse_def parser_of_def parser_parse_def
  by (auto elim!: and_then_SomeE dest!: next_token_callback internal_not_kept simp: inspection_defs
    simp del: and_then_simps parse_internal.simps split: if_splits)

text \<open>
  C21: a callback only filters.  Whatever it is, the texts that are parsed and the exceptions that are
  thrown are those of the parser without one; one that keeps everything changes nothing; and one that
  keeps nothing gives null for every text that can be parsed.
\<close>

theorem callback_only_filters:
  "map_option (map_sum id (\<lambda>_. ())) (parse F s (Some cb)) = map_option (map_sum id (\<lambda>_. ())) (parse F s None) \<and>
   parse F s (Some (\<lambda>depth event value. (True, value))) = parse F s None \<and>
   parse F s (Some (\<lambda>depth event value. (False, value))) = map_option (map_sum id (\<lambda>_. JNull)) (parse F s None)"
proof -
  obtain r where r: "parse F s None = Some r" using parse_returns by blast
  have any: "map_option (map_sum id (\<lambda>_. ())) (parse F s (Some c)) = Some (map_sum id (\<lambda>_. ()) r)" for c
    using beside_parse [of False None "Some c" F s] by (cases r) (auto simp: r same_result_def)
  have "parse F s (Some keeps_all) = Some r"
    using beside_parse [of True None "Some keeps_all" F s] by (cases r) (auto simp: r keeping_def same_result_def)
  moreover have "parse F s (Some keeps_none) = Some (map_sum id (\<lambda>_. JNull) r)"
  proof -
    obtain z where z: "parse F s (Some keeps_none) = Some z" using parse_returns by blast
    then show ?thesis
      using any [of keeps_none] nothing_kept [of F s] by (cases r; cases z) auto
  qed
  ultimately show ?thesis using any by (simp add: r keeps_all_def keeps_none_def)
qed

end
