(* ===== verification/Cache_Tests.thy ===== *)
theory Cache_Tests
  imports Hash_Cache_Api Json_Dump
begin

text \<open>
  The test programs of the cache (\<open>src/test\<close>), run on the cache of \<open>hash_cache.c\<close>: the helpers of
  \<open>test_helper.c\<close>, the tests of \<open>basic_test.c\<close>, \<open>test.c\<close> and \<open>lrutests.c\<close>, and the numbers \<open>main.c\<close> gives
  them.  A test returns whether it passed; \<open>None\<close> is undefined behaviour.  What is printed is left
  out, but for the memory that printing reads.
\<close>

section \<open>Values and keys\<close>

datatype val_entry_type = T_INT | T_STR

text \<open>
  The values made at random by \<open>gen_vals\<close>: for every number an integer (a character) and a string
  without its NUL.
\<close>

record test_vals =
  ivals :: "nat \<Rightarrow> char"
  svals :: "nat \<Rightarrow> char list"

text \<open>\<open>rand()%26+64\<close>, and a string of \<open>rand() % (max_str_len - 1) + 1\<close> characters with its NUL.\<close>

definition max_str_len :: nat where
  "max_str_len = 100"

definition rand_char_range :: "char \<Rightarrow> bool" where
  "rand_char_range c \<longleftrightarrow> 64 \<le> (of_char c :: nat) \<and> (of_char c :: nat) \<le> 89"

definition gen_vals_ok :: "test_vals \<Rightarrow> bool" where
  "gen_vals_ok v \<longleftrightarrow> (\<forall>i. rand_char_range (ivals v i)) \<and>
     (\<forall>i. length (svals v i) < max_str_len - 1 \<and> (\<forall>c \<in> set (svals v i). rand_char_range c))"

text \<open>The bytes of an integer of \<open>n\<close> bytes in memory, the lowest first.\<close>

definition int_bytes :: "nat \<Rightarrow> nat \<Rightarrow> char list" where
  "int_bytes n x = map (\<lambda>i. char_of (x div 256 ^ i)) [0..<n]"

definition val_ptr :: "test_vals \<Rightarrow> nat \<Rightarrow> val_entry_type \<Rightarrow> char list" where
  "val_ptr v loc ent_ty = (case ent_ty of T_INT \<Rightarrow> [ivals v loc, NUL] | T_STR \<Rightarrow> svals v loc @ [NUL])"

definition val_size_of :: "test_vals \<Rightarrow> nat \<Rightarrow> val_entry_type \<Rightarrow> u32" where
  "val_size_of v loc ent_ty = (case ent_ty of T_INT \<Rightarrow> 2 | T_STR \<Rightarrow> of_nat (length (svals v loc) + 1))"

text \<open>\<open>sprintf\<close> of one unsigned 64-bit number: \<open>%lu\<close> stands for the number, other characters for themselves.\<close>

fun sprintf_lu :: "char list \<Rightarrow> nat \<Rightarrow> char list" where
  "sprintf_lu (c # d # e # fmt) num =
     (if [c, d, e] = ''%lu'' then show_nat num @ sprintf_lu fmt num else c # sprintf_lu (d # e # fmt) num)"
| "sprintf_lu fmt num = fmt"

text \<open>The macro of \<open>inttypes.h\<close>: the conversion of a format without its percent sign.\<close>

definition PRIu64 :: "char list" where
  "PRIu64 = ''lu''"

definition maxintlen :: nat where
  "maxintlen = 22"

text \<open>The content of \<open>keyarr\<close> afterwards.\<close>

definition load_key_to_intarr :: "nat \<Rightarrow> char list" where
  "load_key_to_intarr num = (
     let keyarr = replicate maxintlen NUL; s = sprintf_lu PRIu64 num @ [NUL]
     in s @ drop (length s) keyarr)"

section \<open>Helpers\<close>

definition create_no_overflow :: "nat \<Rightarrow> cache_obj" where
  "create_no_overflow maxelmt = create_cache (of_nat (maxelmt * max_str_len)) None"

definition add_element :: "test_vals \<Rightarrow> cache_obj \<Rightarrow> nat \<Rightarrow> val_entry_type \<Rightarrow> cache_obj option" where
  "add_element v cache elnum ent_ty =
     cache_set cache (load_key_to_intarr elnum) (val_ptr v elnum ent_ty) (val_size_of v elnum ent_ty)"

text \<open>The loops over a range of elements.\<close>

fun add_all :: "test_vals \<Rightarrow> val_entry_type \<Rightarrow> nat list \<Rightarrow> cache_obj \<Rightarrow> cache_obj option" where
  "add_all v ent_ty [] cache = Some cache"
| "add_all v ent_ty (i # is) cache = do { cache \<leftarrow> add_element v cache i ent_ty; add_all v ent_ty is cache }"

definition add_elements ::
    "test_vals \<Rightarrow> cache_obj \<Rightarrow> nat \<Rightarrow> nat \<Rightarrow> val_entry_type \<Rightarrow> cache_obj option" where
  "add_elements v cache start_elmt end_elmt ent_ty = add_all v ent_ty [start_elmt..<end_elmt] cache"

definition delete_element :: "cache_obj \<Rightarrow> nat \<Rightarrow> cache_obj option" where
  "delete_element cache elmt = cache_delete cache (load_key_to_intarr elmt)"

fun delete_all :: "nat list \<Rightarrow> cache_obj \<Rightarrow> cache_obj option" where
  "delete_all [] cache = Some cache"
| "delete_all (i # is) cache = do { cache \<leftarrow> delete_element cache i; delete_all is cache }"

definition delete_elements :: "cache_obj \<Rightarrow> nat \<Rightarrow> nat \<Rightarrow> cache_obj option" where
  "delete_elements cache start_elmt end_elmt = delete_all [start_elmt..<end_elmt] cache"

definition check_val :: "test_vals \<Rightarrow> char list option \<Rightarrow> nat \<Rightarrow> val_entry_type \<Rightarrow> bool" where
  "check_val v value loc ent_ty = (case value of
     None \<Rightarrow> False
   | Some bytes \<Rightarrow> (case ent_ty of
       T_INT \<Rightarrow> take 2 bytes = [ivals v loc, NUL]
     | T_STR \<Rightarrow> c_string bytes = Some (svals v loc)))"

definition check_element :: "test_vals \<Rightarrow> cache_obj \<Rightarrow> nat \<Rightarrow> val_entry_type \<Rightarrow> (bool \<times> cache_obj) option" where
  "check_element v cache elmt ent_ty = do {
     (value, size, cache) \<leftarrow> get_bytes cache (load_key_to_intarr elmt);
     Some (check_val v value elmt ent_ty, cache) }"

definition space_of_element :: "test_vals \<Rightarrow> cache_obj \<Rightarrow> nat \<Rightarrow> val_entry_type \<Rightarrow> (u32 \<times> cache_obj) option" where
  "space_of_element v cache elmt ent_ty = do {
     (value, size, cache) \<leftarrow> get_bytes cache (load_key_to_intarr elmt);
     Some (if value = None then 0 else val_size_of v elmt ent_ty, cache) }"

fun space_of_all :: "test_vals \<Rightarrow> val_entry_type \<Rightarrow> nat list \<Rightarrow> u64 \<Rightarrow> cache_obj \<Rightarrow> (u64 \<times> cache_obj) option" where
  "space_of_all v ent_ty [] so_far cache = Some (so_far, cache)"
| "space_of_all v ent_ty (i # is) so_far cache = do {
     (n, cache) \<leftarrow> space_of_element v cache i ent_ty;
     space_of_all v ent_ty is (so_far + ucast n) cache }"

definition space_of_elements ::
    "test_vals \<Rightarrow> cache_obj \<Rightarrow> nat \<Rightarrow> nat \<Rightarrow> val_entry_type \<Rightarrow> (u64 \<times> cache_obj) option" where
  "space_of_elements v cache start_elmt end_elmt ent_ty = space_of_all v ent_ty [start_elmt..<end_elmt] 0 cache"

definition element_exists :: "cache_obj \<Rightarrow> nat \<Rightarrow> (bool \<times> cache_obj) option" where
  "element_exists cache elmt = do {
     (value, size, cache) \<leftarrow> get_bytes cache (load_key_to_intarr elmt);
     Some (value \<noteq> None, cache) }"

text \<open>\<open>res && element_exists(cache,i)\<close> makes no call once \<open>res\<close> is false.\<close>

fun exist_all :: "nat list \<Rightarrow> bool \<Rightarrow> cache_obj \<Rightarrow> (bool \<times> cache_obj) option" where
  "exist_all [] res cache = Some (res, cache)"
| "exist_all (i # is) res cache = do {
     (res, cache) \<leftarrow> (if res then element_exists cache i else Some (False, cache));
     exist_all is res cache }"

definition elements_exist :: "cache_obj \<Rightarrow> nat \<Rightarrow> nat \<Rightarrow> (bool \<times> cache_obj) option" where
  "elements_exist cache start_elmt end_elmt = exist_all [start_elmt..<end_elmt] True cache"

fun exist_none :: "nat list \<Rightarrow> cache_obj \<Rightarrow> (bool \<times> cache_obj) option" where
  "exist_none [] cache = Some (True, cache)"
| "exist_none (i # is) cache = do {
     (found, cache) \<leftarrow> element_exists cache i;
     if found then Some (False, cache) else exist_none is cache }"

definition elements_dont_exist :: "cache_obj \<Rightarrow> nat \<Rightarrow> nat \<Rightarrow> (bool \<times> cache_obj) option" where
  "elements_dont_exist cache start_elmt end_elmt = exist_none [start_elmt..<end_elmt] cache"

fun check_all :: "test_vals \<Rightarrow> val_entry_type \<Rightarrow> nat list \<Rightarrow> bool \<Rightarrow> cache_obj \<Rightarrow> (bool \<times> cache_obj) option" where
  "check_all v ent_ty [] res cache = Some (res, cache)"
| "check_all v ent_ty (i # is) res cache = do {
     (res, cache) \<leftarrow> (if res then check_element v cache i ent_ty else Some (False, cache));
     check_all v ent_ty is res cache }"

definition check_elements ::
    "test_vals \<Rightarrow> cache_obj \<Rightarrow> nat \<Rightarrow> nat \<Rightarrow> val_entry_type \<Rightarrow> (bool \<times> cache_obj) option" where
  "check_elements v cache start_elmt end_elmt ent_ty = check_all v ent_ty [start_elmt..<end_elmt] True cache"

definition reported_space_of_element :: "cache_obj \<Rightarrow> nat \<Rightarrow> (u32 \<times> cache_obj) option" where
  "reported_space_of_element cache elmt = do {
     (value, out_size, cache) \<leftarrow> get_bytes cache (load_key_to_intarr elmt);
     Some (if value = None then 0 else out_size, cache) }"

fun reported_space_of_all :: "nat list \<Rightarrow> u64 \<Rightarrow> cache_obj \<Rightarrow> (u64 \<times> cache_obj) option" where
  "reported_space_of_all [] so_far cache = Some (so_far, cache)"
| "reported_space_of_all (i # is) so_far cache = do {
     (n, cache) \<leftarrow> reported_space_of_element cache i;
     reported_space_of_all is (so_far + ucast n) cache }"

definition reported_space_of_elements :: "cache_obj \<Rightarrow> nat \<Rightarrow> nat \<Rightarrow> (u64 \<times> cache_obj) option" where
  "reported_space_of_elements cache start_elmt end_elmt = reported_space_of_all [start_elmt..<end_elmt] 0 cache"

text \<open>Setting and getting with C strings as keys.\<close>

abbreviation set_bytes :: "cache_obj \<Rightarrow> char list \<Rightarrow> char list \<Rightarrow> cache_obj option" where
  "set_bytes c k bytes \<equiv> cache_set c (k @ [NUL]) bytes (of_nat (length bytes))"

abbreviation get_at :: "cache_obj \<Rightarrow> char list \<Rightarrow> (char list option \<times> u32 \<times> cache_obj) option" where
  "get_at c k \<equiv> get_bytes c (k @ [NUL])"

text \<open>The string of the bytes a pointer leads to, for \<open>strcmp\<close> and \<open>printf\<close>.\<close>

definition string_at :: "cache_obj \<Rightarrow> ptr \<Rightarrow> char list option" where
  "string_at c p = do { bytes \<leftarrow> load (bufs c) p; c_string bytes }"

section \<open>The basic tests\<close>

definition too_long :: "char list" where
  "too_long = ''string too long! string too long! string too long!     '' @
     ''string too long! string too long! string too long! string too long!''"

definition create_test :: "bool option" where
  "create_test = (let c = create_cache 1000 None in Some True)"

definition destroy_test :: "bool option" where
  "destroy_test = do { c \<leftarrow> destroy_cache (create_cache 1000 None); Some True }"

definition add_test :: "test_vals \<Rightarrow> bool option" where
  "add_test v = (let num_adds = 20; c = create_cache (of_nat (num_adds * max_str_len)) None in do {
     c \<leftarrow> add_elements v c 0 num_adds T_INT;
     c \<leftarrow> add_elements v c 0 (num_adds div 2) T_STR;
     c \<leftarrow> destroy_cache c;
     Some True })"

definition crash_on_memoverload :: "bool option" where
  "crash_on_memoverload = do {
     c \<leftarrow> set_bytes (create_cache 65 None) ''key'' (too_long @ [NUL]);
     c \<leftarrow> destroy_cache c;
     Some True }"

definition get_size_test :: "bool option" where
  "get_size_test = do {
     c \<leftarrow> cache_set (create_cache 1000 None) (''key'' @ [NUL]) (''12345'' @ [NUL]) 4;
     (out, size, c) \<leftarrow> get_at c ''key'';
     c \<leftarrow> destroy_cache c;
     Some (size = 4) }"

definition get_val_test :: "bool option" where
  "get_val_test = do {
     c \<leftarrow> set_bytes (create_cache 1000 None) ''key'' (''12345'' @ [NUL]);
     (out, size, c) \<leftarrow> get_at c ''key'';
     bytes \<leftarrow> out; s \<leftarrow> c_string bytes;
     c \<leftarrow> destroy_cache c;
     Some (s = ''12345'') }"

definition delete_test :: "bool option" where
  "delete_test = do {
     c \<leftarrow> cache_set (create_cache 1000 None) (''key'' @ [NUL]) (''12345'' @ [NUL]) 4;
     c \<leftarrow> cache_delete c (''key'' @ [NUL]);
     c \<leftarrow> destroy_cache c;
     Some True }"

definition space_test :: "test_vals \<Rightarrow> bool option" where
  "space_test v = do {
     c \<leftarrow> add_elements v (create_cache 10000 None) 0 100 T_INT;
     let size = cache_space_used c;
     c \<leftarrow> destroy_cache c;
     Some (size = 100 * 2) }"

text \<open>
  The hash function of a test sets the flag \<open>hash_called\<close>.  Here a hash function has no effect; an
  operation calls it if the operation is undefined with a hash function that is.
\<close>

definition custom_hash :: hash_func where
  "custom_hash k = Some 0"

definition hash_called :: "(cache_obj \<Rightarrow> 'a option) \<Rightarrow> cache_obj \<Rightarrow> bool" where
  "hash_called operation c \<longleftrightarrow> operation (c\<lparr>h_fn := \<lambda>k. None\<rparr>) = None"

definition custom_hash_is_called :: "test_vals \<Rightarrow> bool option" where
  "custom_hash_is_called v = (let item = 5; cache = create_cache 1000 (Some custom_hash);
       add_hash = hash_called (\<lambda>cache. add_element v cache item T_INT) cache in do {
     cache \<leftarrow> add_element v cache item T_INT;
     let get_hash = hash_called (\<lambda>cache. element_exists cache item) cache;
     (found, cache) \<leftarrow> element_exists cache item;
     let update_hash = hash_called (\<lambda>cache. add_element v cache item T_STR) cache;
     cache \<leftarrow> add_element v cache item T_STR;
     let delete_hash = hash_called (\<lambda>cache. delete_element cache item) cache;
     cache \<leftarrow> delete_element cache item;
     cache \<leftarrow> destroy_cache cache;
     Some (add_hash \<and> get_hash \<and> update_hash \<and> delete_hash) })"

section \<open>The tests of set, get and delete\<close>

definition cache_space_preserved :: "test_vals \<Rightarrow> bool option" where
  "cache_space_preserved v = do {
     c \<leftarrow> add_elements v (create_cache 200 None) 0 5 T_STR;
     c \<leftarrow> delete_element c 4;
     c \<leftarrow> add_elements v c 0 2 T_INT;
     let used = cache_space_used c;
     (n1, c) \<leftarrow> space_of_elements v c 0 2 T_INT;
     (n2, c) \<leftarrow> space_of_elements v c 2 5 T_STR;
     c \<leftarrow> destroy_cache c;
     Some (used = n1 + n2) }"

definition create_init_correct_mem :: "bool option" where
  "create_init_correct_mem = do {
     c \<leftarrow> set_bytes (create_cache 65 None) ''key'' (too_long @ [NUL]);
     let space = cache_space_used c;
     c \<leftarrow> destroy_cache c;
     Some (space = 0) }"

definition add_single_item_over_memmax :: "bool option" where
  "add_single_item_over_memmax = do {
     c \<leftarrow> set_bytes (create_cache 65 None) ''key'' (too_long @ [NUL]);
     (cache_big_val, size, c) \<leftarrow> get_at c ''key'';
     c \<leftarrow> destroy_cache c;
     Some (cache_big_val = None) }"

definition large_val_copied_correctly :: "bool option" where
  "large_val_copied_correctly = (
     let value = int_bytes 8 0xff00ff00ff00ffff @ int_bytes 8 0xcc00cc00fe00ddcc in do {
     c \<leftarrow> set_bytes (create_cache 1000 None) ''normal key'' value;
     (outval, size, c) \<leftarrow> get_at c ''normal key'';
     let worked = (case outval of None \<Rightarrow> False | Some out_arr \<Rightarrow> take 8 out_arr = take 8 value \<and>
       take 8 (drop 8 out_arr) = take 8 (drop 8 value));
     c \<leftarrow> destroy_cache c;
     Some worked })"

text \<open>\<open>str\<close> is the random string, with its NUL at the end of the buffer of \<open>valsize\<close> bytes.\<close>

definition get_huge_value :: "char list \<Rightarrow> bool option" where
  "get_huge_value str = do {
     c \<leftarrow> set_bytes (create_cache 50000 None) ''mykey'' (str @ [NUL]);
     (value, num, c) \<leftarrow> get_at c ''mykey'';
     worked \<leftarrow> (case value of None \<Rightarrow> Some False | Some bytes \<Rightarrow> do { s \<leftarrow> c_string bytes; Some (s = str) });
     c \<leftarrow> destroy_cache c;
     Some worked }"

definition add_over_memmax_eviction :: "test_vals \<Rightarrow> bool option" where
  "add_over_memmax_eviction v = (
     let max_mem = 10; big_val = ''string of length > max_mem asdfasdfasdfasdfasdfasdfasdf'' in do {
     c \<leftarrow> add_elements v (create_cache (max_mem * 2) None) 0 3 T_INT;
     c \<leftarrow> set_bytes c ''random_key'' (big_val @ [NUL]);
     (gone, c) \<leftarrow> elements_dont_exist c 0 3;
     if gone then Some False
     else do { c \<leftarrow> destroy_cache c; Some True } })"

definition add_resize_buckets_or_maxmem :: "test_vals \<Rightarrow> bool option" where
  "add_resize_buckets_or_maxmem v = (
     let max_mem = 10; big_val = ''string of length > max_mem'' in do {
     c \<leftarrow> add_elements v (create_cache (max_mem * 2) None) 0 5 T_INT;
     c \<leftarrow> set_bytes c ''random_key'' (big_val @ [NUL]);
     (cache_big_val, size, c) \<leftarrow> get_at c ''random_key'';
     if cache_big_val \<noteq> None then Some False
     else do { c \<leftarrow> destroy_cache c; Some (cache_big_val = None) } })"

definition get_null_empty :: "test_vals \<Rightarrow> bool option" where
  "get_null_empty v = (let max_mem = 100 in do {
     c \<leftarrow> add_elements v (create_cache (of_nat (max_mem * 2 + 1)) None) 0 max_mem T_INT;
     (out, size1, c) \<leftarrow> get_at c ''key'';
     c \<leftarrow> destroy_cache c;
     Some (out = None) })"

definition get_nonexist :: "bool option" where
  "get_nonexist = do {
     (out, size, c) \<leftarrow> get_at (create_cache 1000 None) ''nonexist'';
     c \<leftarrow> destroy_cache c;
     Some (out = None) }"

definition get_size_after_reassign_test :: "bool option" where
  "get_size_after_reassign_test = do {
     c \<leftarrow> set_bytes (create_cache 1000 None) ''key'' (int_bytes 4 10);
     (out, size1, c) \<leftarrow> get_at c ''key'';
     c \<leftarrow> set_bytes c ''key'' (''stringval'' @ [NUL]);
     (out, size2, c) \<leftarrow> get_at c ''key'';
     c \<leftarrow> destroy_cache c;
     Some (size1 \<noteq> size2) }"

text \<open>The pointer \<open>out1\<close> is read again after the value was set anew.\<close>

definition get_val_after_reassign_test :: "bool option" where
  "get_val_after_reassign_test = do {
     c \<leftarrow> set_bytes (create_cache 1000 None) ''key'' (''stringval1'' @ [NUL]);
     (out1, size1, c) \<leftarrow> cache_get c (''key'' @ [NUL]);
     printed \<leftarrow> string_at c out1;
     c \<leftarrow> set_bytes c ''key'' (''stringval2'' @ [NUL]);
     printed \<leftarrow> string_at c out1;
     (out2, size2, c) \<leftarrow> cache_get c (''key'' @ [NUL]);
     s1 \<leftarrow> string_at c out1;
     s2 \<leftarrow> string_at c out2;
     let worked = (s1 \<noteq> s2 \<and> s1 = ''stringval1'' \<and> s2 = ''stringval2'');
     c \<leftarrow> destroy_cache c;
     Some worked }"

definition get_with_null_term_strs_test :: "bool option" where
  "get_with_null_term_strs_test = (
     let key1 = [CHR ''a'', NUL, CHR ''b'', NUL]; key2 = [CHR ''a'', NUL, CHR ''c'', NUL] in do {
     c \<leftarrow> cache_set (create_cache 100 None) key1 (int_bytes 8 10) 8;
     c \<leftarrow> cache_set c key2 (int_bytes 8 11) 8;
     (outval, size, c) \<leftarrow> get_bytes c key1;
     bytes \<leftarrow> outval;
     c \<leftarrow> destroy_cache c;
     Some (take 8 bytes = int_bytes 8 11) })"

definition delete_not_in :: "test_vals \<Rightarrow> bool option" where
  "delete_not_in v = (let item = 10 in do {
     c \<leftarrow> add_element v (create_cache (of_nat (max_str_len + 1)) None) item T_STR;
     c \<leftarrow> delete_element c item;
     (found, c) \<leftarrow> element_exists c item;
     c \<leftarrow> destroy_cache c;
     Some (\<not> found) })"

text \<open>The pointer \<open>out1\<close> is printed after its entry was deleted.\<close>

definition delete_affect_get_out :: "bool option" where
  "delete_affect_get_out = (let k = ''this is my cool key'' @ [NUL] in do {
     c \<leftarrow> cache_set (create_cache 1000 None) k (''stringval1'' @ [NUL]) 11;
     (out1, size1, c) \<leftarrow> cache_get c k;
     c \<leftarrow> cache_delete c k;
     (out2, size1, c) \<leftarrow> cache_get c k;
     printed \<leftarrow> string_at c out1;
     c \<leftarrow> destroy_cache c;
     Some (out1 \<noteq> NULL) })"

section \<open>The tests of the order of eviction\<close>

definition evictions_occur :: "test_vals \<Rightarrow> bool option" where
  "evictions_occur v = (let max_elmts = 10; num_elmts_add = 36 in do {
     cache \<leftarrow> add_elements v (create_cache (of_nat (max_elmts * 2)) None) 0 num_elmts_add T_INT;
     (evicted, cache) \<leftarrow> elements_dont_exist cache 0 (num_elmts_add - max_elmts);
     (not_evicted, cache) \<leftarrow> elements_exist cache (num_elmts_add - max_elmts) num_elmts_add;
     cache \<leftarrow> destroy_cache cache;
     Some (evicted \<and> not_evicted) })"

definition basic_lru_test :: "test_vals \<Rightarrow> bool option" where
  "basic_lru_test v = do {
     cache \<leftarrow> add_element v (create_cache (2 * 2 + 1) None) 0 T_INT;
     cache \<leftarrow> add_element v cache 1 T_INT;
     (e, cache) \<leftarrow> element_exists cache 0;
     cache \<leftarrow> add_element v cache 2 T_INT;
     (e, cache) \<leftarrow> element_exists cache 1;
     let worked = (\<not> e);
     cache \<leftarrow> destroy_cache cache;
     Some worked }"

text \<open>The same steps, whatever its comment says of a deletion.\<close>

definition lru_delete_test :: "test_vals \<Rightarrow> bool option" where
  "lru_delete_test v = do {
     cache \<leftarrow> add_element v (create_cache (2 * 2 + 1) None) 0 T_INT;
     cache \<leftarrow> add_element v cache 1 T_INT;
     (e, cache) \<leftarrow> element_exists cache 0;
     cache \<leftarrow> add_element v cache 2 T_INT;
     (e, cache) \<leftarrow> element_exists cache 1;
     let worked = (\<not> e);
     cache \<leftarrow> destroy_cache cache;
     Some worked }"

definition update_reordering :: "bool option" where
  "update_reordering = do {
     c \<leftarrow> set_bytes (create_cache (4 * 4) None) ''key1'' (int_bytes 4 1);
     c \<leftarrow> set_bytes c ''key2'' (int_bytes 4 2);
     c \<leftarrow> set_bytes c ''key1'' (int_bytes 4 3);
     c \<leftarrow> set_bytes c ''key3'' (''largeval'' @ [NUL]);
     (out1, size1, c) \<leftarrow> get_at c ''key1'';
     if out1 = None then Some False
     else do {
       (out2, size2, c) \<leftarrow> get_at c ''key2'';
       if out2 \<noteq> None then Some False
       else do { c \<leftarrow> destroy_cache c; Some True } } }"

definition evict_on_reset_old_val :: "bool option" where
  "evict_on_reset_old_val = do {
     c \<leftarrow> set_bytes (create_cache (3 * 4) None) ''key1'' (int_bytes 4 1);
     c \<leftarrow> set_bytes c ''key2'' (int_bytes 4 2);
     c \<leftarrow> set_bytes c ''key2'' (''five'' @ [NUL]);
     (out, size, c) \<leftarrow> get_at c ''key1'';
     c \<leftarrow> destroy_cache c;
     Some (out \<noteq> None) }"

definition evict_on_failed_reset_old_val :: "bool option" where
  "evict_on_failed_reset_old_val = do {
     c \<leftarrow> set_bytes (create_cache (3 * 4) None) ''key1'' (int_bytes 4 1);
     c \<leftarrow> set_bytes c ''key2'' (int_bytes 4 2);
     c \<leftarrow> set_bytes c ''key2'' (''value too large for cache!'' @ [NUL]);
     (out1, size1, c) \<leftarrow> get_at c ''key1'';
     if out1 = None then do { c \<leftarrow> destroy_cache c; Some False }
     else do {
       (out2, size1, c) \<leftarrow> get_at c ''key2'';
       case out2 of
         None \<Rightarrow> do { c \<leftarrow> destroy_cache c; Some False }
       | Some bytes \<Rightarrow> do { c \<leftarrow> destroy_cache c; Some (take 4 bytes = int_bytes 4 2) } } }"

definition get_reordering :: "bool option" where
  "get_reordering = do {
     c \<leftarrow> set_bytes (create_cache (3 * 4) None) ''key1'' (int_bytes 4 1);
     c \<leftarrow> set_bytes c ''key2'' (int_bytes 4 2);
     (out1, size, c) \<leftarrow> get_at c ''key1'';
     c \<leftarrow> set_bytes c ''val_too_big'' (''five'' @ [NUL]);
     (out2, size, c) \<leftarrow> get_at c ''key2'';
     c \<leftarrow> destroy_cache c;
     Some (out2 = None) }"

definition maxmem_not_excceeded :: "test_vals \<Rightarrow> bool option" where
  "maxmem_not_excceeded v = (let max_emts = 100; max_mem = max_emts * 2 in do {
     cache \<leftarrow> add_elements v (create_cache (of_nat max_mem) None) 0 (max_emts + 1) T_INT;
     (n, cache) \<leftarrow> space_of_elements v cache 0 (max_emts + 1) T_INT;
     let exceeded = (n > of_nat max_mem);
     cache \<leftarrow> delete_elements cache 0 (max_emts + 1);
     cache \<leftarrow> add_elements v cache (max_emts * 2) (max_emts * 3) T_INT;
     (exceeded, cache) \<leftarrow> (if exceeded then Some (True, cache) else do {
       (n, cache) \<leftarrow> space_of_elements v cache (max_emts * 2) (max_emts * 3) T_INT;
       Some (n > of_nat max_mem, cache) });
     cache \<leftarrow> destroy_cache cache;
     Some (\<not> exceeded) })"

definition elements_not_evicted_early :: "test_vals \<Rightarrow> bool option" where
  "elements_not_evicted_early v = (let max_emts = 100; max_add_emts = max_emts - 1 in do {
     cache \<leftarrow> add_elements v (create_cache (of_nat (max_emts * 2)) None) 0 (max_add_emts div 2) T_INT;
     cache \<leftarrow> delete_elements cache 0 (max_add_emts div 4);
     cache \<leftarrow> add_elements v cache (max_add_emts div 2) (max_add_emts div 4 + max_add_emts) T_INT;
     (passed, cache) \<leftarrow> elements_exist cache (max_add_emts div 4) (max_add_emts div 4 + max_add_emts);
     cache \<leftarrow> destroy_cache cache;
     Some passed })"

definition var_len_evictions :: "test_vals \<Rightarrow> bool option" where
  "var_len_evictions v = (
     let max_mem = ucast (val_size_of v 0 T_STR + val_size_of v 1 T_STR + val_size_of v 2 T_STR - 1) in do {
     cache \<leftarrow> add_element v (create_cache max_mem None) 0 T_STR;
     cache \<leftarrow> add_element v cache 1 T_STR;
     (e, cache) \<leftarrow> element_exists cache 0;
     cache \<leftarrow> add_element v cache 2 T_STR;
     (e, cache) \<leftarrow> element_exists cache 1;
     let worked = (\<not> e);
     cache \<leftarrow> destroy_cache cache;
     Some worked })"

section \<open>The numbers of the tests\<close>

text \<open>
  The tests \<open>main\<close> runs by number; \<open>str\<close> is the random string of \<open>get_huge_value\<close>.
\<close>

definition run_test :: "test_vals \<Rightarrow> char list \<Rightarrow> nat \<Rightarrow> bool option" where
  "run_test v str test_num = [
     create_test, destroy_test, add_test v, crash_on_memoverload, get_size_test, get_val_test, delete_test,
     space_test v, custom_hash_is_called v, cache_space_preserved v, add_single_item_over_memmax, large_val_copied_correctly,
     get_huge_value str, add_over_memmax_eviction v, add_resize_buckets_or_maxmem v, get_null_empty v,
     get_nonexist, get_size_after_reassign_test, get_val_after_reassign_test, get_with_null_term_strs_test,
     delete_not_in v, delete_affect_get_out, evictions_occur v, basic_lru_test v, lru_delete_test v,
     update_reordering, evict_on_reset_old_val, evict_on_failed_reset_old_val, get_reordering,
     maxmem_not_excceeded v, elements_not_evicted_early v, var_len_evictions v] ! test_num"

end
