(* ===== verification/Cache_Tests_Correct.thy ===== *)
theory Cache_Tests_Correct
  imports Cache_Tests
begin

text \<open>
  What the tests of \<open>src/test\<close> give on the cache of \<open>hash_cache.c\<close>: most pass; those that tell
  elements apart fail, since all elements have the same key; and two read a value the cache has
  freed.
\<close>

section \<open>Steps of a test\<close>

definition holding :: "cache_obj \<Rightarrow> nat \<Rightarrow> entry list \<Rightarrow> bool" where
  "holding c m es \<longleftrightarrow> cache_holds c es \<and> unat (maxmem c) = m \<and> unat (table_size c) < 2 ^ 60"

definition yields :: "'a option \<Rightarrow> ('a \<Rightarrow> bool) \<Rightarrow> bool" where
  "yields r P \<longleftrightarrow> (\<exists>x. r = Some x \<and> P x)"

lemma yields_Some [simp]: "yields (Some x) P \<longleftrightarrow> P x"
  by (simp add: yields_def)

lemma yields_eq: "yields r (\<lambda>x. x = y) \<longleftrightarrow> r = Some y"
  by (simp add: yields_def)

lemma holding_create_hash: "valid_hash h \<Longrightarrow> unat m \<le> max_capacity \<Longrightarrow> holding (create_cache m h) (unat m) []"
  using cache_holds_create [of m h] by (simp add: holding_def)

lemmas holding_create = holding_create_hash [OF valid_hash_None]

abbreviation key_of :: "char list \<Rightarrow> char list" where
  "key_of kb \<equiv> takeWhile (\<lambda>c. c \<noteq> NUL) kb"

lemma c_string_key: "NUL \<in> set kb \<Longrightarrow> c_string kb = Some (key_of kb)"
  by (simp add: c_string_def)

lemma set_holding:
  assumes "holding c m es" "NUL \<in> set kb" "unat n \<le> length vb" "length es < 2 ^ 50"
  obtains c' where "cache_set c kb vb n = Some c'" "holding c' m (spec_set m (key_of kb) (take (unat n) vb) es)"
proof -
  have c: "cache_holds c es" "unat (maxmem c) = m" "unat (table_size c) < 2 ^ 60"
    using assms(1) by (auto simp: holding_def)
  obtain c' where c': "cache_set c kb vb n = Some c'"
      "cache_holds c' (spec_set m (key_of kb) (take (unat n) vb) es)" "unat (maxmem c') = m"
      "unat (table_size c') \<le> max (unat (table_size c)) (4 * Suc (length es))"
    using hash_cache.holds_set [OF c(1) c_string_key [OF assms(2)] assms(3) c(3)] c(2) by auto
  have "max (unat (table_size c)) (4 * Suc (length es)) < 2 ^ 60"
    using c(3) assms(4) by simp
  with c'(4) have "unat (table_size c') < 2 ^ 60" by (rule le_less_trans)
  with c' show ?thesis by (intro that [OF c'(1)]) (simp add: holding_def)
qed

lemma set_step:
  assumes "holding c m es" "NUL \<in> set kb" "unat n \<le> length vb" "length es < 2 ^ 50"
    and "\<And>c'. holding c' m (spec_set m (key_of kb) (take (unat n) vb) es) \<Longrightarrow> yields (f c') P"
  shows "yields (Option.bind (cache_set c kb vb n) f) P"
  using set_holding [OF assms(1-4)] assms(5) by (metis bind.bind_lunit)

lemma get_step:
  assumes "holding c m es" "NUL \<in> set kb"
    and "\<And>c'. holding c' m (spec_touch (key_of kb) es) \<Longrightarrow>
      yields (f (map_of es (key_of kb), (case map_of es (key_of kb) of None \<Rightarrow> 0 | Some v \<Rightarrow> of_nat (length v)), c')) P"
  shows "yields (Option.bind (get_bytes c kb) f) P"
  using hash_cache.holds_get [of c es kb] c_string_key [OF assms(2)] assms(1,3) by (fastforce simp: holding_def)

lemma delete_step:
  assumes "holding c m es" "NUL \<in> set kb"
    and "\<And>c'. holding c' m (spec_delete (key_of kb) es) \<Longrightarrow> yields (f c') P"
  shows "yields (Option.bind (cache_delete c kb) f) P"
  using hash_cache.holds_delete [of c es kb] c_string_key [OF assms(2)] assms(1,3) by (fastforce simp: holding_def)

lemma destroy_step:
  assumes "holding c m es" "\<And>c'. yields (f c') P"
  shows "yields (Option.bind (destroy_cache c) f) P"
  using hash_cache.holds_destroy [of c es] assms by (auto simp: holding_def)

lemma space_used: "holding c m es \<Longrightarrow> cache_space_used c = of_nat (entry_bytes es)"
  using hash_cache.holds_space [of c es] by (metis holding_def of_nat_unat ucast_id)

lemmas test_steps = set_step get_step delete_step destroy_step

lemmas spec_simps = spec_set_def spec_touch_def spec_evict_def

section \<open>The helpers\<close>

text \<open>Every element has the same key: the format has no percent sign.\<close>

lemma load_key: "load_key_to_intarr num = ''lu'' @ replicate 20 NUL"
  by (simp add: load_key_to_intarr_def PRIu64_def maxintlen_def numeral_eq_Suc)

lemma load_key_simps [simp]:
  "NUL \<in> set (load_key_to_intarr num)" "key_of (load_key_to_intarr num) = ''lu''"
  by (simp_all add: load_key)

lemma gen_string:
  assumes "gen_vals_ok v"
  shows "length (svals v i) < 99" "NUL \<notin> set (svals v i)"
  using assms by (fastforce simp: gen_vals_ok_def max_str_len_def rand_char_range_def)+

lemma val_size_length: "gen_vals_ok v \<Longrightarrow> unat (val_size_of v i ty) = length (val_ptr v i ty)"
proof (cases ty)
  case T_STR
  assume "gen_vals_ok v"
  then have "length (svals v i) + 1 < 2 ^ 32"
    using gen_string(1) [of v i] by simp
  then have "unat (of_nat (length (svals v i) + 1) :: u32) = length (svals v i) + 1"
    by (simp add: unat_of_nat take_bit_nat_eq_self del: of_nat_add of_nat_Suc)
  then show ?thesis
    using T_STR by (simp add: val_size_of_def val_ptr_def)
qed (simp add: val_size_of_def val_ptr_def)

lemma length_int [simp]: "length (val_ptr v i T_INT) = 2"
  by (simp add: val_ptr_def)

lemma length_string: "gen_vals_ok v \<Longrightarrow> length (val_ptr v i T_STR) < 100"
  using gen_string(1) [of v i] by (simp add: val_ptr_def)

text \<open>At most one element is in the cache.\<close>

definition one_key :: "entry list \<Rightarrow> bool" where
  "one_key es \<longleftrightarrow> es = [] \<or> (\<exists>x. es = [(''lu'', x)])"

lemma one_key_simps [simp]: "one_key []" "one_key [(''lu'', x)]"
  by (simp_all add: one_key_def)

lemma spec_set_one_key: "one_key es \<Longrightarrow> length x \<le> m \<Longrightarrow> spec_set m ''lu'' x es = [(''lu'', x)]"
  by (auto simp: one_key_def spec_simps)

lemma add_element_holding:
  assumes "holding c m es" "one_key es" "gen_vals_ok v" "length (val_ptr v i ty) \<le> m"
  obtains c' where "add_element v c i ty = Some c'" "holding c' m [(''lu'', val_ptr v i ty)]"
proof -
  have "length es < 2 ^ 50" using assms(2) by (auto simp: one_key_def)
  then obtain c' where "add_element v c i ty = Some c'" "holding c' m (spec_set m ''lu'' (val_ptr v i ty) es)"
    using set_holding [OF assms(1) load_key_simps(1) [of i], of "val_size_of v i ty" "val_ptr v i ty"]
    by (auto simp: add_element_def val_size_length [OF assms(3)])
  then show ?thesis
    using that spec_set_one_key [OF assms(2,4)] by simp
qed

lemma add_element_step:
  assumes "holding c m es" "one_key es" "gen_vals_ok v" "length (val_ptr v i ty) \<le> m"
    and "\<And>c'. holding c' m [(''lu'', val_ptr v i ty)] \<Longrightarrow> yields (f c') P"
  shows "yields (Option.bind (add_element v c i ty) f) P"
  using add_element_holding [OF assms(1-4)] assms(5) by (metis bind.bind_lunit)

lemma add_all_holding:
  assumes "holding c m es" "one_key es" "gen_vals_ok v" "\<forall>i \<in> set is. length (val_ptr v i ty) \<le> m" "is \<noteq> []"
  shows "\<exists>c'. add_all v ty is c = Some c' \<and> holding c' m [(''lu'', val_ptr v (last is) ty)]"
  using assms
proof (induction "is" arbitrary: c es)
  case Nil
  then show ?case by simp
next
  case (Cons i "is")
  obtain c1 where "add_element v c i ty = Some c1" "holding c1 m [(''lu'', val_ptr v i ty)]"
    using add_element_holding [OF Cons.prems(1-3), of i ty] Cons.prems(4) by auto
  then show ?case
    using Cons.IH [of c1] Cons.prems(3,4) by (cases "is = []") auto
qed

lemma add_elements_step:
  assumes "holding c m es" "one_key es" "gen_vals_ok v" "a < b" "\<forall>i. length (val_ptr v i ty) \<le> m"
    and "\<And>c'. holding c' m [(''lu'', val_ptr v (b - 1) ty)] \<Longrightarrow> yields (f c') P"
  shows "yields (Option.bind (add_elements v c a b ty) f) P"
  using add_all_holding [OF assms(1-3), of "[a..<b]" ty] assms(4-6)
  by (auto simp: add_elements_def last_conv_nth)

lemma delete_element_step:
  assumes "holding c m es" "one_key es" "\<And>c'. holding c' m [] \<Longrightarrow> yields (f c') P"
  shows "yields (Option.bind (delete_element c i) f) P"
  unfolding delete_element_def
proof (rule delete_step [OF assms(1) load_key_simps(1)])
  fix c' assume "holding c' m (spec_delete (key_of (load_key_to_intarr i)) es)"
  then show "yields (f c') P" using assms(2,3) by (auto simp: one_key_def)
qed

lemma delete_all_holding:
  "holding c m es \<Longrightarrow> one_key es \<Longrightarrow> is \<noteq> [] \<Longrightarrow> \<exists>c'. delete_all is c = Some c' \<and> holding c' m []"
proof (induction "is" arbitrary: c es)
  case (Cons i "is")
  have "yields (Option.bind (delete_element c i) Some) (\<lambda>c'. holding c' m [])"
    by (rule delete_element_step [OF Cons.prems(1,2)]) simp
  then obtain c1 where "delete_element c i = Some c1" "holding c1 m []"
    by (auto simp: yields_def)
  then show ?case using Cons.IH [of c1 "[]"] by (cases "is = []") auto
qed simp

lemma delete_elements_step:
  assumes "holding c m es" "one_key es" "a < b" "\<And>c'. holding c' m [] \<Longrightarrow> yields (f c') P"
  shows "yields (Option.bind (delete_elements c a b) f) P"
  using delete_all_holding [OF assms(1,2), of "[a..<b]"] assms(3,4) by (auto simp: delete_elements_def)

text \<open>A lookup finds an element exactly if there is one, whichever is asked for.\<close>

lemma one_key_lookup:
  assumes "holding c m es" "one_key es"
  shows "\<exists>n c'. get_bytes c (load_key_to_intarr i) = Some (map_of es ''lu'', n, c') \<and> holding c' m es"
proof -
  have "yields (Option.bind (get_bytes c (load_key_to_intarr i)) Some)
    (\<lambda>(out, n, c'). out = map_of es ''lu'' \<and> holding c' m es)"
    by (rule get_step [OF assms(1) load_key_simps(1)])
      (use assms(2) in \<open>auto simp: one_key_def spec_touch_def\<close>)
  then show ?thesis by (auto simp: yields_def)
qed

lemma element_exists_holding:
  assumes "holding c m es" "one_key es"
  shows "\<exists>c'. element_exists c i = Some (es \<noteq> [], c') \<and> holding c' m es"
  using one_key_lookup [OF assms, of i] assms(2) by (auto simp: element_exists_def one_key_def)

lemma element_exists_step:
  assumes "holding c m es" "one_key es" "\<And>c'. holding c' m es \<Longrightarrow> yields (f (es \<noteq> [], c')) P"
  shows "yields (Option.bind (element_exists c i) f) P"
  using element_exists_holding [OF assms(1,2), of i] assms(3) by auto

lemma exist_all_holding:
  "holding c m [(''lu'', x)] \<Longrightarrow> \<exists>c'. exist_all is True c = Some (True, c') \<and> holding c' m [(''lu'', x)]"
proof (induction "is" arbitrary: c)
  case (Cons i "is")
  then show ?case using element_exists_holding [OF Cons.prems, of i] by auto
qed simp

lemma elements_exist_step:
  assumes "holding c m [(''lu'', x)]" "\<And>c'. holding c' m [(''lu'', x)] \<Longrightarrow> yields (f (True, c')) P"
  shows "yields (Option.bind (elements_exist c a b) f) P"
proof -
  obtain c' where "elements_exist c a b = Some (True, c')" "holding c' m [(''lu'', x)]"
    using exist_all_holding [OF assms(1)] unfolding elements_exist_def by blast
  then show ?thesis using assms(2) by simp
qed

lemma elements_dont_exist_step:
  assumes "holding c m [(''lu'', x)]" "a < b" "\<And>c'. holding c' m [(''lu'', x)] \<Longrightarrow> yields (f (False, c')) P"
  shows "yields (Option.bind (elements_dont_exist c a b) f) P"
  using element_exists_holding [OF assms(1), of a] assms(2,3)
  by (auto simp: elements_dont_exist_def upt_conv_Cons)

lemma space_of_all_holding:
  assumes "holding c m [(''lu'', x)]"
  shows "\<exists>c'. space_of_all v ty is so_far c = Some (so_far + (\<Sum>i\<leftarrow>is. ucast (val_size_of v i ty)), c') \<and>
    holding c' m [(''lu'', x)]"
  using assms
proof (induction "is" arbitrary: c so_far)
  case (Cons i "is")
  obtain n c1 where c1: "get_bytes c (load_key_to_intarr i) = Some (Some x, n, c1)" "holding c1 m [(''lu'', x)]"
    using one_key_lookup [OF Cons.prems, of i] by auto
  then show ?case
    using Cons.IH [OF c1(2), of "so_far + ucast (val_size_of v i ty)"] by (simp add: space_of_element_def add.assoc)
qed simp

lemma space_of_elements_step:
  assumes "holding c m [(''lu'', x)]"
    and "\<And>c'. holding c' m [(''lu'', x)] \<Longrightarrow> yields (f (\<Sum>i\<leftarrow>[a..<b]. ucast (val_size_of v i ty), c')) P"
  shows "yields (Option.bind (space_of_elements v c a b ty) f) P"
proof -
  obtain c' where "space_of_elements v c a b ty = Some (\<Sum>i\<leftarrow>[a..<b]. ucast (val_size_of v i ty), c')"
      "holding c' m [(''lu'', x)]"
    using space_of_all_holding [OF assms(1), of v ty "[a..<b]" 0] unfolding space_of_elements_def by auto
  then show ?thesis using assms(2) by simp
qed

lemmas element_steps = add_element_step add_elements_step delete_element_step delete_elements_step
  element_exists_step elements_exist_step elements_dont_exist_step space_of_elements_step test_steps

section \<open>Tests that pass\<close>

lemmas new_cache = holding_create [unfolded max_capacity_def]

lemma destroy_test_passes: "destroy_test = Some True"
  unfolding yields_eq [symmetric] destroy_test_def
  using new_cache [of 1000, simplified]
  by - ((rule test_steps, assumption | simp)+)

lemma add_test_passes:
  assumes v: "gen_vals_ok v"
  shows "add_test v = Some True"
proof -
  have l: "length (val_ptr v i T_STR) \<le> 2000" for i
    using length_string [OF v, of i] by simp
  show ?thesis
    unfolding yields_eq [symmetric] add_test_def Let_def
    using new_cache [of "of_nat (20 * max_str_len)"]
    by - (simp add: max_str_len_def, (rule element_steps, assumption | simp add: v l)+)
qed

lemma length_too_long [simp]: "length too_long = 122"
  by (simp add: too_long_def)

lemma crash_on_memoverload_passes: "crash_on_memoverload = Some True"
  unfolding yields_eq [symmetric] crash_on_memoverload_def
  using new_cache [of 65, simplified]
  by - ((rule test_steps, assumption | simp add: spec_simps)+)

lemma get_size_test_passes: "get_size_test = Some True"
  unfolding yields_eq [symmetric] get_size_test_def
  using new_cache [of 1000, simplified]
  by - ((rule test_steps, assumption | simp add: spec_simps)+)

lemma get_val_test_passes: "get_val_test = Some True"
  unfolding yields_eq [symmetric] get_val_test_def
  using new_cache [of 1000, simplified]
  by - ((rule test_steps, assumption | simp add: spec_simps c_string_def)+)

lemma delete_test_passes: "delete_test = Some True"
  unfolding yields_eq [symmetric] delete_test_def
  using new_cache [of 1000, simplified]
  by - ((rule test_steps, assumption | simp add: spec_simps)+)

lemma create_init_correct_mem_passes: "create_init_correct_mem = Some True"
  unfolding yields_eq [symmetric] create_init_correct_mem_def
  using new_cache [of 65, simplified]
  by - ((rule test_steps, assumption | simp add: spec_simps space_used)+)

lemma add_single_item_over_memmax_passes: "add_single_item_over_memmax = Some True"
  unfolding yields_eq [symmetric] add_single_item_over_memmax_def
  using new_cache [of 65, simplified]
  by - ((rule test_steps, assumption | simp add: spec_simps)+)

lemma length_int_bytes [simp]: "length (int_bytes n x) = n"
  by (simp add: int_bytes_def)

lemma large_val_copied_correctly_passes: "large_val_copied_correctly = Some True"
  unfolding yields_eq [symmetric] large_val_copied_correctly_def Let_def
  using new_cache [of 1000, simplified]
  by - ((rule test_steps, assumption | simp add: spec_simps)+)

lemma get_huge_value_passes:
  assumes "length s < 50000" "NUL \<notin> set s"
  shows "get_huge_value s = Some True"
proof -
  have u: "unat (of_nat (length s) + 1 :: u32) = Suc (length s)" "unat (1 + of_nat (length s) :: u32) = Suc (length s)"
  proof -
    have "unat (of_nat (length s + 1) :: u32) = length s + 1"
      using assms(1) by (simp add: unat_of_nat take_bit_nat_eq_self del: of_nat_add of_nat_Suc)
    then show "unat (of_nat (length s) + 1 :: u32) = Suc (length s)" "unat (1 + of_nat (length s) :: u32) = Suc (length s)"
      by (simp_all add: add.commute)
  qed
  have fits: "\<not> 49999 < length s" using assms(1) by simp
  show ?thesis
    unfolding yields_eq [symmetric] get_huge_value_def
    using new_cache [of 50000, simplified]
    by - ((rule test_steps, assumption | simp add: spec_simps u fits assms c_string_def takeWhile_nul)+)
qed

lemma get_null_empty_passes:
  assumes v: "gen_vals_ok v"
  shows "get_null_empty v = Some True"
  unfolding yields_eq [symmetric] get_null_empty_def Let_def
  using new_cache [of "of_nat (100 * 2 + 1)", simplified]
  by - (simp, (rule element_steps, assumption | simp add: v spec_simps)+)

lemma get_nonexist_passes: "get_nonexist = Some True"
  unfolding yields_eq [symmetric] get_nonexist_def
  using new_cache [of 1000, simplified]
  by - ((rule test_steps, assumption | simp add: spec_simps)+)

lemma get_size_after_reassign_test_passes: "get_size_after_reassign_test = Some True"
  unfolding yields_eq [symmetric] get_size_after_reassign_test_def
  using new_cache [of 1000, simplified]
  by - ((rule test_steps, assumption | simp add: spec_simps)+)

lemma get_with_null_term_strs_test_passes: "get_with_null_term_strs_test = Some True"
  unfolding yields_eq [symmetric] get_with_null_term_strs_test_def Let_def
  using new_cache [of 100, simplified]
  by - ((rule test_steps, assumption | simp add: spec_simps)+)

lemma delete_not_in_passes:
  assumes v: "gen_vals_ok v"
  shows "delete_not_in v = Some True"
proof -
  have l: "length (val_ptr v i T_STR) \<le> 101" for i
    using length_string [OF v, of i] by simp
  show ?thesis
    unfolding yields_eq [symmetric] delete_not_in_def Let_def
    using new_cache [of "of_nat (max_str_len + 1)"]
    by - (simp add: max_str_len_def, (rule element_steps, assumption | simp add: v l)+)
qed

lemma evict_on_reset_old_val_passes: "evict_on_reset_old_val = Some True"
  unfolding yields_eq [symmetric] evict_on_reset_old_val_def
  using new_cache [of "3 * 4", simplified]
  by - ((rule test_steps, assumption | simp add: spec_simps)+)

lemma update_reordering_passes: "update_reordering = Some True"
  unfolding yields_eq [symmetric] update_reordering_def
  using new_cache [of "4 * 4", simplified]
  by - ((rule test_steps, assumption | simp add: spec_simps)+)

lemma get_reordering_passes: "get_reordering = Some True"
  unfolding yields_eq [symmetric] get_reordering_def
  using new_cache [of "3 * 4", simplified]
  by - ((rule test_steps, assumption | simp add: spec_simps)+)

lemma add_over_memmax_eviction_passes:
  assumes v: "gen_vals_ok v"
  shows "add_over_memmax_eviction v = Some True"
  unfolding yields_eq [symmetric] add_over_memmax_eviction_def Let_def
  using new_cache [of "10 * 2", simplified]
  by - (simp, (rule element_steps, assumption | simp add: v spec_simps)+)

lemma add_resize_buckets_or_maxmem_passes:
  assumes v: "gen_vals_ok v"
  shows "add_resize_buckets_or_maxmem v = Some True"
  unfolding yields_eq [symmetric] add_resize_buckets_or_maxmem_def Let_def
  using new_cache [of "10 * 2", simplified]
  by - (simp, (rule element_steps, assumption | simp add: v spec_simps)+)

lemma elements_not_evicted_early_passes:
  assumes v: "gen_vals_ok v"
  shows "elements_not_evicted_early v = Some True"
  unfolding yields_eq [symmetric] elements_not_evicted_early_def Let_def
  using new_cache [of "of_nat (100 * 2)", simplified]
  by - (simp, (rule element_steps, assumption | simp add: v)+)

text \<open>Every operation looks for the link of its key first, by the hash.\<close>

lemma hash_is_called:
  "hash_called (\<lambda>c. add_element v c i ty) c" "hash_called (\<lambda>c. element_exists c i) c"
  "hash_called (\<lambda>c. delete_element c i) c"
  by (simp_all add: hash_called_def add_element_def element_exists_def delete_element_def cache_set_def get_bytes_def
      cache_get_def cache_delete_def querry_hash_def)

lemma custom_hash_is_called_passes:
  assumes v: "gen_vals_ok v"
  shows "custom_hash_is_called v = Some True"
proof -
  have l: "length (val_ptr v i T_STR) \<le> 1000" for i
    using length_string [OF v, of i] by simp
  have "valid_hash (Some custom_hash)"
    by (simp add: valid_hash_def hash_ok_def custom_hash_def)
  from holding_create_hash [OF this, of 1000] show ?thesis
    unfolding yields_eq [symmetric] custom_hash_is_called_def Let_def max_capacity_def
    by - (simp, (rule element_steps, assumption | simp add: v l hash_is_called)+)
qed

section \<open>Tests that fail\<close>

lemma space_test_fails:
  assumes v: "gen_vals_ok v"
  shows "space_test v = Some False"
  unfolding yields_eq [symmetric] space_test_def Let_def
  using new_cache [of 10000, simplified]
  by - ((rule element_steps, assumption | simp add: v space_used)+)

lemma evictions_occur_fails:
  assumes v: "gen_vals_ok v"
  shows "evictions_occur v = Some False"
  unfolding yields_eq [symmetric] evictions_occur_def Let_def
  using new_cache [of "of_nat (10 * 2)", simplified]
  by - (simp, (rule element_steps, assumption | simp add: v)+)

lemma basic_lru_test_fails:
  assumes v: "gen_vals_ok v"
  shows "basic_lru_test v = Some False"
  unfolding yields_eq [symmetric] basic_lru_test_def Let_def
  using new_cache [of "2 * 2 + 1", simplified]
  by - (simp, (rule element_steps, assumption | simp add: v)+)

lemma lru_delete_test_fails: "gen_vals_ok v \<Longrightarrow> lru_delete_test v = Some False"
  using basic_lru_test_fails [of v] by (simp add: lru_delete_test_def basic_lru_test_def)

lemma evict_on_failed_reset_old_val_fails: "evict_on_failed_reset_old_val = Some False"
  unfolding yields_eq [symmetric] evict_on_failed_reset_old_val_def
  using new_cache [of "3 * 4", simplified]
  by - ((rule test_steps, assumption | simp add: spec_simps)+)

lemma ucast_val_size: "gen_vals_ok v \<Longrightarrow> (ucast (val_size_of v i ty) :: u64) = of_nat (length (val_ptr v i ty))"
  by (metis of_nat_unat val_size_length)

lemma string_space: "gen_vals_ok v \<Longrightarrow> 1 \<le> length (val_ptr v i T_STR)"
  by (simp add: val_ptr_def)

lemma cache_space_preserved_fails:
  assumes v: "gen_vals_ok v"
  shows "cache_space_preserved v = Some False"
proof -
  have l: "length (val_ptr v i T_STR) \<le> 200" for i
    using length_string [OF v, of i] by simp
  let ?size = "\<lambda>i. ucast (val_size_of v i T_STR) :: u64"
  define n where "n = length (val_ptr v 2 T_STR) + (length (val_ptr v 3 T_STR) + length (val_ptr v 4 T_STR))"
  have "n < 300"
    using length_string [OF v, of 2] length_string [OF v, of 3] length_string [OF v, of 4] by (simp add: n_def)
  then have "unat (of_nat (2 + n) :: u64) = 2 + n"
    by (intro unat_of_nat_64) simp
  then have "of_nat (2 + n) \<noteq> (0 :: u64)"
    by force
  then have differ: "2 + (?size 2 + (?size 3 + ?size 4)) \<noteq> 0"
    by (simp add: n_def ucast_val_size [OF v])
  have ints: "(\<Sum>i\<leftarrow>[0..<2]. ucast (val_size_of v i T_INT) :: u64) = 4"
    by (simp add: ucast_val_size [OF v] numeral_eq_Suc)
  show ?thesis
    unfolding yields_eq [symmetric] cache_space_preserved_def Let_def
    using new_cache [of 200, simplified]
    by - ((rule element_steps, assumption | simp add: v l space_used ints differ)+)
qed

lemma maxmem_not_excceeded_fails:
  assumes v: "gen_vals_ok v"
  shows "maxmem_not_excceeded v = Some False"
proof -
  have space: "(\<Sum>i\<leftarrow>[0..<101]. ucast (val_size_of v i T_INT) :: u64) = 202"
    by (simp add: ucast_val_size [OF v] sum_list_triv)
  show ?thesis
    unfolding yields_eq [symmetric] maxmem_not_excceeded_def Let_def
    using new_cache [of "of_nat (100 * 2)", simplified]
    by - (simp, (rule element_steps, assumption | simp add: v space)+)
qed

lemma var_len_evictions_fails:
  assumes v: "gen_vals_ok v"
  shows "var_len_evictions v = Some False"
proof -
  define m where "m = length (val_ptr v 0 T_STR) + length (val_ptr v 1 T_STR) + length (val_ptr v 2 T_STR) - 1"
  have l: "length (val_ptr v i T_STR) \<le> m" if "i < 3" for i
  proof -
    have "i = 0 \<or> i = 1 \<or> i = 2" using that by auto
    then show ?thesis
      using string_space [OF v, of 0] string_space [OF v, of 1] string_space [OF v, of 2] by (auto simp: m_def)
  qed
  have max: "ucast (val_size_of v 0 T_STR + val_size_of v 1 T_STR + val_size_of v 2 T_STR - 1) = (of_nat m :: u64)"
  proof -
    have w: "val_size_of v i T_STR = of_nat (length (val_ptr v i T_STR))" for i
      by (metis v val_size_length of_nat_unat ucast_id)
    have "(of_nat m :: u32) = val_size_of v 0 T_STR + val_size_of v 1 T_STR + val_size_of v 2 T_STR - 1"
      using string_space [OF v, of 0] unfolding m_def w by (simp add: of_nat_diff)
    moreover have "unat (of_nat m :: u32) = m"
      using length_string [OF v, of 0] length_string [OF v, of 1] length_string [OF v, of 2]
      by (simp add: m_def unat_of_nat take_bit_nat_eq_self)
    ultimately show ?thesis
      by (metis of_nat_unat)
  qed
  have bound: "m < 300"
    using length_string [OF v, of 0] length_string [OF v, of 1] length_string [OF v, of 2] by (simp add: m_def)
  show ?thesis
    unfolding yields_eq [symmetric] var_len_evictions_def Let_def max
    using new_cache [of "of_nat m"] bound
    by - (simp add: unat_of_nat_64, (rule element_steps, assumption | simp add: v l)+)
qed

section \<open>The results\<close>

lemmas passing = add_test_passes destroy_test_passes crash_on_memoverload_passes get_size_test_passes
  get_val_test_passes delete_test_passes add_single_item_over_memmax_passes large_val_copied_correctly_passes
  get_huge_value_passes add_over_memmax_eviction_passes add_resize_buckets_or_maxmem_passes get_null_empty_passes
  get_nonexist_passes get_size_after_reassign_test_passes get_with_null_term_strs_test_passes delete_not_in_passes
  custom_hash_is_called_passes update_reordering_passes evict_on_reset_old_val_passes get_reordering_passes elements_not_evicted_early_passes

lemmas failing = space_test_fails cache_space_preserved_fails evictions_occur_fails basic_lru_test_fails
  lru_delete_test_fails evict_on_failed_reset_old_val_fails maxmem_not_excceeded_fails var_len_evictions_fails

text \<open>
  C26: whatever values are drawn at random, these tests of the repository pass on the cache:
  without undefined behaviour, and with the result \<open>true\<close>.
\<close>

theorem tests_pass:
  assumes "gen_vals_ok v" "length str < 50000" "NUL \<notin> set str"
  shows "list_all (\<lambda>n. run_test v str n = Some True)
      [0, 1, 2, 3, 4, 5, 6, 8, 10, 11, 12, 13, 14, 15, 16, 17, 19, 20, 25, 26, 28, 30]"
  using assms by (simp add: run_test_def create_test_def passing)

text \<open>Values as they may be drawn.\<close>

definition some_vals :: test_vals where
  "some_vals = \<lparr>ivals = \<lambda>i. CHR ''A'', svals = \<lambda>i. ''ABC''\<rparr>"

lemma some_vals_ok: "gen_vals_ok some_vals"
  by (simp add: gen_vals_ok_def some_vals_def rand_char_range_def max_str_len_def)

lemma tests_pass_witness:
  "list_all (\<lambda>n. run_test some_vals ''huge'' n = Some True)
      [0, 1, 2, 3, 4, 5, 6, 8, 10, 11, 12, 13, 14, 15, 16, 17, 19, 20, 25, 26, 28, 30]"
  by (rule tests_pass [OF some_vals_ok]) simp_all

text \<open>Two tests read a value through a pointer of \<open>cache_get\<close> after the cache has freed it.\<close>

lemma reading_freed:
  "get_val_after_reassign_test = None" "delete_affect_get_out = None"
  by code_simp+

text \<open>
  C25: these tests fail, though the cache does what it should.  The helpers give every element the
  key \<open>lu\<close>, as the format \<open>PRIu64\<close> has no percent sign, so a cache holds one element at most and
  every element seems to be there (tests 7, 9, 22, 23, 24, 29 and 31); and test 27 expects the old
  value to stay when a value too large for the cache is set, where \<open>cache_set\<close> drops it.  Two more
  are undefined: they read a value through a pointer of \<open>cache_get\<close> after the cache has freed it, in
  one because the key was set again (18), in the other because it was deleted (21).
\<close>

theorem tests_fail:
  assumes "gen_vals_ok v"
  shows "(\<forall>i j. c_string (load_key_to_intarr i) = c_string (load_key_to_intarr j)) \<and>
    list_all (\<lambda>n. run_test v str n = Some False) [7, 9, 22, 23, 24, 27, 29, 31] \<and>
    list_all (\<lambda>n. run_test v str n = None) [18, 21]"
  using assms by (simp add: run_test_def failing load_key reading_freed)

lemma tests_fail_witness:
  "(\<forall>i j. c_string (load_key_to_intarr i) = c_string (load_key_to_intarr j)) \<and>
    list_all (\<lambda>n. run_test some_vals ''huge'' n = Some False) [7, 9, 22, 23, 24, 27, 29, 31] \<and>
    list_all (\<lambda>n. run_test some_vals ''huge'' n = None) [18, 21]"
  by (rule tests_fail [OF some_vals_ok])

end
