(* ===== verification/Spec2Isabelle.thy ===== *)
theory Spec2Isabelle
  imports Hash_Cache_Api Server_Correct Client_Correct Network Connections Json_Correct Json_Safe Json_Dumped
    Json_Laws Json_Iter_Correct Json_Program Json_Convert
    Json_Stream_Parser Json_Callback Cache_Tests_Correct
begin

text \<open>
  A cache with a network front end (\<open>src/\<close>): a bounded hash table cache with a replacement
  policy, a server that offers it over TCP and UDP, a client library with the interface of the
  cache, and the JSON library both sides use for the answers.

  \<^bold>\<open>The program and its parts.\<close>
  The client (\<open>client.cpp\<close>) implements \<open>cache.h\<close> by messages such as \<open>PUT /key/value\<close>; sets,
  deletes and posts go over TCP and wait for nothing, gets go over UDP.  The server
  (\<open>server.cpp\<close>) cuts a message into words (\<open>act_on_message\<close>), acts on its one cache and
  answers a get with JSON text (\<open>make_json\<close>), which the client parses (\<open>unpack_json\<close>).  The
  cache (\<open>impl/hash_cache.c\<close>) is a table of chains that doubles, with copies of keys and
  values; which entries go when it is full is decided by the policy
  (\<open>impl/lru_replacement.c\<close>) behind the interface \<open>impl/replacement.h\<close>.  \<open>json/json.hpp\<close> is
  values, serializer, lexer, parser and iterators.

  \<^bold>\<open>The theories.\<close>
  \<^item> \<open>Prelude\<close>: machine integers, pointers, the typed heap, C strings, lemma collections.
  \<^item> \<open>Replacement\<close>: the interface of a replacement policy as the locale \<open>replacement_policy\<close>;
    \<open>Lru\<close>: the functions of \<open>lru_replacement.c\<close> on a doubly linked list in the heap, and the
    interpretation of the interface on them.
  \<^item> \<open>Hash_Cache\<close>: the functions of \<open>hash_cache.c\<close> and \<open>helper.c\<close>; \<open>Hash_Cache_Chains\<close>: the table
    and its chains; \<open>Hash_Cache_Correct\<close>: the invariant and the operations;
    \<open>Cache_Spec\<close>: the abstract cache, a list of entries in recency order, with the locale
    \<open>cache_api\<close>; \<open>Hash_Cache_Api\<close>: its interpretation on the code and the cache's properties.
  \<^item> \<open>Cache_Tests\<close>: the helpers and tests of \<open>test/\<close> on this cache; \<open>Cache_Tests_Correct\<close>: which
    of them pass, fail, or read memory the cache has freed, by one rule for each operation.
  \<^item> \<open>User_Con\<close>: \<open>user_con.hpp\<close>.  \<open>Server\<close>: the verbs, messages, handlers, options and exit paths
    of \<open>server.cpp\<close>; \<open>Server_Correct\<close>: the locale \<open>connection\<close>, interpreted on both kinds of
    connection, and what the messages do.
  \<^item> \<open>Network\<close>: the event loop as step relations, any pending message next, datagrams lost, sends
    that go on when the string they send from is gone; what may go wrong in any run, and the race
    between a delete and a get.
  \<^item> \<open>Connections\<close>: the asynchronous operations under way, accepting connections, reading each
    once, receiving datagrams and sending; every run of this loop is one of \<open>Network\<close>, and the loop
    can handle any further messages from wherever it is.
  \<^item> \<open>Client\<close>: the operations of \<open>client.cpp\<close>; \<open>Client_Correct\<close>: the answers it reads, and
    set-then-get from end to end.
  \<^item> \<open>Json_Value\<close>, \<open>Json_Ops\<close>: class \<open>basic_json\<close>, its access, modifiers and comparison;
    \<open>Json_Laws\<close>: objects as maps (locale \<open>key_map\<close>, the contract of \<open>std::map\<close>), lists that
    become objects, the order of values, UTF-8.
  \<^item> \<open>Json_Convert\<close>: constructors from C++ values, \<open>get\<close> for any C++ type, \<open>get_ptr\<close>, \<open>get_ref\<close>,
    output to a stream and hashing; values come back as they were.
  \<^item> \<open>Json_Memory\<close>: the pointers behind class \<open>basic_json\<close>, its constructors, destructor, assignment
    and modifiers on a memory of blocks, and programs over variables; \<open>Json_Memory_Correct\<close>: the
    blocks a value owns and how each operation changes them; \<open>Json_Program\<close>: programs in memory
    refine programs on values and give back all their memory.
  \<^item> \<open>Json_Iter\<close>: iterators, reverse iterators, the key wrapper and what takes iterators;
    \<open>Json_Iter_Correct\<close>: the locale \<open>iteration\<close>, interpreted for the three kinds of loop, and
    erasing, inserting, finding and copying.
  \<^item> \<open>Json_Dump\<close>: \<open>escape_string\<close> and \<open>dump\<close>; \<open>Json_Lexer\<close>: the labels of the generated scanner
    and reading strings; \<open>Json_Parser\<close>: numbers and the recursive descent with its callback.
  \<^item> \<open>Json_Lexer_Correct\<close> and \<open>Json_Correct\<close>: tokens of dumped text, and that parsing undoes
    dumping; \<open>Json_Safe\<close>: on any text nothing is read behind its end, the grammar of string
    tokens, and the parser always returns or throws.
  \<^item> \<open>Json_Grammar\<close>: a grammar of JSON texts with their values, the meaning of escapes
    and their UTF-8 bytes included, stated apart from the code;
    \<open>Json_Reads\<close>: the scanner's tokens, strings and numbers are the grammar's; \<open>Json_Throws\<close>: the
    exceptions of the parser; \<open>Json_Accepts\<close>: the parser accepts exactly the grammar and throws for
    any other text; \<open>Json_Dumped\<close>: what \<open>dump\<close> writes with any indentation belongs to the grammar.
  \<^item> \<open>Json_Stream\<close>: the lexer on a stream, whose buffer \<open>yyfill\<close> extends line by line, with the
    labels of the scanner as data; \<open>Json_Stream_Correct\<close>: its buffer is a window of the text and it
    reads the tokens of \<open>Json_Lexer\<close>; \<open>Json_Stream_Parser\<close>: the parser with that lexer, which does
    what \<open>Json_Parser\<close> does on the text, and the operations that read from a stream.
  \<^item> \<open>Json_Callback\<close>: two parsers with callbacks of their own read the same tokens and throw the
    same exceptions, so a callback only chooses what is kept.

  \<^bold>\<open>How the code is modelled.\<close>
  A C struct is a record, a pointer an optional address into a heap of its type; machine
  integers are words of their width.  \<open>None\<close> as the result of a function is undefined behaviour
  or a failed assertion; a C++ exception is the left side of a sum.  The state of a class is
  passed along explicitly; what asio delivers and whether it fails is an argument.  \<open>double\<close> is
  a parameter (\<open>float_ops\<close>) of which nothing is assumed but, for the grammar, that \<open>strtod\<close> reads a
  number to its end (\<open>strtod_reads\<close>) and, for streams, not beyond a line break
  (\<open>strtod_lines\<close>); \<open>int_floats\<close> and \<open>text_floats\<close> are instances for the
  witnesses.  The default hash function reads little-endian words.  A key or value given to the
  cache is the content of a buffer of the caller.

  \<^bold>\<open>Bounds and fuel.\<close>
  Loops over lists of the heap have fuel, the number of addresses given out so far, which no
  list without a cycle exceeds; the operations are shown to return under the invariant.  The
  parser's fuel is two more than the length of the text: each level of the recursion and each
  round of a loop reads a token (\<open>parse_total\<close>).
  The scanner on a stream has two steps for every byte that is in the buffer or still to come
  (\<open>stream_unread_enough\<close>).  Copying and destroying a JSON value have one
  more than the addresses given out, since nested values lie at different addresses
  (\<open>owns_fuel\<close>).  Properties of runs of the cache bound its
  capacity by \<open>max_capacity\<close> = 2^64 - 2^32, above which the code's sum wraps around, and the
  number of operations by 2^58 (messages by 2^57), so that the table stays below 2^60 slots.
  A datagram fits into
  the buffer of \<open>bufsize\<close> characters.

  \<^bold>\<open>Not modelled.\<close>
  The vendored networking library (\<open>src/asio\<close>), which the program only calls: connecting,
  resolving and the socket options have no model, the operations of the server are those of
  \<open>Connections\<close>.  Of a send the handlers (\<open>tcp_write_message\<close>, \<open>udp_write_message\<close>) record the bytes
  that are in the buffer when it is started; that this buffer is a string destroyed on return is in
  the steps of \<open>Network\<close> and \<open>Connections\<close>, where asio decides which sends are complete by then.
  Cutting a message, the code forms iterators outside of the string (\<open>begin + npos\<close>,
  \<open>begin + size() + 1\<close>), which is undefined by the standard; \<open>range\<close> does what the library of GCC does.
  A callback of the parser is a function of its arguments: it keeps no state and does not throw.
  Releasing the cache object itself, with its table, is not tracked; all it points to is.
  Of \<open>json.hpp\<close>: what is left in a stream after reading from it, and an allocation that fails.  Only
  \<open>Json_Memory\<close> and what builds on it has values in memory; elsewhere a value is the tree of its
  parts.  Iterators of the standard containers are positions, so an iterator that outlives a
  modification is outside of the model.  Of the tests, what they print; and the scripts.
\<close>

end
